(* ===== verification/CV_Prelude.thy ===== *)
theory CV_Prelude
  imports Main "HOL-Library.Word"
begin

text \<open>
  The shared base of the development: machine integers, the results of fallible Rust
  functions, state-passing computations for \<open>&mut self\<close> methods with a small Hoare
  calculus, little-endian byte codecs, and the contract of the two byte cursors of
  \<open>src/src/cont.rs\<close> and \<open>src/src/journal.rs\<close>.

  Conventions used by every theory:
  \<^item> \<open>u8\<close>, \<open>u16\<close>, \<open>u32\<close>, \<open>u64\<close> and \<open>i64\<close> are words of that width; an \<open>i64\<close> is read with
    \<open>sint\<close>. A \<open>usize\<close> that counts bytes, slots or list elements is a \<open>nat\<close>.
  \<^item> Arithmetic overflow wraps, as in the release profile of \<open>Cargo.toml\<close>, which leaves
    \<open>overflow-checks\<close> off.
  \<^item> A Rust panic (slice or index out of range, \<open>expect\<close> on \<open>None\<close>) is the result \<open>Panic\<close>.
\<close>

named_theorems wp \<open>Hoare triples of the state-passing operations\<close>
named_theorems run_defs \<open>definitions unfolded to run a concrete computation\<close>

section \<open>Machine integers\<close>

type_synonym u8 = "8 word"
type_synonym u16 = "16 word"
type_synonym u32 = "32 word"
type_synonym u64 = "64 word"
type_synonym i64 = "64 word"
type_synonym bytes = "u8 list"

definition u32_max :: nat where
  "u32_max = 2 ^ 32 - 1"

lemma unat_bound: "unat (w :: 'a::len word) < 2 ^ LENGTH('a)"
  by (rule unsigned_less)

section \<open>Results of fallible functions\<close>

datatype ('e, 'a) res = Ok 'a | Err 'e | Panic

fun rbind :: "('e, 'a) res \<Rightarrow> ('a \<Rightarrow> ('e, 'b) res) \<Rightarrow> ('e, 'b) res" where
  "rbind (Ok x) f = f x"
| "rbind (Err e) f = Err e"
| "rbind Panic f = Panic"

definition of_opt :: "'e \<Rightarrow> 'a option \<Rightarrow> ('e, 'a) res" where
  "of_opt e x = (case x of None \<Rightarrow> Err e | Some y \<Rightarrow> Ok y)"

fun is_Ok :: "('e, 'a) res \<Rightarrow> bool" where
  "is_Ok (Ok _) = True"
| "is_Ok _ = False"

lemma of_opt_simps [simp]: "of_opt e None = Err e" "of_opt e (Some x) = Ok x"
  by (simp_all add: of_opt_def)

lemma rbind_eq_Ok: "rbind m f = Ok y \<longleftrightarrow> (\<exists>x. m = Ok x \<and> f x = Ok y)"
  by (cases m) auto

lemma rbind_eq_Panic: "rbind m f = Panic \<longleftrightarrow> m = Panic \<or> (\<exists>x. m = Ok x \<and> f x = Panic)"
  by (cases m) auto

lemma rbind_Ok_right [simp]: "rbind m Ok = m"
  by (cases m) auto

lemma rbind_assoc: "rbind (rbind m f) g = rbind m (\<lambda>x. rbind (f x) g)"
  by (cases m) auto

text \<open>\<open>iter().map(f).collect::<Result<Vec<_>>>()\<close>: the first error wins.\<close>

fun collect_res :: "('a \<Rightarrow> ('e, 'b) res) \<Rightarrow> 'a list \<Rightarrow> ('e, 'b list) res" where
  "collect_res f [] = Ok []"
| "collect_res f (x # xs) = rbind (f x) (\<lambda>y. rbind (collect_res f xs) (\<lambda>ys. Ok (y # ys)))"

lemma collect_res_length: "collect_res f xs = Ok ys \<Longrightarrow> length ys = length xs"
  by (induction xs arbitrary: ys) (auto simp: rbind_eq_Ok)

lemma collect_res_no_panic:
  "(\<And>x. x \<in> set xs \<Longrightarrow> f x \<noteq> Panic) \<Longrightarrow> collect_res f xs \<noteq> Panic"
  by (induction xs) (auto simp: rbind_eq_Panic)

section \<open>Slices\<close>

text \<open>\<open>slice.get(lo..hi)\<close>: \<open>None\<close> unless \<open>lo <= hi <= len\<close>.\<close>

definition slice_get :: "'a list \<Rightarrow> nat \<Rightarrow> nat \<Rightarrow> 'a list option" where
  "slice_get xs lo hi = (if lo \<le> hi \<and> hi \<le> length xs then Some (take (hi - lo) (drop lo xs)) else None)"

text \<open>\<open>slice.get(i)\<close>.\<close>

definition nth_get :: "'a list \<Rightarrow> nat \<Rightarrow> 'a option" where
  "nth_get xs i = (if i < length xs then Some (xs ! i) else None)"

lemma slice_get_length: "slice_get xs lo hi = Some ys \<Longrightarrow> length ys = hi - lo"
  by (auto simp: slice_get_def split: if_splits)

lemma slice_get_append:
  "slice_get xs lo hi = Some ys \<Longrightarrow> slice_get (xs @ zs) lo hi = Some ys"
  by (auto simp: slice_get_def split: if_splits)

lemma slice_get_mid:
  "slice_get (xs @ ys @ zs) (length xs) (length xs + length ys) = Some ys"
  by (simp add: slice_get_def)

lemma nth_get_Some_set: "nth_get xs i = Some x \<Longrightarrow> x \<in> set xs"
  by (auto simp: nth_get_def split: if_splits)

lemma last_conv_nth_Suc: "length xs = Suc n \<Longrightarrow> last xs = xs ! n"
  by (cases xs rule: rev_cases) auto

section \<open>Little-endian byte codecs\<close>

text \<open>
  \<open>to_le_bytes\<close> and \<open>from_le_bytes\<close> of the standard library: \<open>le_bytes n x\<close> is the low
  \<open>n\<close> bytes of \<open>x\<close>, least significant first.
\<close>

fun le_bytes :: "nat \<Rightarrow> nat \<Rightarrow> bytes" where
  "le_bytes 0 x = []"
| "le_bytes (Suc n) x = of_nat (x mod 256) # le_bytes n (x div 256)"

fun le_nat :: "bytes \<Rightarrow> nat" where
  "le_nat [] = 0"
| "le_nat (b # bs) = unat b + 256 * le_nat bs"

definition u16_le :: "u16 \<Rightarrow> bytes" where "u16_le w = le_bytes 2 (unat w)"
definition u32_le :: "u32 \<Rightarrow> bytes" where "u32_le w = le_bytes 4 (unat w)"
definition u64_le :: "u64 \<Rightarrow> bytes" where "u64_le w = le_bytes 8 (unat w)"

definition u16_of_le :: "bytes \<Rightarrow> u16" where "u16_of_le bs = of_nat (le_nat bs)"
definition u32_of_le :: "bytes \<Rightarrow> u32" where "u32_of_le bs = of_nat (le_nat bs)"
definition u64_of_le :: "bytes \<Rightarrow> u64" where "u64_of_le bs = of_nat (le_nat bs)"

lemma length_le_bytes [simp]: "length (le_bytes n x) = n"
  by (induction n arbitrary: x) auto

lemma le_nat_le_bytes: "le_nat (le_bytes n x) = x mod 256 ^ n"
proof (induction n arbitrary: x)
  case (Suc n)
  have "x mod 256 + 256 * (x div 256 mod 256 ^ n) = x mod (256 * 256 ^ n)"
    by (simp add: mod_mult2_eq)
  with Suc show ?case by (simp add: unat_of_nat)
qed simp

lemma length_u_le [simp]:
  "length (u16_le a) = 2" "length (u32_le b) = 4" "length (u64_le c) = 8"
  by (simp_all add: u16_le_def u32_le_def u64_le_def)

lemma u_of_le_u_le [simp]:
  "u16_of_le (u16_le a) = a" "u32_of_le (u32_le b) = b" "u64_of_le (u64_le c) = c"
  using unat_bound[of a] unat_bound[of b] unat_bound[of c]
  by (simp_all add: u16_le_def u16_of_le_def u32_le_def u32_of_le_def u64_le_def u64_of_le_def
      le_nat_le_bytes)

lemma le_bytes_le_nat: "le_bytes (length bs) (le_nat bs) = bs"
proof (induction bs)
  case (Cons b bs)
  have "unat b < 256" using unat_bound[of b] by simp
  then show ?case using Cons by simp
qed simp

lemma u64_le_inj: "u64_le a = u64_le b \<longleftrightarrow> a = b"
  by (metis u_of_le_u_le(3))

lemma le_nat_bound: "le_nat bs < 256 ^ length bs"
proof (induction bs)
  case (Cons b bs)
  have "unat b < 256" using unat_bound[of b] by simp
  with Cons show ?case by (simp add: algebra_simps) 
qed simp

section \<open>State-passing computations\<close>

text \<open>
  A \<open>&mut self\<close> method that returns \<open>Result<T>\<close>. The state is returned with every outcome:
  a method that fails half way leaves behind the writes it has already made.
\<close>

type_synonym ('s, 'e, 'a) sm = "'s \<Rightarrow> ('e, 'a) res \<times> 's"

definition sret :: "'a \<Rightarrow> ('s, 'e, 'a) sm" where
  "sret x s = (Ok x, s)"

definition sfail :: "'e \<Rightarrow> ('s, 'e, 'a) sm" where
  "sfail e s = (Err e, s)"

definition spanic :: "('s, 'e, 'a) sm" where
  "spanic s = (Panic, s)"

definition slift :: "('e, 'a) res \<Rightarrow> ('s, 'e, 'a) sm" where
  "slift r s = (r, s)"

definition sget :: "('s \<Rightarrow> 'a) \<Rightarrow> ('s, 'e, 'a) sm" where
  "sget f s = (Ok (f s), s)"

definition smod :: "('s \<Rightarrow> 's) \<Rightarrow> ('s, 'e, unit) sm" where
  "smod f s = (Ok (), f s)"

definition sbind :: "('s, 'e, 'a) sm \<Rightarrow> ('a \<Rightarrow> ('s, 'e, 'b) sm) \<Rightarrow> ('s, 'e, 'b) sm" where
  "sbind m f s = (case m s of
     (Ok x, s') \<Rightarrow> f x s'
   | (Err e, s') \<Rightarrow> (Err e, s')
   | (Panic, s') \<Rightarrow> (Panic, s'))"

definition sthen :: "('s, 'e, 'a) sm \<Rightarrow> ('s, 'e, 'b) sm \<Rightarrow> ('s, 'e, 'b) sm" where
  "sthen m k = sbind m (\<lambda>_. k)"

lemmas sm_defs = sret_def sfail_def spanic_def slift_def sget_def smod_def sbind_def sthen_def

declare sm_defs [run_defs]

lemma sbind_Ok [simp]: "m s = (Ok x, s') \<Longrightarrow> sbind m f s = f x s'"
  by (simp add: sbind_def)

lemma sbind_Err [simp]: "m s = (Err e, s') \<Longrightarrow> sbind m f s = (Err e, s')"
  by (simp add: sbind_def)

lemma sbind_Panic [simp]: "m s = (Panic, s') \<Longrightarrow> sbind m f s = (Panic, s')"
  by (simp add: sbind_def)

subsection \<open>Hoare triples\<close>

text \<open>
  \<open>triple P m Q E\<close>: from a state satisfying \<open>P\<close> the computation does not panic; where it
  returns \<open>Ok x\<close> the value and the state satisfy \<open>Q\<close>, where it returns an error the state
  it leaves behind satisfies \<open>E\<close>.
\<close>

definition triple ::
  "('s \<Rightarrow> bool) \<Rightarrow> ('s, 'e, 'a) sm \<Rightarrow> ('a \<Rightarrow> 's \<Rightarrow> bool) \<Rightarrow> ('s \<Rightarrow> bool) \<Rightarrow> bool" where
  "triple P m Q E \<longleftrightarrow> (\<forall>s. P s \<longrightarrow> (case m s of
     (Ok x, s') \<Rightarrow> Q x s' | (Err _, s') \<Rightarrow> E s' | (Panic, _) \<Rightarrow> False))"

lemma tripleI:
  assumes "\<And>s. P s \<Longrightarrow> fst (m s) \<noteq> Panic"
    and "\<And>s x s'. P s \<Longrightarrow> m s = (Ok x, s') \<Longrightarrow> Q x s'"
    and "\<And>s e s'. P s \<Longrightarrow> m s = (Err e, s') \<Longrightarrow> E s'"
  shows "triple P m Q E"
  unfolding triple_def
proof (intro allI impI)
  fix s assume "P s"
  with assms(1-3)[of s] show "case m s of (Ok x, s') \<Rightarrow> Q x s' | (Err _, s') \<Rightarrow> E s' | (Panic, _) \<Rightarrow> False"
    by (cases "m s"; cases "fst (m s)") auto
qed

lemma triple_Ok: "triple P m Q E \<Longrightarrow> P s \<Longrightarrow> m s = (Ok x, s') \<Longrightarrow> Q x s'"
  by (fastforce simp: triple_def)

lemma triple_Err: "triple P m Q E \<Longrightarrow> P s \<Longrightarrow> m s = (Err e, s') \<Longrightarrow> E s'"
  by (fastforce simp: triple_def)

lemma triple_no_panic: "triple P m Q E \<Longrightarrow> P s \<Longrightarrow> fst (m s) \<noteq> Panic"
  by (cases "m s") (fastforce simp: triple_def)

lemma triple_weaken:
  assumes "triple P m Q E" and "\<And>s. P' s \<Longrightarrow> P s"
    and "\<And>x s. Q x s \<Longrightarrow> Q' x s" and "\<And>s. E s \<Longrightarrow> E' s"
  shows "triple P' m Q' E'"
  using assms by (fastforce simp: triple_def split: prod.splits res.splits)

lemma triple_sbind:
  assumes "triple P m Q E" and "\<And>x. triple (Q x) (f x) R E"
  shows "triple P (sbind m f) R E"
  using assms by (fastforce simp: triple_def sbind_def split: prod.splits res.splits)

lemma triple_sthen:
  assumes "triple P m (\<lambda>_. Q) E" and "triple Q k R E"
  shows "triple P (sthen m k) R E"
  unfolding sthen_def by (rule triple_sbind [OF assms(1)]) (rule assms(2))

lemma triple_sret: "(\<And>s. P s \<Longrightarrow> Q x s) \<Longrightarrow> triple P (sret x) Q E"
  by (simp add: triple_def sret_def)

lemma triple_sfail: "(\<And>s. P s \<Longrightarrow> E s) \<Longrightarrow> triple P (sfail e) Q E"
  by (simp add: triple_def sfail_def)

lemma triple_sget: "(\<And>s. P s \<Longrightarrow> Q (f s) s) \<Longrightarrow> triple P (sget f) Q E"
  by (simp add: triple_def sget_def)

lemma triple_smod: "(\<And>s. P s \<Longrightarrow> Q () (f s)) \<Longrightarrow> triple P (smod f) Q E"
  by (simp add: triple_def smod_def)

lemma triple_slift:
  assumes "\<And>s. P s \<Longrightarrow> r \<noteq> Panic" and "\<And>x s. P s \<Longrightarrow> r = Ok x \<Longrightarrow> Q x s"
    and "\<And>e s. P s \<Longrightarrow> r = Err e \<Longrightarrow> E s"
  shows "triple P (slift r) Q E"
  using assms by (auto simp: triple_def slift_def split: res.splits)

lemma triple_if:
  assumes "b \<Longrightarrow> triple P m Q E" and "\<not> b \<Longrightarrow> triple P k Q E"
  shows "triple P (if b then m else k) Q E"
  using assms by simp

end
