(* ===== verification/CV_Diag.thy ===== *)
theory CV_Diag
  imports CV_Prelude
begin

text \<open>
  Diagnostics, \<open>src/src/diag.rs\<close>: source spans, the error codes of the \<open>codes!\<close> table with
  their text, phase and parser, and the diagnostic every fallible function returns.
  A \<open>Diag\<close> is kept as its code, span and instruction index. Its message, labels and notes are
  text for a human reader that no function of the library branches on; they and
  \<open>Diag::render\<close> are not modelled.
\<close>

section \<open>Spans\<close>

record span =
  span_lo :: u32
  span_hi :: u32
  span_line :: u32
  span_col :: u32

definition span_new :: "u32 \<Rightarrow> u32 \<Rightarrow> u32 \<Rightarrow> u32 \<Rightarrow> span" where
  "span_new l h ln c = \<lparr>span_lo = l, span_hi = h, span_line = ln, span_col = c\<rparr>"

definition synthetic :: span where
  "synthetic = \<lparr>span_lo = 0, span_hi = 0, span_line = 0, span_col = 0\<rparr>"

definition is_synthetic :: "span \<Rightarrow> bool" where
  "is_synthetic s \<longleftrightarrow> span_line s = 0"

definition merge :: "span \<Rightarrow> span \<Rightarrow> span" where
  "merge a b =
     (if is_synthetic a then b
      else if is_synthetic b then a
      else let first = (if span_lo a \<le> span_lo b then a else b)
           in
              \<lparr>span_lo = span_lo first, span_hi = max (span_hi a) (span_hi b),
               span_line = span_line first, span_col = span_col first\<rparr>)"

section \<open>Error codes\<close>

datatype phase = Lex | Assemble | Load | Verify | Run | Restore | Journal

datatype (plugins only: code size) code =
    UnterminatedString | BadEscape | BadNumber | StrayChar | UnknownMnemonic |
    UnknownDirective | BadOperand | MissingOperand | UnexpectedOperand | UndefinedLabel |
    DuplicateLabel | DuplicateSymbol | UnknownSymbol | NoEntryPoint | MissingMaxstack |
    OperandOverflow | BranchTooFar | BadMagic | BadIsaVersion | TruncatedSection |
    BadChecksum | UnassignedOpcode | MisalignedInsn | DanglingIndex | DepthMerge |
    TypeMerge | TypeMismatch | StackUnderflow | MaxstackExceeded | PendingEscape |
    PendingMisuse | ForkImbalance | UnmeteredLoop | BadTarget | ReturnArity | Unreachable |
    SwitchNoDefault | DivideByZero | IndexRange | ArityMismatch | ArenaExhausted |
    BudgetExceeded | ToolFailed | Trapped | TagMismatch | ImageMismatch | SnapshotCorrupt |
    SnapshotVersion | BadHandle | LivePending | ChainBroken | Diverged | JournalExhausted |
    RecordMalformed

primrec as_str :: "code \<Rightarrow> string" where
  "as_str UnterminatedString = ''E_UNTERMINATED''"
| "as_str BadEscape = ''E_BAD_ESCAPE''"
| "as_str BadNumber = ''E_BAD_NUMBER''"
| "as_str StrayChar = ''E_STRAY_CHAR''"
| "as_str UnknownMnemonic = ''E_UNKNOWN_OP''"
| "as_str UnknownDirective = ''E_UNKNOWN_DIR''"
| "as_str BadOperand = ''E_BAD_OPERAND''"
| "as_str MissingOperand = ''E_MISSING_OPERAND''"
| "as_str UnexpectedOperand = ''E_UNEXPECTED_OPERAND''"
| "as_str UndefinedLabel = ''E_UNDEF_LABEL''"
| "as_str DuplicateLabel = ''E_DUP_LABEL''"
| "as_str DuplicateSymbol = ''E_DUP_SYMBOL''"
| "as_str UnknownSymbol = ''E_UNKNOWN_SYMBOL''"
| "as_str NoEntryPoint = ''E_NO_ENTRY''"
| "as_str MissingMaxstack = ''E_NO_MAXSTACK''"
| "as_str OperandOverflow = ''E_OPERAND_RANGE''"
| "as_str BranchTooFar = ''E_BRANCH_RANGE''"
| "as_str BadMagic = ''E_BAD_MAGIC''"
| "as_str BadIsaVersion = ''E_ISA_VERSION''"
| "as_str TruncatedSection = ''E_TRUNCATED''"
| "as_str BadChecksum = ''E_CHECKSUM''"
| "as_str UnassignedOpcode = ''E_BAD_OPCODE''"
| "as_str MisalignedInsn = ''E_MISALIGNED''"
| "as_str DanglingIndex = ''E_DANGLING_INDEX''"
| "as_str DepthMerge = ''E_DEPTH_MERGE''"
| "as_str TypeMerge = ''E_TYPE_MERGE''"
| "as_str TypeMismatch = ''E_TYPE''"
| "as_str StackUnderflow = ''E_UNDERFLOW''"
| "as_str MaxstackExceeded = ''E_MAXSTACK''"
| "as_str PendingEscape = ''E_PENDING_ESCAPE''"
| "as_str PendingMisuse = ''E_PENDING_MISUSE''"
| "as_str ForkImbalance = ''E_FORK_IMBALANCE''"
| "as_str UnmeteredLoop = ''E_UNMETERED_LOOP''"
| "as_str BadTarget = ''E_BAD_TARGET''"
| "as_str ReturnArity = ''E_RETURN_ARITY''"
| "as_str Unreachable = ''E_UNREACHABLE''"
| "as_str SwitchNoDefault = ''E_SWITCH_DEFAULT''"
| "as_str DivideByZero = ''E_DIV0''"
| "as_str IndexRange = ''E_RANGE''"
| "as_str ArityMismatch = ''E_ARITY''"
| "as_str ArenaExhausted = ''E_ARENA''"
| "as_str BudgetExceeded = ''E_BUDGET''"
| "as_str ToolFailed = ''E_TOOL''"
| "as_str Trapped = ''E_TRAP''"
| "as_str TagMismatch = ''E_TAG''"
| "as_str ImageMismatch = ''E_IMAGE_MISMATCH''"
| "as_str SnapshotCorrupt = ''E_SNAP_CORRUPT''"
| "as_str SnapshotVersion = ''E_SNAP_VERSION''"
| "as_str BadHandle = ''E_BAD_HANDLE''"
| "as_str LivePending = ''E_LIVE_PENDING''"
| "as_str ChainBroken = ''E_CHAIN''"
| "as_str Diverged = ''E_DIVERGE''"
| "as_str JournalExhausted = ''E_JOURNAL_END''"
| "as_str RecordMalformed = ''E_BAD_RECORD''"

primrec phase_of :: "code \<Rightarrow> phase" where
  "phase_of UnterminatedString = Lex"
| "phase_of BadEscape = Lex"
| "phase_of BadNumber = Lex"
| "phase_of StrayChar = Lex"
| "phase_of UnknownMnemonic = Assemble"
| "phase_of UnknownDirective = Assemble"
| "phase_of BadOperand = Assemble"
| "phase_of MissingOperand = Assemble"
| "phase_of UnexpectedOperand = Assemble"
| "phase_of UndefinedLabel = Assemble"
| "phase_of DuplicateLabel = Assemble"
| "phase_of DuplicateSymbol = Assemble"
| "phase_of UnknownSymbol = Assemble"
| "phase_of NoEntryPoint = Assemble"
| "phase_of MissingMaxstack = Assemble"
| "phase_of OperandOverflow = Assemble"
| "phase_of BranchTooFar = Assemble"
| "phase_of BadMagic = Load"
| "phase_of BadIsaVersion = Load"
| "phase_of TruncatedSection = Load"
| "phase_of BadChecksum = Load"
| "phase_of UnassignedOpcode = Load"
| "phase_of MisalignedInsn = Load"
| "phase_of DanglingIndex = Load"
| "phase_of DepthMerge = Verify"
| "phase_of TypeMerge = Verify"
| "phase_of TypeMismatch = Verify"
| "phase_of StackUnderflow = Verify"
| "phase_of MaxstackExceeded = Verify"
| "phase_of PendingEscape = Verify"
| "phase_of PendingMisuse = Verify"
| "phase_of ForkImbalance = Verify"
| "phase_of UnmeteredLoop = Verify"
| "phase_of BadTarget = Verify"
| "phase_of ReturnArity = Verify"
| "phase_of Unreachable = Verify"
| "phase_of SwitchNoDefault = Verify"
| "phase_of DivideByZero = Run"
| "phase_of IndexRange = Run"
| "phase_of ArityMismatch = Run"
| "phase_of ArenaExhausted = Run"
| "phase_of BudgetExceeded = Run"
| "phase_of ToolFailed = Run"
| "phase_of Trapped = Run"
| "phase_of TagMismatch = Run"
| "phase_of ImageMismatch = Restore"
| "phase_of SnapshotCorrupt = Restore"
| "phase_of SnapshotVersion = Restore"
| "phase_of BadHandle = Restore"
| "phase_of LivePending = Restore"
| "phase_of ChainBroken = Journal"
| "phase_of Diverged = Journal"
| "phase_of JournalExhausted = Journal"
| "phase_of RecordMalformed = Journal"

primrec blurb :: "code \<Rightarrow> string" where
  "blurb UnterminatedString =
     ''String literal reaches end of line without a closing quote.''"
| "blurb BadEscape =
     ''Unrecognized escape sequence in a string literal.''"
| "blurb BadNumber =
     ''Integer literal is malformed or does not fit in i64.''"
| "blurb StrayChar =
     ''Character cannot begin any token.''"
| "blurb UnknownMnemonic =
     ''No instruction by that name in this ISA version.''"
| "blurb UnknownDirective =
     ''Directive is not recognized.''"
| "blurb BadOperand =
     ''Operand form does not match what the instruction takes.''"
| "blurb MissingOperand =
     ''Instruction requires an operand and none was given.''"
| "blurb UnexpectedOperand =
     ''Instruction takes no operand.''"
| "blurb UndefinedLabel =
     ''Branch target was never defined in this function.''"
| "blurb DuplicateLabel =
     ''Label defined twice in the same function.''"
| "blurb DuplicateSymbol =
     ''Function, tool, or constant name declared twice.''"
| "blurb UnknownSymbol =
     ''Reference to a function, tool, or constant that was never declared.''"
| "blurb NoEntryPoint =
     ''Image declares no `main`.''"
| "blurb MissingMaxstack =
     ''Function omits the required `.maxstack` declaration.''"
| "blurb OperandOverflow =
     ''Operand does not fit even with the wide prefix.''"
| "blurb BranchTooFar =
     ''Branch target is outside the encodable range.''"
| "blurb BadMagic =
     ''Not a .cdxb container.''"
| "blurb BadIsaVersion =
     ''Image targets an ISA version this build does not implement.''"
| "blurb TruncatedSection =
     ''A section extends past the end of the file.''"
| "blurb BadChecksum =
     ''Image digest does not match its contents.''"
| "blurb UnassignedOpcode =
     ''Code section contains a byte that is not an assigned opcode.''"
| "blurb MisalignedInsn =
     ''Instruction stream does not decode cleanly to the end of a function.''"
| "blurb DanglingIndex =
     ''Operand references a table entry that does not exist.''"
| "blurb DepthMerge =
     ''Two paths reach the same instruction with different stack depths.''"
| "blurb TypeMerge =
     ''Two paths reach the same instruction with incompatible operand types.''"
| "blurb TypeMismatch =
     ''Instruction requires an operand type the stack cannot supply.''"
| "blurb StackUnderflow =
     ''Instruction pops more operands than the stack holds.''"
| "blurb MaxstackExceeded =
     ''Computed high-water mark exceeds the declared `.maxstack`.''"
| "blurb PendingEscape =
     ''A pending effect is live at a return or snapshot boundary.''"
| "blurb PendingMisuse =
     ''A pending value is used by an instruction that does not consume effects.''"
| "blurb ForkImbalance =
     ''fork/commit/abort nesting differs between paths, or is unbalanced at return.''"
| "blurb UnmeteredLoop =
     ''A cycle in the control-flow graph contains no metering instruction.''"
| "blurb BadTarget =
     ''Branch target is out of range or not an instruction boundary.''"
| "blurb ReturnArity =
     ''Return leaves a stack depth the function's signature does not declare.''"
| "blurb Unreachable =
     ''Instruction is unreachable; images must not carry dead code.''"
| "blurb SwitchNoDefault =
     ''Jump table has no default arm.''"
| "blurb DivideByZero =
     ''Division or remainder by zero.''"
| "blurb IndexRange =
     ''List index outside its bounds.''"
| "blurb ArityMismatch =
     ''unpack count does not match the list's length.''"
| "blurb ArenaExhausted =
     ''Heap arena hit its quota.''"
| "blurb BudgetExceeded =
     ''Reservation refused: the tenant's allowance is spent.''"
| "blurb ToolFailed =
     ''The host reported a terminal failure for a tool call.''"
| "blurb Trapped =
     ''Program executed an explicit trap.''"
| "blurb TagMismatch =
     ''Arena value's tag does not match the operation.''"
| "blurb ImageMismatch =
     ''Snapshot was taken against a different image.''"
| "blurb SnapshotCorrupt =
     ''Snapshot digest does not match its contents.''"
| "blurb SnapshotVersion =
     ''Snapshot format is newer than this build.''"
| "blurb BadHandle =
     ''Snapshot contains a handle outside the arena it ships with.''"
| "blurb LivePending =
     ''Snapshot contains an unresolved effect with no journal record.''"
| "blurb ChainBroken =
     ''Journal hash chain does not link; the log was edited or truncated.''"
| "blurb Diverged =
     ''Replay asked for something the journal does not record next.''"
| "blurb JournalExhausted =
     ''Replay ran past the end of the journal.''"
| "blurb RecordMalformed =
     ''Journal record does not decode.''"

text \<open>\<open>Code::all\<close>: every code, in the order of the table.\<close>

definition all_codes :: "code list" where
  "all_codes =
    [UnterminatedString, BadEscape, BadNumber, StrayChar, UnknownMnemonic,
     UnknownDirective, BadOperand, MissingOperand, UnexpectedOperand, UndefinedLabel,
     DuplicateLabel, DuplicateSymbol, UnknownSymbol, NoEntryPoint, MissingMaxstack,
     OperandOverflow, BranchTooFar, BadMagic, BadIsaVersion, TruncatedSection, BadChecksum,
     UnassignedOpcode, MisalignedInsn, DanglingIndex, DepthMerge, TypeMerge, TypeMismatch,
     StackUnderflow, MaxstackExceeded, PendingEscape, PendingMisuse, ForkImbalance,
     UnmeteredLoop, BadTarget, ReturnArity, Unreachable, SwitchNoDefault, DivideByZero,
     IndexRange, ArityMismatch, ArenaExhausted, BudgetExceeded, ToolFailed, Trapped,
     TagMismatch, ImageMismatch, SnapshotCorrupt, SnapshotVersion, BadHandle, LivePending,
     ChainBroken, Diverged, JournalExhausted, RecordMalformed]"

text \<open>\<open>Code::parse\<close>: a \<open>match\<close> with one arm per row, tried in order.\<close>

definition parse_code :: "string \<Rightarrow> code option" where
  "parse_code s = map_of (map (\<lambda>c. (as_str c, c)) all_codes) s"

lemma all_codes_complete: "c \<in> set all_codes"
  by (cases c) (simp_all add: all_codes_def)

lemma distinct_as_str: "distinct (map as_str all_codes)"
  by code_simp

lemma parse_as_str: "parse_code (as_str c) = Some c"
proof -
  have "distinct (map fst (map (\<lambda>c. (as_str c, c)) all_codes))"
    using distinct_as_str by (simp add: comp_def)
  then show ?thesis
    unfolding parse_code_def using all_codes_complete[of c]
    by (intro map_of_is_SomeI) auto
qed

lemma as_str_inj: "as_str c = as_str d \<longleftrightarrow> c = d"
  by (metis parse_as_str option.inject)

lemma parse_code_SomeD: "parse_code s = Some c \<Longrightarrow> as_str c = s"
  unfolding parse_code_def by (auto dest: map_of_SomeD)

section \<open>Diagnostics\<close>

record diag =
  dcode :: code
  dspan :: span
  dpc :: "u32 option"

type_synonym 'a result = "(diag, 'a) res"

definition diag_new :: "code \<Rightarrow> diag" where
  "diag_new c = \<lparr>dcode = c, dspan = synthetic, dpc = None\<rparr>"

definition diag_at :: "diag \<Rightarrow> span \<Rightarrow> diag" where
  "diag_at d s = d\<lparr>dspan := s\<rparr>"

definition at_pc :: "diag \<Rightarrow> u32 \<Rightarrow> diag" where
  "at_pc d pc = d\<lparr>dpc := Some pc\<rparr>"

definition fail :: "code \<Rightarrow> 'a result" where
  "fail c = Err (diag_new c)"

lemma dcode_simps [simp]:
  "dcode (diag_new c) = c" "dcode (diag_at d s) = dcode d" "dcode (at_pc d p) = dcode d"
  by (simp_all add: diag_new_def diag_at_def at_pc_def)

lemma diag_new_inject [simp]: "diag_new c = diag_new d \<longleftrightarrow> c = d"
  by (simp add: diag_new_def)

lemma fail_simps [simp]:
  "fail c \<noteq> Ok x" "Ok x \<noteq> fail c" "fail c \<noteq> Panic" "Panic \<noteq> fail c" "rbind (fail c) f = fail c"
  "fail c = Err e \<longleftrightarrow> e = diag_new c" "\<not> is_Ok (fail c)"
  by (auto simp: fail_def)

lemma fail_inject [simp]: "(fail c :: 'a result) = fail d \<longleftrightarrow> c = d"
  by (simp add: fail_def)

declare fail_def [run_defs]

section \<open>Properties of spans\<close>

lemma merge_synthetic [simp]:
  "is_synthetic a \<Longrightarrow> merge a b = b" "\<not> is_synthetic a \<Longrightarrow> is_synthetic b \<Longrightarrow> merge a b = a"
  by (simp_all add: merge_def)

lemma is_synthetic_merge: "is_synthetic (merge a b) \<longleftrightarrow> is_synthetic a \<and> is_synthetic b"
  by (simp add: merge_def is_synthetic_def Let_def)

end
