(* ===== verification/CV_Isa.thy ===== *)
theory CV_Isa
  imports CV_Diag
begin

text \<open>
  The instruction set, \<open>src/src/isa.rs\<close>: the type lattice of the verifier, the instruction
  table of the \<open>ops!\<close> macro, opcode lookup, and the four- and eight-byte instruction
  encoding. \<open>table_row\<close> is the table, one equation per row (without the \<open>doc\<close> text);
  \<open>TABLE\<close>, \<open>LOOKUP\<close> and \<open>insn\<close> rebuild what the code derives from it.
\<close>

section \<open>The static type lattice\<close>

datatype ty = TyBottom | TyInt | TyStr | TyBytes | TyList | TyHandle | TyPending | TyTop

fun join :: "ty \<Rightarrow> ty \<Rightarrow> ty" where
  "join TyBottom t = t"
| "join t TyBottom = t"
| "join a b = (if a = b then a else TyTop)"

fun satisfies :: "ty \<Rightarrow> ty \<Rightarrow> bool" where
  "satisfies _ TyTop = True"
| "satisfies TyBottom _ = True"
| "satisfies TyHandle TyStr = True"
| "satisfies TyHandle TyBytes = True"
| "satisfies TyHandle TyList = True"
| "satisfies a b = (a = b)"

section \<open>The instruction table\<close>

datatype operand =
    OprNone | OprConst | OprImm | OprTarget | OprFunc | OprTool | OprJumpTable | OprSlot
  | OprDimension

datatype effect = EfPure | EfAlloc | EfSuspend | EfOracle | EfControl | EfDurable

datatype (plugins only: code size) op =
    OpNop | OpLdc | OpLdi | OpDup | OpDupN | OpDrop | OpSwap | OpRot | OpLdl | OpStl |
    OpArgv | OpPack | OpUnpack | OpIdx | OpLen | OpCat | OpFmt | OpSlice | OpFind | OpAdd |
    OpSub | OpMul | OpDiv | OpMod | OpEq | OpLt | OpNot | OpAnd | OpOr | OpShl | OpShr |
    OpBr | OpBrz | OpBrnz | OpCall | OpRet | OpTail | OpSwitch | OpTrap | OpHalt |
    OpCallTool | OpAwait | OpPoll | OpCancel | OpSelect | OpSpawn | OpJoin | OpFork |
    OpCommit | OpAbort | OpCheckpoint | OpYieldCtx | OpResume | OpReserve | OpRelease |
    OpSpend | OpQueryQ | OpCtxPush | OpCtxPop | OpCtxWin | OpCtxCost | OpNow | OpRand |
    OpEnv | OpLog

record insn_row =
  i_op :: op
  mnemonic :: string
  operand :: operand
  pops :: "ty list"
  pushes :: "ty list"
  effect :: effect
  variadic :: bool
  falls_through :: bool

text \<open>\<open>op as u8\<close>: the discriminants of the enum.\<close>

primrec op_byte :: "op \<Rightarrow> u8" where
  "op_byte OpNop = 0x00"
| "op_byte OpLdc = 0x01"
| "op_byte OpLdi = 0x02"
| "op_byte OpDup = 0x03"
| "op_byte OpDupN = 0x04"
| "op_byte OpDrop = 0x05"
| "op_byte OpSwap = 0x06"
| "op_byte OpRot = 0x07"
| "op_byte OpLdl = 0x08"
| "op_byte OpStl = 0x09"
| "op_byte OpArgv = 0x0A"
| "op_byte OpPack = 0x10"
| "op_byte OpUnpack = 0x11"
| "op_byte OpIdx = 0x12"
| "op_byte OpLen = 0x13"
| "op_byte OpCat = 0x14"
| "op_byte OpFmt = 0x15"
| "op_byte OpSlice = 0x16"
| "op_byte OpFind = 0x17"
| "op_byte OpAdd = 0x20"
| "op_byte OpSub = 0x21"
| "op_byte OpMul = 0x22"
| "op_byte OpDiv = 0x23"
| "op_byte OpMod = 0x24"
| "op_byte OpEq = 0x25"
| "op_byte OpLt = 0x26"
| "op_byte OpNot = 0x27"
| "op_byte OpAnd = 0x28"
| "op_byte OpOr = 0x29"
| "op_byte OpShl = 0x2A"
| "op_byte OpShr = 0x2B"
| "op_byte OpBr = 0x30"
| "op_byte OpBrz = 0x31"
| "op_byte OpBrnz = 0x32"
| "op_byte OpCall = 0x33"
| "op_byte OpRet = 0x34"
| "op_byte OpTail = 0x35"
| "op_byte OpSwitch = 0x36"
| "op_byte OpTrap = 0x37"
| "op_byte OpHalt = 0x38"
| "op_byte OpCallTool = 0x40"
| "op_byte OpAwait = 0x41"
| "op_byte OpPoll = 0x42"
| "op_byte OpCancel = 0x43"
| "op_byte OpSelect = 0x44"
| "op_byte OpSpawn = 0x50"
| "op_byte OpJoin = 0x51"
| "op_byte OpFork = 0x52"
| "op_byte OpCommit = 0x53"
| "op_byte OpAbort = 0x54"
| "op_byte OpCheckpoint = 0x60"
| "op_byte OpYieldCtx = 0x61"
| "op_byte OpResume = 0x62"
| "op_byte OpReserve = 0x70"
| "op_byte OpRelease = 0x71"
| "op_byte OpSpend = 0x72"
| "op_byte OpQueryQ = 0x73"
| "op_byte OpCtxPush = 0x80"
| "op_byte OpCtxPop = 0x81"
| "op_byte OpCtxWin = 0x82"
| "op_byte OpCtxCost = 0x83"
| "op_byte OpNow = 0x90"
| "op_byte OpRand = 0x91"
| "op_byte OpEnv = 0x92"
| "op_byte OpLog = 0x93"

definition mk_row :: "op \<Rightarrow> string \<Rightarrow> operand \<Rightarrow> ty list \<Rightarrow> ty list \<Rightarrow> effect \<Rightarrow> bool \<Rightarrow> bool \<Rightarrow> insn_row" where
  "mk_row x m opr po pu ef v term =
     \<lparr>i_op = x, mnemonic = m, operand = opr, pops = po, pushes = pu, effect = ef,
      variadic = v, falls_through = (\<not> term)\<rparr>"

text \<open>One row per opcode; the two flags are \<open>variadic\<close> and \<open>terminal\<close>.\<close>

primrec table_row :: "op \<Rightarrow> insn_row" where
  "table_row OpNop = mk_row OpNop ''nop'' OprNone [] [] EfPure False False"
| "table_row OpLdc = mk_row OpLdc ''ldc'' OprConst [] [TyHandle] EfPure False False"
| "table_row OpLdi = mk_row OpLdi ''ldi'' OprImm [] [TyInt] EfPure False False"
| "table_row OpDup = mk_row OpDup ''dup'' OprNone [TyTop] [TyTop, TyTop] EfPure False False"
| "table_row OpDupN = mk_row OpDupN ''dupn'' OprSlot [] [TyTop] EfPure True False"
| "table_row OpDrop = mk_row OpDrop ''drop'' OprNone [TyTop] [] EfPure False False"
| "table_row OpSwap = mk_row OpSwap ''swap'' OprNone [TyTop, TyTop] [TyTop, TyTop] EfPure False False"
| "table_row OpRot = mk_row OpRot ''rot'' OprNone [TyTop, TyTop, TyTop] [TyTop, TyTop, TyTop] EfPure False False"
| "table_row OpLdl = mk_row OpLdl ''ldl'' OprSlot [] [TyTop] EfPure True False"
| "table_row OpStl = mk_row OpStl ''stl'' OprSlot [TyTop] [] EfPure True False"
| "table_row OpArgv = mk_row OpArgv ''argv'' OprSlot [] [TyStr] EfPure False False"
| "table_row OpPack = mk_row OpPack ''pack'' OprImm [] [TyList] EfAlloc True False"
| "table_row OpUnpack = mk_row OpUnpack ''unpack'' OprImm [TyList] [] EfAlloc True False"
| "table_row OpIdx = mk_row OpIdx ''idx'' OprNone [TyInt, TyList] [TyTop] EfPure False False"
| "table_row OpLen = mk_row OpLen ''len'' OprNone [TyHandle] [TyInt] EfPure False False"
| "table_row OpCat = mk_row OpCat ''cat'' OprNone [TyHandle, TyHandle] [TyHandle] EfAlloc False False"
| "table_row OpFmt = mk_row OpFmt ''fmt'' OprConst [TyList] [TyStr] EfAlloc False False"
| "table_row OpSlice = mk_row OpSlice ''slice'' OprNone [TyInt, TyInt, TyHandle] [TyHandle] EfAlloc False False"
| "table_row OpFind = mk_row OpFind ''find'' OprNone [TyHandle, TyHandle] [TyInt] EfPure False False"
| "table_row OpAdd = mk_row OpAdd ''add'' OprNone [TyInt, TyInt] [TyInt] EfPure False False"
| "table_row OpSub = mk_row OpSub ''sub'' OprNone [TyInt, TyInt] [TyInt] EfPure False False"
| "table_row OpMul = mk_row OpMul ''mul'' OprNone [TyInt, TyInt] [TyInt] EfPure False False"
| "table_row OpDiv = mk_row OpDiv ''div'' OprNone [TyInt, TyInt] [TyInt] EfPure False False"
| "table_row OpMod = mk_row OpMod ''mod'' OprNone [TyInt, TyInt] [TyInt] EfPure False False"
| "table_row OpEq = mk_row OpEq ''eq'' OprNone [TyTop, TyTop] [TyInt] EfPure False False"
| "table_row OpLt = mk_row OpLt ''lt'' OprNone [TyInt, TyInt] [TyInt] EfPure False False"
| "table_row OpNot = mk_row OpNot ''not'' OprNone [TyInt] [TyInt] EfPure False False"
| "table_row OpAnd = mk_row OpAnd ''and'' OprNone [TyInt, TyInt] [TyInt] EfPure False False"
| "table_row OpOr = mk_row OpOr ''or'' OprNone [TyInt, TyInt] [TyInt] EfPure False False"
| "table_row OpShl = mk_row OpShl ''shl'' OprNone [TyInt, TyInt] [TyInt] EfPure False False"
| "table_row OpShr = mk_row OpShr ''shr'' OprNone [TyInt, TyInt] [TyInt] EfPure False False"
| "table_row OpBr = mk_row OpBr ''br'' OprTarget [] [] EfControl False True"
| "table_row OpBrz = mk_row OpBrz ''brz'' OprTarget [TyInt] [] EfControl False False"
| "table_row OpBrnz = mk_row OpBrnz ''brnz'' OprTarget [TyInt] [] EfControl False False"
| "table_row OpCall = mk_row OpCall ''call'' OprFunc [] [] EfControl True False"
| "table_row OpRet = mk_row OpRet ''ret'' OprNone [] [] EfControl True True"
| "table_row OpTail = mk_row OpTail ''tail'' OprFunc [] [] EfControl True True"
| "table_row OpSwitch = mk_row OpSwitch ''switch'' OprJumpTable [TyInt] [] EfControl False True"
| "table_row OpTrap = mk_row OpTrap ''trap'' OprConst [] [] EfControl False True"
| "table_row OpHalt = mk_row OpHalt ''halt'' OprNone [TyInt] [] EfControl False True"
| "table_row OpCallTool = mk_row OpCallTool ''calltool'' OprTool [TyList] [TyPending] EfSuspend False False"
| "table_row OpAwait = mk_row OpAwait ''await'' OprNone [TyPending] [TyTop] EfSuspend False False"
| "table_row OpPoll = mk_row OpPoll ''poll'' OprNone [TyPending] [TyPending, TyInt] EfSuspend False False"
| "table_row OpCancel = mk_row OpCancel ''cancel'' OprNone [TyPending] [] EfSuspend False False"
| "table_row OpSelect = mk_row OpSelect ''select'' OprImm [] [TyInt, TyTop] EfSuspend True False"
| "table_row OpSpawn = mk_row OpSpawn ''spawn'' OprFunc [TyList] [TyPending] EfSuspend False False"
| "table_row OpJoin = mk_row OpJoin ''join'' OprNone [TyPending] [TyTop] EfSuspend False False"
| "table_row OpFork = mk_row OpFork ''fork'' OprNone [] [TyInt] EfDurable False False"
| "table_row OpCommit = mk_row OpCommit ''commit'' OprNone [] [] EfDurable False False"
| "table_row OpAbort = mk_row OpAbort ''abort'' OprNone [] [] EfDurable False True"
| "table_row OpCheckpoint = mk_row OpCheckpoint ''checkpoint'' OprConst [] [] EfDurable False False"
| "table_row OpYieldCtx = mk_row OpYieldCtx ''yieldctx'' OprNone [] [] EfDurable False False"
| "table_row OpResume = mk_row OpResume ''resume'' OprConst [] [] EfDurable False False"
| "table_row OpReserve = mk_row OpReserve ''reserve'' OprDimension [TyInt] [] EfOracle False False"
| "table_row OpRelease = mk_row OpRelease ''release'' OprDimension [TyInt] [] EfPure False False"
| "table_row OpSpend = mk_row OpSpend ''spend'' OprDimension [TyInt] [] EfOracle False False"
| "table_row OpQueryQ = mk_row OpQueryQ ''queryq'' OprDimension [] [TyInt] EfOracle False False"
| "table_row OpCtxPush = mk_row OpCtxPush ''ctxpush'' OprImm [TyStr] [] EfAlloc False False"
| "table_row OpCtxPop = mk_row OpCtxPop ''ctxpop'' OprImm [] [] EfPure False False"
| "table_row OpCtxWin = mk_row OpCtxWin ''ctxwin'' OprNone [] [TyList] EfAlloc False False"
| "table_row OpCtxCost = mk_row OpCtxCost ''ctxcost'' OprNone [] [TyInt] EfPure False False"
| "table_row OpNow = mk_row OpNow ''now'' OprNone [] [TyInt] EfOracle False False"
| "table_row OpRand = mk_row OpRand ''rand'' OprNone [] [TyInt] EfOracle False False"
| "table_row OpEnv = mk_row OpEnv ''env'' OprConst [] [TyStr] EfOracle False False"
| "table_row OpLog = mk_row OpLog ''log'' OprConst [TyTop] [] EfOracle False False"

definition all_ops :: "op list" where
  "all_ops =
    [OpNop, OpLdc, OpLdi, OpDup, OpDupN, OpDrop, OpSwap, OpRot, OpLdl, OpStl, OpArgv,
     OpPack, OpUnpack, OpIdx, OpLen, OpCat, OpFmt, OpSlice, OpFind, OpAdd, OpSub, OpMul,
     OpDiv, OpMod, OpEq, OpLt, OpNot, OpAnd, OpOr, OpShl, OpShr, OpBr, OpBrz, OpBrnz,
     OpCall, OpRet, OpTail, OpSwitch, OpTrap, OpHalt, OpCallTool, OpAwait, OpPoll,
     OpCancel, OpSelect, OpSpawn, OpJoin, OpFork, OpCommit, OpAbort, OpCheckpoint,
     OpYieldCtx, OpResume, OpReserve, OpRelease, OpSpend, OpQueryQ, OpCtxPush, OpCtxPop,
     OpCtxWin, OpCtxCost, OpNow, OpRand, OpEnv, OpLog]"

definition TABLE :: "insn_row list" where
  "TABLE = map table_row all_ops"

definition LAST :: u8 where
  "LAST = op_byte OpLog"

text \<open>\<open>Op::from_byte\<close>: one \<open>match\<close> arm per row.\<close>

definition op_from_byte :: "u8 \<Rightarrow> op option" where
  "op_from_byte b = map_of (map (\<lambda>x. (op_byte x, x)) all_ops) b"

text \<open>\<open>build_lookup\<close>: for each row of \<open>TABLE\<close>, its index at its opcode byte.\<close>

definition LOOKUP :: "nat list" where
  "LOOKUP = fold (\<lambda>i out. out[unat (op_byte (i_op (TABLE ! i))) := i]) [0..<length TABLE]
     (replicate 256 255)"

definition insn :: "op \<Rightarrow> insn_row" where
  "insn x = TABLE ! (LOOKUP ! unat (op_byte x))"

definition is_terminal :: "op \<Rightarrow> bool" where
  "is_terminal x \<longleftrightarrow> \<not> falls_through (insn x)"

definition can_suspend :: "op \<Rightarrow> bool" where
  "can_suspend x \<longleftrightarrow> effect (insn x) \<in> {EfSuspend, EfDurable}"

section \<open>The table and its lookup\<close>

lemma mk_row_sel [simp]:
  "i_op (mk_row x m opr po pu ef v term) = x" "mnemonic (mk_row x m opr po pu ef v term) = m"
  "operand (mk_row x m opr po pu ef v term) = opr" "pops (mk_row x m opr po pu ef v term) = po"
  "pushes (mk_row x m opr po pu ef v term) = pu" "effect (mk_row x m opr po pu ef v term) = ef"
  "variadic (mk_row x m opr po pu ef v term) = v"
  "falls_through (mk_row x m opr po pu ef v term) = (\<not> term)"
  by (simp_all add: mk_row_def)

lemma all_ops_complete: "x \<in> set all_ops"
  by (cases x) (simp_all add: all_ops_def)

lemma distinct_op_bytes: "distinct (map op_byte all_ops)"
  by code_simp

lemma inj_op_byte: "inj op_byte"
  using distinct_op_bytes all_ops_complete by (auto simp: distinct_map inj_on_def)

lemma op_from_byte_op_byte: "op_from_byte (op_byte x) = Some x"
proof -
  have "distinct (map fst (map (\<lambda>x. (op_byte x, x)) all_ops))"
    using distinct_op_bytes by (simp add: comp_def)
  then show ?thesis
    unfolding op_from_byte_def using all_ops_complete[of x]
    by (intro map_of_is_SomeI) auto
qed

lemma op_from_byte_SomeD: "op_from_byte b = Some x \<Longrightarrow> op_byte x = b"
  unfolding op_from_byte_def by (auto dest: map_of_SomeD)

lemma i_op_table_row [simp]: "i_op (table_row x) = x"
  by (cases x) simp_all

lemma length_all_ops: "length all_ops = 65"
  by (simp add: all_ops_def)

lemma fold_index_update:
  assumes "distinct js" and "inj_on f (set js)" and "i \<in> set js"
    and "\<And>j. j \<in> set js \<Longrightarrow> f j < length out"
  shows "fold (\<lambda>j out. out[f j := j]) js out ! f i = i"
  using assms
proof (induction js rule: rev_induct)
  case (snoc j js)
  have len: "length (fold (\<lambda>j out. out[f j := j]) js out) = length out"
    by (induction js arbitrary: out) auto
  show ?case
  proof (cases "i = j")
    case True
    with snoc.prems len show ?thesis by simp
  next
    case False
    with snoc.prems have "f i \<noteq> f j" by (auto simp: inj_on_def)
    moreover have "fold (\<lambda>j out. out[f j := j]) js out ! f i = i"
      using snoc.prems False by (intro snoc.IH) (auto simp: inj_on_def)
    ultimately show ?thesis by simp
  qed
qed simp

lemma LOOKUP_nth: "i < length TABLE \<Longrightarrow> LOOKUP ! unat (op_byte (i_op (TABLE ! i))) = i"
  unfolding LOOKUP_def
proof (rule fold_index_update [where f = "\<lambda>j. unat (op_byte (i_op (TABLE ! j)))"])
  have "x = y" if "x < length all_ops" "y < length all_ops"
      "unat (op_byte (all_ops ! x)) = unat (op_byte (all_ops ! y))" for x y
    using nth_eq_iff_index_eq [OF distinct_op_bytes, of x y] that by (simp add: word_unat_eq_iff)
  then show "inj_on (\<lambda>j. unat (op_byte (i_op (TABLE ! j)))) (set [0..<length TABLE])"
    by (auto simp: inj_on_def TABLE_def)
  show "unat (op_byte (i_op (TABLE ! j))) < length (replicate 256 (255::nat))" for j
    using unat_bound[of "op_byte (i_op (TABLE ! j))"] by simp
qed auto

text \<open>Every opcode finds its own row, so the table can be read as \<open>table_row\<close>.\<close>

lemma insn_eq [code]: "insn x = table_row x"
proof -
  obtain i where i: "i < length all_ops" "all_ops ! i = x"
    using all_ops_complete[of x] by (auto simp: in_set_conv_nth)
  then have "TABLE ! i = table_row x" and "i < length TABLE" by (simp_all add: TABLE_def)
  with LOOKUP_nth[of i] show ?thesis by (simp add: insn_def)
qed

lemma distinct_mnemonics: "distinct (map mnemonic TABLE)"
  unfolding TABLE_def by code_simp

lemma mnemonic_inj: "mnemonic (insn x) = mnemonic (insn y) \<longleftrightarrow> x = y"
  using distinct_mnemonics all_ops_complete
  by (auto simp: insn_eq TABLE_def distinct_map inj_on_def)

lemma op_byte_ne_wide: "op_byte x \<noteq> 0xFF"
  by (cases x) simp_all

section \<open>The lattice\<close>

lemma join_idem: "join a a = a"
  by (cases a) simp_all

lemma join_commute: "join a b = join b a"
  by (cases a; cases b) simp_all

lemma join_assoc: "join (join a b) c = join a (join b c)"
  by (cases a; cases b; cases c) simp_all

lemma join_upper: "join a (join a b) = join a b"
  by (cases a; cases b) simp_all

lemma satisfies_refl: "satisfies a a"
  by (cases a) simp_all

lemma satisfies_trans: "satisfies a b \<Longrightarrow> satisfies b c \<Longrightarrow> satisfies a c"
  by (cases a; cases b; cases c) simp_all

lemma satisfies_join: "satisfies a (join a b)"
  by (cases a; cases b) simp_all

section \<open>Decoding and encoding instructions\<close>

definition INSN_LEN :: nat where
  "INSN_LEN = 4"

definition WIDE_PREFIX :: u8 where
  "WIDE_PREFIX = 0xFF"

definition ISA_VERSION :: u16 where
  "ISA_VERSION = 4"

record decoded =
  d_op :: op
  d_a :: u8
  d_b :: u32
  d_len :: u8

definition decode :: "bytes \<Rightarrow> nat \<Rightarrow> decoded option" where
  "decode code off = Option.bind (slice_get code off (off + INSN_LEN)) (\<lambda>raw.
     if raw ! 0 = WIDE_PREFIX then
       let ext = push_bit 16 (ucast (u16_of_le [raw ! 2, raw ! 3]) :: u32)
       in Option.bind (slice_get code (off + INSN_LEN) (off + 2 * INSN_LEN)) (\<lambda>inner.
            if inner ! 0 = WIDE_PREFIX then None
            else Option.bind (op_from_byte (inner ! 0)) (\<lambda>op.
              let lo = (ucast (u16_of_le [inner ! 2, inner ! 3]) :: u32)
              in Some \<lparr>d_op = op, d_a = inner ! 1, d_b = or ext lo, d_len = 8\<rparr>))
     else Option.bind (op_from_byte (raw ! 0)) (\<lambda>op.
       Some \<lparr>d_op = op, d_a = raw ! 1, d_b = ucast (u16_of_le [raw ! 2, raw ! 3]), d_len = 4\<rparr>))"

text \<open>\<open>encode\<close> appends to \<open>out\<close> and returns the number of bytes written.\<close>

definition encode :: "bytes \<Rightarrow> op \<Rightarrow> u8 \<Rightarrow> u32 \<Rightarrow> bytes \<times> nat" where
  "encode out op a b =
     (if ucast (0xFFFF :: u16) < b then
        let hi = (ucast (drop_bit 16 b) :: u16)
        in (out @ [WIDE_PREFIX, 0] @ u16_le hi @ [op_byte op, a] @ u16_le (ucast b), 8)
      else (out @ [op_byte op, a] @ u16_le (ucast b), 4))"

definition imm :: "decoded \<Rightarrow> i64" where
  "imm d = (if d_len d = 8 then scast (d_b d) else scast (ucast (d_b d) :: u16))"

lemma slice_get_at:
  "length ys = n \<Longrightarrow> slice_get (xs @ ys @ zs) (length xs) (length xs + n) = Some ys"
  using slice_get_mid by blast

lemma u16_of_le_two:
  "length bs = 2 \<Longrightarrow> u16_of_le [bs ! 0, bs ! Suc 0] = u16_of_le bs"
  by (cases bs; cases "tl bs") (auto simp: u16_of_le_def)

lemma u16_le_pair: "\<exists>x y. u16_le w = [x, y] \<and> u16_of_le [x, y] = w"
proof -
  obtain x y where xy: "u16_le w = [x, y]"
    by (auto simp: u16_le_def numeral_2_eq_2)
  then have "u16_of_le [x, y] = w" using u_of_le_u_le(1)[of w] by simp
  with xy show ?thesis by blast
qed

lemma wide_join:
  "or (push_bit 16 (ucast (ucast (drop_bit 16 b) :: u16))) (ucast (ucast b :: u16)) = (b :: u32)"
  by (rule bit_word_eqI) (auto simp: bit_simps)

lemma narrow_ucast: "\<not> 0xFFFF < b \<Longrightarrow> ucast (ucast b :: u16) = (b :: u32)"
proof -
  assume "\<not> 0xFFFF < b"
  then have "unat b < 2 ^ 16" by (simp add: word_less_nat_alt)
  then show ?thesis by (intro word_unat_eq_iff[THEN iffD2]) (simp add: unsigned_ucast_eq unsigned_take_bit_eq take_bit_nat_eq_self)
qed

definition encoded_len :: "u32 \<Rightarrow> u8" where
  "encoded_len b = (if 0xFFFF < b then 8 else 4)"

theorem decode_encode:
  "decode (fst (encode pre op a b) @ post) (length pre) =
     Some \<lparr>d_op = op, d_a = a, d_b = b, d_len = encoded_len b\<rparr>"
proof (cases "0xFFFF < b")
  case True
  obtain x y where hi: "u16_le (ucast (drop_bit 16 b)) = [x, y]"
      "u16_of_le [x, y] = ucast (drop_bit 16 b)" using u16_le_pair by blast
  obtain u v where lo: "u16_le (ucast b) = [u, v]" "u16_of_le [u, v] = ucast b"
    using u16_le_pair by blast
  have "slice_get (pre @ 0xFF # 0 # x # y # op_byte op # a # u # v # post) (length pre)
      (length pre + 4) = Some [0xFF, 0, x, y]"
    and "slice_get (pre @ 0xFF # 0 # x # y # op_byte op # a # u # v # post) (length pre + 4)
      (length pre + 8) = Some [op_byte op, a, u, v]"
    by (simp_all add: slice_get_def)
  then show ?thesis
    using True hi lo op_byte_ne_wide[of op] wide_join[of b]
    by (simp add: decode_def encode_def encoded_len_def INSN_LEN_def WIDE_PREFIX_def
        op_from_byte_op_byte Let_def)
next
  case False
  obtain u v where lo: "u16_le (ucast b) = [u, v]" "u16_of_le [u, v] = ucast b"
    using u16_le_pair by blast
  have "slice_get (pre @ [op_byte op, a, u, v] @ post) (length pre) (length pre + 4)
      = Some [op_byte op, a, u, v]" by (rule slice_get_at) simp
  with False lo op_byte_ne_wide[of op] narrow_ucast[OF False] show ?thesis
    by (simp add: decode_def encode_def encoded_len_def INSN_LEN_def WIDE_PREFIX_def
        op_from_byte_op_byte Let_def)
qed


text \<open>
  What a reader of the stream recovers of an immediate: the narrow form carries sixteen bits,
  sign-extended, the wide form thirty-two.
\<close>

lemma imm_encoded:
  "imm \<lparr>d_op = x, d_a = a, d_b = b, d_len = encoded_len b\<rparr> =
     (if 0xFFFF < b then scast b else scast (ucast b :: u16))"
  by (simp add: imm_def encoded_len_def)

lemma imm_narrow:
  assumes "- (2 ^ 15) \<le> sint n" and "sint n < 2 ^ 15"
  shows "imm \<lparr>d_op = x, d_a = a, d_b = ucast (ucast (n :: i64) :: u16),
              d_len = encoded_len (ucast (ucast n :: u16))\<rparr> = n"
proof -
  have "\<not> 0xFFFF < (ucast (ucast n :: u16) :: u32)"
    using unat_bound[of "ucast n :: u16"]
    by (simp add: word_less_nat_alt unsigned_ucast_eq unsigned_take_bit_eq take_bit_nat_eq_self)
  moreover have "(ucast (ucast (ucast n :: u16) :: u32) :: u16) = ucast n"
    by (rule bit_word_eqI) (auto simp: bit_simps)
  moreover have "(scast (ucast n :: u16) :: i64) = n"
  proof -
    have "(ucast n :: u16) = word_of_int (sint n)"
      by (rule bit_word_eqI) (auto simp: bit_simps)
    moreover have "sint (word_of_int (sint n) :: u16) = sint n"
      by (subst sint_sbintrunc') (use assms in \<open>simp add: signed_take_bit_int_eq_self\<close>)
    ultimately have "sint (ucast n :: u16) = sint n" by metis
    then show ?thesis by (metis scast_eq scast_id)
  qed
  ultimately show ?thesis by (simp add: imm_encoded)
qed

text \<open>Bit 15 of a narrow immediate is its sign.\<close>

lemma imm_high:
  assumes "2 ^ 15 \<le> unat b" and "unat b < 2 ^ 16"
  shows "sint (imm \<lparr>d_op = x, d_a = a, d_b = b, d_len = encoded_len b\<rparr>) = int (unat b) - 2 ^ 16"
proof -
  have narrow: "\<not> 0xFFFF < b" using assms(2) by (simp add: word_less_nat_alt)
  have "int (unat b) < int (2 ^ 16)" using assms(2) by (simp only: of_nat_less_iff)
  then have u: "uint (ucast b :: u16) = int (unat b)"
    by (simp add: unsigned_ucast_eq take_bit_int_eq_self)
  have wrap: "(x + 32768) mod 65536 = x - 32768" if "32768 \<le> x" "x < 65536" for x :: int
    using mod_add_self2 [of "x - 32768" 65536] mod_pos_pos_trivial [of "x - 32768" 65536] that
    by (simp add: add.commute)
  have "int (2 ^ 15) \<le> int (unat b)" using assms(1) by (simp only: of_nat_le_iff)
  with \<open>int (unat b) < int (2 ^ 16)\<close> wrap [of "uint b"]
  have "sint (ucast b :: u16) = int (unat b) - 2 ^ 16"
    using u by (simp add: sint_uint signed_take_bit_eq_take_bit_shift take_bit_eq_mod)
  then have "sint (scast (ucast b :: u16) :: i64) = int (unat b) - 2 ^ 16"
    using \<open>int (2 ^ 15) \<le> int (unat b)\<close> \<open>int (unat b) < int (2 ^ 16)\<close>
    by (simp add: signed_scast_eq signed_take_bit_int_eq_self)
  with narrow show ?thesis by (simp add: imm_encoded)
qed

end
