(* ===== verification/CV_Value.thy ===== *)
theory CV_Value
  imports CV_Isa
begin

text \<open>
  Operands and arena handles, \<open>src/src/value.rs\<close>: tags, the sixteen-byte tagged value with
  its coercions, and its serialized slot. \<open>value_write\<close> and \<open>value_read\<close> are the wire form
  shared by list payloads, snapshots and journal records.
\<close>

section \<open>Tags\<close>

datatype tag = TagVoid | TagInt | TagStr | TagBytes | TagList | TagPending

primrec tag_byte :: "tag \<Rightarrow> u8" where
  "tag_byte TagVoid = 0"
| "tag_byte TagInt = 1"
| "tag_byte TagStr = 2"
| "tag_byte TagBytes = 3"
| "tag_byte TagList = 4"
| "tag_byte TagPending = 5"

definition tag_from_byte :: "u8 \<Rightarrow> tag option" where
  "tag_from_byte b =
     (if b = 0 then Some TagVoid
      else if b = 1 then Some TagInt
      else if b = 2 then Some TagStr
      else if b = 3 then Some TagBytes
      else if b = 4 then Some TagList
      else if b = 5 then Some TagPending
      else None)"

primrec tag_ty :: "tag \<Rightarrow> ty" where
  "tag_ty TagVoid = TyBottom"
| "tag_ty TagInt = TyInt"
| "tag_ty TagStr = TyStr"
| "tag_ty TagBytes = TyBytes"
| "tag_ty TagList = TyList"
| "tag_ty TagPending = TyPending"

fun is_arena :: "tag \<Rightarrow> bool" where
  "is_arena TagStr = True"
| "is_arena TagBytes = True"
| "is_arena TagList = True"
| "is_arena _ = False"

primrec tag_name :: "tag \<Rightarrow> string" where
  "tag_name TagVoid = ''void''"
| "tag_name TagInt = ''int''"
| "tag_name TagStr = ''str''"
| "tag_name TagBytes = ''bytes''"
| "tag_name TagList = ''list''"
| "tag_name TagPending = ''pending''"

lemma tag_from_byte_tag_byte [simp]: "tag_from_byte (tag_byte t) = Some t"
  by (cases t) (simp_all add: tag_from_byte_def)

lemma tag_from_byte_eq_Some: "tag_from_byte b = Some t \<longleftrightarrow> b = tag_byte t"
  by (cases t) (auto simp: tag_from_byte_def)

lemma tag_ty_inj: "tag_ty s = tag_ty t \<longleftrightarrow> s = t"
  by (cases s; cases t) simp_all

lemma tag_ty_not_Top: "tag_ty t \<noteq> TyTop"
  by (cases t) simp_all

section \<open>Handles\<close>

record handle =
  h_off :: u32
  h_len :: u32

definition handle_new :: "u32 \<Rightarrow> u32 \<Rightarrow> handle" where
  "handle_new off len = \<lparr>h_off = off, h_len = len\<rparr>"

definition EMPTY :: handle where
  "EMPTY = \<lparr>h_off = 0, h_len = 0\<rparr>"

text \<open>\<open>off.saturating_add(len)\<close>.\<close>

definition handle_end :: "handle \<Rightarrow> u32" where
  "handle_end h =
     (if unat (h_off h) + unat (h_len h) \<le> u32_max then h_off h + h_len h else 0xFFFFFFFF)"

definition handle_to_bits :: "handle \<Rightarrow> u64" where
  "handle_to_bits h = or (push_bit 32 (ucast (h_off h))) (ucast (h_len h))"

definition handle_from_bits :: "u64 \<Rightarrow> handle" where
  "handle_from_bits bits = \<lparr>h_off = ucast (drop_bit 32 bits), h_len = ucast bits\<rparr>"

lemma handle_from_to_bits [simp]: "handle_from_bits (handle_to_bits h) = h"
proof -
  have "(ucast (drop_bit 32 (or (push_bit 32 (ucast a)) (ucast b)) :: u64) :: u32) = a" for a b :: u32
    by (rule bit_word_eqI) (auto simp: bit_simps dest: bit_imp_le_length)
  moreover have "(ucast (or (push_bit 32 (ucast a)) (ucast b) :: u64) :: u32) = b" for a b :: u32
    by (rule bit_word_eqI) (auto simp: bit_simps)
  ultimately show ?thesis by (simp add: handle_to_bits_def handle_from_bits_def)
qed

lemma handle_to_from_bits: "handle_to_bits (handle_from_bits w) = w"
  unfolding handle_to_bits_def handle_from_bits_def
  by (rule bit_word_eqI) (auto simp: bit_simps)

lemma unat_handle_end:
  "unat (handle_end h) = min (unat (h_off h) + unat (h_len h)) u32_max"
proof (cases "unat (h_off h) + unat (h_len h) \<le> u32_max")
  case True
  then have "unat (h_off h + h_len h) = unat (h_off h) + unat (h_len h)"
    by (subst unat_add_lem [THEN iffD1]) (auto simp: u32_max_def)
  with True show ?thesis by (simp add: handle_end_def)
next
  case False
  then show ?thesis by (simp add: handle_end_def u32_max_def)
qed

section \<open>Effect identifiers\<close>

datatype effect_id = EffectId (eid: u64)

instantiation effect_id :: linorder
begin

definition less_eq_effect_id :: "effect_id \<Rightarrow> effect_id \<Rightarrow> bool" where
  "less_eq_effect_id a b \<longleftrightarrow> eid a \<le> eid b"

definition less_effect_id :: "effect_id \<Rightarrow> effect_id \<Rightarrow> bool" where
  "less_effect_id a b \<longleftrightarrow> eid a < eid b"

instance
  by standard (auto simp: less_eq_effect_id_def less_effect_id_def effect_id.expand)

end

section \<open>Values\<close>

record val =
  v_tag :: tag
  v_payload :: u64

definition SLOT_LEN :: nat where
  "SLOT_LEN = 16"

definition VOID :: val where
  "VOID = \<lparr>v_tag = TagVoid, v_payload = 0\<rparr>"

definition v_int :: "i64 \<Rightarrow> val" where
  "v_int n = \<lparr>v_tag = TagInt, v_payload = n\<rparr>"

definition v_str :: "handle \<Rightarrow> val" where
  "v_str h = \<lparr>v_tag = TagStr, v_payload = handle_to_bits h\<rparr>"

definition v_bytes :: "handle \<Rightarrow> val" where
  "v_bytes h = \<lparr>v_tag = TagBytes, v_payload = handle_to_bits h\<rparr>"

definition v_list :: "handle \<Rightarrow> val" where
  "v_list h = \<lparr>v_tag = TagList, v_payload = handle_to_bits h\<rparr>"

definition v_pending :: "effect_id \<Rightarrow> val" where
  "v_pending e = \<lparr>v_tag = TagPending, v_payload = eid e\<rparr>"

definition v_bool :: "bool \<Rightarrow> val" where
  "v_bool b = v_int (of_bool b)"

definition v_ty :: "val \<Rightarrow> ty" where
  "v_ty v = tag_ty (v_tag v)"

definition handle_unchecked :: "val \<Rightarrow> handle" where
  "handle_unchecked v = handle_from_bits (v_payload v)"

definition is_truthy :: "val \<Rightarrow> bool" where
  "is_truthy v = (case v_tag v of
     TagVoid \<Rightarrow> False
   | TagInt \<Rightarrow> v_payload v \<noteq> 0
   | TagStr \<Rightarrow> h_len (handle_unchecked v) \<noteq> 0
   | TagBytes \<Rightarrow> h_len (handle_unchecked v) \<noteq> 0
   | TagList \<Rightarrow> h_len (handle_unchecked v) \<noteq> 0
   | TagPending \<Rightarrow> True)"

definition as_int :: "val \<Rightarrow> i64 result" where
  "as_int v = (if v_tag v = TagInt then Ok (v_payload v) else fail TagMismatch)"

definition as_handle :: "val \<Rightarrow> handle result" where
  "as_handle v =
     (if is_arena (v_tag v) then Ok (handle_from_bits (v_payload v)) else fail TagMismatch)"

definition as_handle_of :: "val \<Rightarrow> tag \<Rightarrow> handle result" where
  "as_handle_of v want =
     (if v_tag v = want then Ok (handle_from_bits (v_payload v)) else fail TagMismatch)"

definition as_pending :: "val \<Rightarrow> effect_id result" where
  "as_pending v = (if v_tag v = TagPending then Ok (EffectId (v_payload v)) else fail TagMismatch)"

definition shallow_eq :: "val \<Rightarrow> val \<Rightarrow> bool" where
  "shallow_eq a b \<longleftrightarrow> v_tag a = v_tag b \<and> v_payload a = v_payload b"

definition value_write :: "val \<Rightarrow> bytes \<Rightarrow> bytes" where
  "value_write v out = out @ [tag_byte (v_tag v)] @ replicate 7 0 @ u64_le (v_payload v)"

definition value_read :: "bytes \<Rightarrow> val result" where
  "value_read buf =
     rbind (of_opt (diag_new SnapshotCorrupt) (slice_get buf 0 SLOT_LEN)) (\<lambda>raw.
     rbind (of_opt (diag_new SnapshotCorrupt) (tag_from_byte (raw ! 0))) (\<lambda>t.
     Ok \<lparr>v_tag = t, v_payload = u64_of_le (take 8 (drop 8 raw))\<rparr>))"

lemmas val_defs = VOID_def v_int_def v_str_def v_bytes_def v_list_def v_pending_def v_bool_def

declare val_defs [run_defs]
declare as_int_def [run_defs] as_handle_def [run_defs] as_handle_of_def [run_defs]
  as_pending_def [run_defs] is_truthy_def [run_defs]

lemma v_tag_simps [simp]:
  "v_tag VOID = TagVoid" "v_tag (v_int n) = TagInt" "v_tag (v_str h) = TagStr"
  "v_tag (v_bytes h) = TagBytes" "v_tag (v_list h) = TagList" "v_tag (v_pending e) = TagPending"
  "v_tag (v_bool b) = TagInt"
  by (simp_all add: val_defs)

lemma as_simps [simp]:
  "as_int (v_int n) = Ok n" "as_pending (v_pending e) = Ok e"
  "as_handle (v_str h) = Ok h" "as_handle (v_bytes h) = Ok h" "as_handle (v_list h) = Ok h"
  "as_handle_of (v_str h) TagStr = Ok h" "as_handle_of (v_list h) TagList = Ok h"
  by (simp_all add: val_defs as_int_def as_pending_def as_handle_def as_handle_of_def)

lemma as_no_panic [simp]:
  "as_int v \<noteq> Panic" "as_handle v \<noteq> Panic" "as_handle_of v t \<noteq> Panic" "as_pending v \<noteq> Panic"
  by (simp_all add: as_int_def as_handle_def as_handle_of_def as_pending_def)

section \<open>The serialized slot\<close>

definition slot_bytes :: "val \<Rightarrow> bytes" where
  "slot_bytes v = value_write v []"

lemma value_write_append: "value_write v out = out @ slot_bytes v"
  by (simp add: value_write_def slot_bytes_def)

lemma length_slot_bytes [simp]: "length (slot_bytes v) = SLOT_LEN"
  by (simp add: slot_bytes_def value_write_def SLOT_LEN_def)

lemma value_read_no_panic [simp]: "value_read buf \<noteq> Panic"
  by (auto simp: value_read_def rbind_eq_Panic of_opt_def split: option.splits)

lemma value_read_short: "length buf < SLOT_LEN \<Longrightarrow> value_read buf = fail SnapshotCorrupt"
  by (simp add: value_read_def slice_get_def fail_def)

lemma value_read_long:
  assumes "16 \<le> length buf"
  shows "value_read buf = (case tag_from_byte (buf ! 0) of
     None \<Rightarrow> fail SnapshotCorrupt
   | Some t \<Rightarrow> Ok \<lparr>v_tag = t, v_payload = u64_of_le (take 8 (drop 8 buf))\<rparr>)"
proof -
  have "slice_get buf 0 16 = Some (take 16 buf)" using assms by (simp add: slice_get_def)
  moreover have "take 8 (drop 8 (take 16 buf)) = take 8 (drop 8 buf)" by (simp add: drop_take)
  ultimately show ?thesis
    using assms by (simp add: value_read_def SLOT_LEN_def fail_def split: option.splits)
qed

lemma value_read_slot_bytes: "value_read (slot_bytes v @ rest) = Ok v"
  by (simp add: value_read_def slot_bytes_def value_write_def SLOT_LEN_def slice_get_def)

lemma value_read_slot_bytes' [simp]: "value_read (slot_bytes v) = Ok v"
  using value_read_slot_bytes [of v "[]"] by simp

text \<open>What a successful read establishes: the tag byte is the value's, the payload its bytes;
  the seven padding bytes are not looked at.\<close>

lemma value_read_OkD:
  assumes "value_read buf = Ok v"
  shows "\<exists>pad rest. length pad = 7 \<and> buf = tag_byte (v_tag v) # pad @ u64_le (v_payload v) @ rest"
proof -
  from assms have len: "16 \<le> length buf"
    by (rule contrapos_pp) (simp add: value_read_short SLOT_LEN_def)
  let ?p = "take 8 (drop 8 buf)"
  from assms have "tag_from_byte (buf ! 0) = Some (v_tag v)" and "v_payload v = u64_of_le ?p"
    by (auto simp: value_read_long [OF len] split: option.splits)
  then have tag: "buf ! 0 = tag_byte (v_tag v)" and "v_payload v = u64_of_le ?p"
    by (simp_all add: tag_from_byte_eq_Some)
  moreover have "length ?p = 8" using len by simp
  ultimately have pay: "u64_le (v_payload v) = ?p"
    using le_bytes_le_nat [of ?p] le_nat_bound [of ?p]
    by (simp add: u64_le_def u64_of_le_def unat_of_nat)
  have "buf = buf ! 0 # take 7 (tl buf) @ take 8 (drop 8 buf) @ drop 16 buf"
  proof (cases buf)
    case (Cons b bs)
    have "drop 8 (drop 7 bs) = drop 15 bs" by simp
    then have "bs = take 7 bs @ take 8 (drop 7 bs) @ drop 15 bs"
      by (metis append_take_drop_id)
    with Cons show ?thesis by simp
  qed (use len in simp)
  then have "buf = tag_byte (v_tag v) # take 7 (tl buf) @ u64_le (v_payload v) @ drop 16 buf"
    by (simp only: tag pay)
  moreover have "length (take 7 (tl buf)) = 7" using len by simp
  ultimately show ?thesis by blast
qed

end
