(* ===== verification/CV_Text.thy ===== *)
theory CV_Text
  imports CV_Prelude
begin

text \<open>
  The parts of Rust's standard library that the machine uses on text: UTF-8 validation
  (\<open>str::from_utf8\<close>), lossy decoding (\<open>String::from_utf8_lossy\<close>), splitting at \<open>{}\<close>
  (\<open>str::split\<close>), and the decimal and hexadecimal forms of \<open>to_string\<close> and \<open>{:#x}\<close>.
  A Rust string is its UTF-8 bytes.
\<close>

section \<open>UTF-8\<close>

definition cont_byte :: "u8 \<Rightarrow> bool" where
  "cont_byte b \<longleftrightarrow> 0x80 \<le> b \<and> b \<le> 0xBF"

text \<open>The second byte that may follow a lead byte (Unicode, table 3-7).\<close>

definition second_ok :: "u8 \<Rightarrow> u8 \<Rightarrow> bool" where
  "second_ok b c \<longleftrightarrow>
     (if b = 0xE0 then 0xA0 \<le> c \<and> c \<le> 0xBF
      else if b = 0xED then 0x80 \<le> c \<and> c \<le> 0x9F
      else if b = 0xF0 then 0x90 \<le> c \<and> c \<le> 0xBF
      else if b = 0xF4 then 0x80 \<le> c \<and> c \<le> 0x8F
      else cont_byte c)"

text \<open>The number of bytes a lead byte announces; 0 for a byte that cannot lead.\<close>

definition lead_len :: "u8 \<Rightarrow> nat" where
  "lead_len b =
     (if b < 0x80 then 1
      else if 0xC2 \<le> b \<and> b \<le> 0xDF then 2
      else if 0xE0 \<le> b \<and> b \<le> 0xEF then 3
      else if 0xF0 \<le> b \<and> b \<le> 0xF4 then 4
      else 0)"

text \<open>
  \<open>utf8_head bs\<close>: whether the input begins with a well-formed sequence, and how many bytes
  belong to it (or, where it does not, to the maximal ill-formed prefix).
\<close>

fun utf8_head :: "bytes \<Rightarrow> bool \<times> nat" where
  "utf8_head [] = (False, 0)"
| "utf8_head (b # bs) =
     (let n = lead_len b in
      if n = 0 then (False, 1)
      else if n = 1 then (True, 1)
      else if bs = [] \<or> \<not> second_ok b (bs ! 0) then (False, 1)
      else if n = 2 then (True, 2)
      else if length bs < 2 \<or> \<not> cont_byte (bs ! 1) then (False, 2)
      else if n = 3 then (True, 3)
      else if length bs < 3 \<or> \<not> cont_byte (bs ! 2) then (False, 3)
      else (True, 4))"

lemma utf8_head_pos: "bs \<noteq> [] \<Longrightarrow> 0 < snd (utf8_head bs)"
  by (cases bs) (auto simp: Let_def)

lemma utf8_head_bound: "snd (utf8_head bs) \<le> length bs"
  by (cases bs) (auto simp: Let_def Suc_le_eq)

function valid_utf8 :: "bytes \<Rightarrow> bool" where
  "valid_utf8 bs =
     (if bs = [] then True
      else fst (utf8_head bs) \<and> valid_utf8 (drop (snd (utf8_head bs)) bs))"
  by pat_completeness auto
termination
  by (relation "measure length") (auto simp: utf8_head_pos)

declare valid_utf8.simps [simp del]

text \<open>\<open>from_utf8_lossy\<close>: each maximal ill-formed prefix becomes one U+FFFD.\<close>

function utf8_lossy :: "bytes \<Rightarrow> bytes" where
  "utf8_lossy bs =
     (if bs = [] then []
      else (if fst (utf8_head bs) then take (snd (utf8_head bs)) bs else [0xEF, 0xBF, 0xBD])
           @ utf8_lossy (drop (snd (utf8_head bs)) bs))"
  by pat_completeness auto
termination
  by (relation "measure length") (auto simp: utf8_head_pos)

declare utf8_lossy.simps [simp del]

lemma utf8_lossy_valid: "valid_utf8 bs \<Longrightarrow> utf8_lossy bs = bs"
proof (induction bs rule: utf8_lossy.induct)
  case (1 bs)
  show ?case
  proof (cases "bs = []")
    case False
    with 1 show ?thesis
      by (subst utf8_lossy.simps) (simp add: valid_utf8.simps [of bs])
  qed (simp add: utf8_lossy.simps)
qed

lemma valid_utf8_ascii: "\<forall>b \<in> set bs. b < 0x80 \<Longrightarrow> valid_utf8 bs"
proof (induction bs)
  case (Cons b bs)
  then show ?case by (subst valid_utf8.simps) (simp add: lead_len_def)
qed (simp add: valid_utf8.simps)

section \<open>Splitting and number formats\<close>

text \<open>\<open>template.split("{}")\<close>: the pieces between occurrences, scanned left to right.\<close>

fun split_braces :: "bytes \<Rightarrow> bytes list" where
  "split_braces [] = [[]]"
| "split_braces (b # bs) =
     (case bs of
        c # cs \<Rightarrow>
          if b = 0x7B \<and> c = 0x7D then [] # split_braces cs
          else (case split_braces bs of p # ps \<Rightarrow> (b # p) # ps | [] \<Rightarrow> [[b]])
      | [] \<Rightarrow> [[b]])"

fun digits :: "nat \<Rightarrow> nat \<Rightarrow> nat list" where
  "digits base n =
     (if base \<le> 1 \<or> n < base then [n] else digits base (n div base) @ [n mod base])"

declare digits.simps [simp del]

definition digit_byte :: "nat \<Rightarrow> u8" where
  "digit_byte d = (if d < 10 then 0x30 + of_nat d else 0x61 + of_nat (d - 10))"

text \<open>\<open>i64::to_string\<close> and \<open>{}\<close> of a \<open>u64\<close> or \<open>u32\<close>.\<close>

definition show_nat :: "nat \<Rightarrow> bytes" where
  "show_nat n = map digit_byte (digits 10 n)"

definition show_i64 :: "i64 \<Rightarrow> bytes" where
  "show_i64 n = (if sint n < 0 then 0x2D # show_nat (nat (- sint n)) else show_nat (nat (sint n)))"

text \<open>\<open>{:#x}\<close>.\<close>

definition show_hex :: "nat \<Rightarrow> bytes" where
  "show_hex n = [0x30, 0x78] @ map digit_byte (digits 16 n)"

text \<open>The bytes of an ASCII literal of the source.\<close>

definition ascii :: "string \<Rightarrow> bytes" where
  "ascii s = map (\<lambda>c. of_char c) s"

end
