(* ===== verification/CV_Heap.thy ===== *)
theory CV_Heap
  imports CV_Value CV_Text
begin

text \<open>
  The arena, \<open>src/src/heap.rs\<close>: a grow-only byte buffer addressed by handles. The locale
  \<open>byte_store\<close> states what its clients rely on (what was allocated reads back, and no later
  allocation disturbs it); the arena interprets it.
\<close>

section \<open>The arena\<close>

record arena =
  a_data :: bytes

definition arena_new :: arena where
  "arena_new = \<lparr>a_data = []\<rparr>"

text \<open>
  \<open>bytes.len().max(1).div_ceil(8) * 8\<close> bytes are claimed; \<open>resize\<close> zero-fills what
  \<open>copy_from_slice\<close> does not cover.
\<close>

definition aligned_len :: "nat \<Rightarrow> nat" where
  "aligned_len n = (max n 1 + 7) div 8 * 8"

definition alloc :: "bytes \<Rightarrow> (arena, diag, handle) sm" where
  "alloc bs a =
     (let aligned = aligned_len (length bs); off = length (a_data a)
      in if u32_max < off + aligned then (fail ArenaExhausted, a)
         else (Ok (handle_new (of_nat off) (of_nat (length bs))),
               a\<lparr>a_data := a_data a @ bs @ replicate (aligned - length bs) 0\<rparr>))"

definition alloc_list :: "val list \<Rightarrow> (arena, diag, handle) sm" where
  "alloc_list items a = alloc (foldl (\<lambda>buf v. value_write v buf) [] items) a"

definition arena_get :: "arena \<Rightarrow> handle \<Rightarrow> bytes result" where
  "arena_get a h =
     of_opt (diag_new BadHandle) (slice_get (a_data a) (unat (h_off h)) (unat (handle_end h)))"

text \<open>\<open>chunks_exact\<close>: whole chunks only, a shorter tail is dropped.\<close>

function chunks_exact :: "nat \<Rightarrow> 'a list \<Rightarrow> 'a list list" where
  "chunks_exact n xs =
     (if n = 0 \<or> length xs < n then [] else take n xs # chunks_exact n (drop n xs))"
  by pat_completeness auto
termination
  by (relation "measure (\<lambda>(n, xs). length xs)") auto

declare chunks_exact.simps [simp del]

definition get_list :: "arena \<Rightarrow> handle \<Rightarrow> val list result" where
  "get_list a h = rbind (arena_get a h) (\<lambda>raw.
     if length raw mod SLOT_LEN \<noteq> 0 then fail BadHandle
     else collect_res value_read (chunks_exact SLOT_LEN raw))"

definition get_str :: "arena \<Rightarrow> handle \<Rightarrow> bytes result" where
  "get_str a h = rbind (arena_get a h) (\<lambda>raw. if valid_utf8 raw then Ok raw else fail BadHandle)"

definition arena_len :: "arena \<Rightarrow> nat" where
  "arena_len a = length (a_data a)"

definition arena_from_bytes :: "bytes \<Rightarrow> arena" where
  "arena_from_bytes bs = \<lparr>a_data = bs\<rparr>"

primrec classify :: "tag \<Rightarrow> ty" where
  "classify TagVoid = TyBottom"
| "classify TagInt = TyInt"
| "classify TagStr = TyHandle"
| "classify TagBytes = TyHandle"
| "classify TagList = TyHandle"
| "classify TagPending = TyPending"

declare alloc_def [run_defs] alloc_list_def [run_defs] arena_get_def [run_defs]

section \<open>Sizes and extents\<close>

definition arena_wf :: "arena \<Rightarrow> bool" where
  "arena_wf a \<longleftrightarrow> 8 dvd length (a_data a) \<and> length (a_data a) \<le> u32_max"

text \<open>A handle is in bounds when its whole extent lies in the arena.\<close>

definition in_arena :: "arena \<Rightarrow> handle \<Rightarrow> bool" where
  "in_arena a h \<longleftrightarrow> unat (handle_end h) \<le> length (a_data a)"

lemma aligned_len_ge: "n \<le> aligned_len n"
  by (simp add: aligned_len_def)

lemma aligned_len_dvd: "8 dvd aligned_len n"
  by (simp add: aligned_len_def)

lemma aligned_len_pos: "0 < aligned_len n"
  by (simp add: aligned_len_def)

lemma handle_end_ge: "unat (h_off h) \<le> unat (handle_end h)"
  using unat_bound [of "h_off h"] by (simp add: unat_handle_end u32_max_def)

lemma arena_get_iff: "is_Ok (arena_get a h) \<longleftrightarrow> in_arena a h"
  using handle_end_ge [of h] by (simp add: arena_get_def slice_get_def in_arena_def)

lemma arena_get_no_panic [simp]: "arena_get a h \<noteq> Panic"
  by (simp add: arena_get_def of_opt_def split: option.splits)

lemma arena_get_Err: "arena_get a h = Err e \<Longrightarrow> e = diag_new BadHandle"
  by (auto simp: arena_get_def of_opt_def split: option.splits)

lemma get_list_no_panic [simp]: "get_list a h \<noteq> Panic"
  by (auto simp: get_list_def rbind_eq_Panic collect_res_no_panic)

lemma get_str_no_panic [simp]: "get_str a h \<noteq> Panic"
  by (auto simp: get_str_def rbind_eq_Panic)

lemma alloc_cases:
  obtains (full) "u32_max < length (a_data a) + aligned_len (length bs)" "alloc bs a = (fail ArenaExhausted, a)"
  | (room) h a' where "length (a_data a) + aligned_len (length bs) \<le> u32_max"
      "alloc bs a = (Ok h, a')" "unat (h_off h) = length (a_data a)" "unat (h_len h) = length bs"
      "a_data a' = a_data a @ bs @ replicate (aligned_len (length bs) - length bs) 0"
proof (cases "u32_max < length (a_data a) + aligned_len (length bs)")
  case True
  then show ?thesis by (intro full) (simp_all add: alloc_def)
next
  case False
  moreover have "unat (of_nat n :: u32) = n" if "n \<le> u32_max" for n
    using that by (simp add: unat_of_nat u32_max_def)
  ultimately show ?thesis
    using aligned_len_ge [of "length bs"]
    by (intro room [of "handle_new (of_nat (length (a_data a))) (of_nat (length bs))"
        "a\<lparr>a_data := a_data a @ bs @ replicate (aligned_len (length bs) - length bs) 0\<rparr>"])
      (auto simp: alloc_def Let_def handle_new_def)
qed

lemma alloc_no_panic [simp]: "fst (alloc bs a) \<noteq> Panic"
  by (cases rule: alloc_cases [of a bs]) auto

lemma alloc_reads_back:
  assumes "alloc bs a = (Ok h, a')"
  shows "arena_get a' h = Ok bs"
proof (cases rule: alloc_cases [of a bs])
  case (room g b)
  with assms have eq: "g = h" "b = a'" by auto
  have "unat (handle_end h) = length (a_data a) + length bs"
    using room eq aligned_len_ge [of "length bs"] by (simp add: unat_handle_end)
  with room eq show ?thesis by (simp add: arena_get_def slice_get_mid)
qed (use assms in simp)

lemma alloc_extends:
  assumes "alloc bs a = (r, a')"
  shows "\<exists>ext. a_data a' = a_data a @ ext"
  using assms by (cases rule: alloc_cases [of a bs]) auto

lemma arena_get_extends:
  assumes "arena_get a h = Ok bs" and "a_data a' = a_data a @ ext"
  shows "arena_get a' h = Ok bs"
  using assms by (auto simp: arena_get_def of_opt_def slice_get_append split: option.splits)

lemma alloc_wf: "arena_wf a \<Longrightarrow> alloc bs a = (r, a') \<Longrightarrow> arena_wf a'"
  using aligned_len_ge [of "length bs"] aligned_len_dvd [of "length bs"]
  by (cases rule: alloc_cases [of a bs]) (auto simp: arena_wf_def)

section \<open>The contract of a byte store\<close>

locale byte_store =
  fixes put :: "bytes \<Rightarrow> ('s, diag, 'h) sm"
    and get :: "'s \<Rightarrow> 'h \<Rightarrow> bytes result"
  assumes put_get: "put bs s = (Ok h, s') \<Longrightarrow> get s' h = Ok bs"
    and put_keeps: "put bs s = (r, s') \<Longrightarrow> get s h = Ok x \<Longrightarrow> get s' h = Ok x"
begin

text \<open>Any number of allocations, one after the other, stopping at the first refusal.\<close>

fun put_all :: "bytes list \<Rightarrow> ('s, diag, 'h list) sm" where
  "put_all [] = sret []"
| "put_all (b # bs) = sbind (put b) (\<lambda>h. sbind (put_all bs) (\<lambda>hs. sret (h # hs)))"

lemma put_all_keeps:
  "put_all bss s = (r, s') \<Longrightarrow> get s h = Ok x \<Longrightarrow> get s' h = Ok x"
proof (induction bss arbitrary: s r s')
  case (Cons b bss)
  obtain r1 s1 where put: "put b s = (r1, s1)" by fastforce
  from put_keeps [OF put Cons.prems(2)] have "get s1 h = Ok x" .
  moreover obtain r2 s2 where rest: "put_all bss s1 = (r2, s2)" by fastforce
  ultimately have "get s2 h = Ok x" using Cons.IH by blast
  with Cons.prems put rest \<open>get s1 h = Ok x\<close> show ?case
    by (cases r1; cases r2) (auto simp: sbind_def sret_def)
qed (simp add: sret_def)

lemma put_all_reads_back:
  "put_all bss s = (Ok hs, s') \<Longrightarrow> list_all2 (\<lambda>h b. get s' h = Ok b) hs bss"
proof (induction bss arbitrary: s hs s')
  case (Cons b bss)
  then obtain h s1 hs' where put: "put b s = (Ok h, s1)" and rest: "put_all bss s1 = (Ok hs', s')"
    and "hs = h # hs'"
    by (auto simp: sbind_def sret_def split: prod.splits res.splits)
  from put_all_keeps [OF rest put_get [OF put]] have "get s' h = Ok b" .
  with Cons.IH [OF rest] \<open>hs = h # hs'\<close> show ?case by simp
qed (simp add: sret_def)

end

interpretation arena_store: byte_store alloc arena_get
  by unfold_locales (auto dest: alloc_reads_back alloc_extends intro: arena_get_extends)

section \<open>Lists of values\<close>

lemma foldl_value_write:
  "foldl (\<lambda>buf v. value_write v buf) acc vs = acc @ concat (map slot_bytes vs)"
  by (induction vs arbitrary: acc) (simp_all add: value_write_append)

lemma length_concat_slots: "length (concat (map slot_bytes vs)) = SLOT_LEN * length vs"
  by (induction vs) simp_all

lemma chunks_exact_slots: "chunks_exact SLOT_LEN (concat (map slot_bytes vs)) = map slot_bytes vs"
proof (induction vs)
  case Nil
  then show ?case by (simp add: chunks_exact.simps SLOT_LEN_def)
next
  case (Cons v vs)
  then show ?case by (subst chunks_exact.simps) (simp add: SLOT_LEN_def)
qed

lemma collect_slots: "collect_res value_read (map slot_bytes vs) = Ok vs"
  by (induction vs) simp_all

lemma get_list_alloc_list:
  assumes "alloc_list vs a = (Ok h, a')"
  shows "get_list a' h = Ok vs"
proof -
  have "arena_get a' h = Ok (concat (map slot_bytes vs))"
    using assms by (intro arena_store.put_get) (simp add: alloc_list_def foldl_value_write)
  then show ?thesis
    by (simp add: get_list_def length_concat_slots chunks_exact_slots collect_slots)
qed

lemma get_list_extends:
  assumes "get_list a h = Ok vs" and "a_data a' = a_data a @ ext"
  shows "get_list a' h = Ok vs"
proof -
  from assms(1) obtain raw where "arena_get a h = Ok raw"
    by (cases "arena_get a h") (auto simp: get_list_def)
  moreover from arena_get_extends [OF this assms(2)] have "arena_get a' h = Ok raw" .
  ultimately show ?thesis using assms(1) by (simp add: get_list_def)
qed

lemma alloc_list_no_panic [simp]: "fst (alloc_list vs a) \<noteq> Panic"
  by (simp add: alloc_list_def)

end
