(* ===== verification/CV_Frame.thy ===== *)
theory CV_Frame
  imports CV_Value
begin

text \<open>
  Call frames, \<open>src/src/frame.rs\<close>: the operand stack and the frame locals in one array. The
  abstract view of a frame is the list \<open>operands f\<close> of its live operands; the locale
  \<open>bounded_stack\<close> states the stack contract over such a view, and the frame interprets it.
\<close>

record frame =
  func :: u32
  pc :: u32
  slots :: "val list"
  sp :: nat
  maxstack :: u16
  returns :: u8

text \<open>\<open>Frame::new\<close>: the loop over the arguments keeps only as many as \<open>maxstack\<close> allows.\<close>

definition new_arg :: "u16 \<Rightarrow> val list \<times> nat \<Rightarrow> val \<Rightarrow> val list \<times> nat" where
  "new_arg mx st v =
     (let (sl, p) = st in if p < unat mx then (sl[p := v], Suc p) else (sl, p))"

definition frame_new :: "u32 \<Rightarrow> val list \<Rightarrow> nat \<Rightarrow> u16 \<Rightarrow> u8 \<Rightarrow> frame" where
  "frame_new fn args locals mx rets =
     (let (sl, p) = foldl (new_arg mx) (replicate (unat mx + locals) VOID, 0) args
      in \<lparr>func = fn, pc = 0, slots = sl, sp = p, maxstack = mx, returns = rets\<rparr>)"

definition push :: "val \<Rightarrow> (frame, diag, unit) sm" where
  "push v f =
     (if unat (maxstack f) \<le> sp f then (fail MaxstackExceeded, f)
      else if length (slots f) \<le> sp f then (Panic, f)
      else (Ok (), f\<lparr>slots := (slots f)[sp f := v], sp := Suc (sp f)\<rparr>))"

definition pop :: "(frame, diag, val) sm" where
  "pop f =
     (if sp f = 0 then (fail StackUnderflow, f)
      else let f' = f\<lparr>sp := sp f - 1\<rparr>
           in if sp f' < length (slots f') then (Ok (slots f' ! sp f'), f') else (Panic, f'))"

text \<open>
  \<open>self.slots.get(self.sp - 1 - n)\<close>: with \<open>sp <= n\<close> the subtraction wraps to an index no
  vector has.
\<close>

definition peek :: "nat \<Rightarrow> (frame, diag, val) sm" where
  "peek n f =
     (of_opt (diag_new StackUnderflow)
        (if sp f \<le> n then None else nth_get (slots f) (sp f - 1 - n)), f)"

definition load_local :: "nat \<Rightarrow> (frame, diag, val) sm" where
  "load_local idx f =
     (of_opt (diag_new StackUnderflow) (nth_get (slots f) (unat (maxstack f) + idx)), f)"

definition store_local :: "nat \<Rightarrow> val \<Rightarrow> (frame, diag, unit) sm" where
  "store_local idx v f =
     (let at = unat (maxstack f) + idx
      in if at < length (slots f) then (Ok (), f\<lparr>slots := (slots f)[at := v]\<rparr>)
         else (fail StackUnderflow, f))"

definition drop_n :: "nat \<Rightarrow> (frame, diag, unit) sm" where
  "drop_n n f =
     (if sp f < n then (fail StackUnderflow, f) else (Ok (), f\<lparr>sp := sp f - n\<rparr>))"

definition pop_n :: "nat \<Rightarrow> (frame, diag, val list) sm" where
  "pop_n n f =
     (if sp f < n then (fail StackUnderflow, f)
      else case slice_get (slots f) (sp f - n) (sp f) of
             None \<Rightarrow> (Panic, f)
           | Some out \<Rightarrow> (Ok out, f\<lparr>sp := sp f - n\<rparr>))"

definition check_top :: "ty \<Rightarrow> (frame, diag, unit) sm" where
  "check_top want = sbind (peek 0) (\<lambda>v.
     if satisfies (v_ty v) want then sret () else slift (fail TagMismatch))"

declare push_def [run_defs] pop_def [run_defs] peek_def [run_defs] load_local_def [run_defs]
  store_local_def [run_defs] drop_n_def [run_defs] pop_n_def [run_defs] frame_new_def [run_defs]
  new_arg_def [run_defs] slice_get_def [run_defs] nth_get_def [run_defs]

section \<open>Well-formed frames\<close>

text \<open>The stack pointer stays within \<open>maxstack\<close>, and the operand area within the slots.\<close>

definition frame_wf :: "frame \<Rightarrow> bool" where
  "frame_wf f \<longleftrightarrow> sp f \<le> unat (maxstack f) \<and> unat (maxstack f) \<le> length (slots f)"

definition operands :: "frame \<Rightarrow> val list" where
  "operands f = take (sp f) (slots f)"

definition locals :: "frame \<Rightarrow> val list" where
  "locals f = drop (unat (maxstack f)) (slots f)"

text \<open>Two frames that differ at most in their operands.\<close>

definition same_frame :: "frame \<Rightarrow> frame \<Rightarrow> bool" where
  "same_frame f g \<longleftrightarrow> func f = func g \<and> pc f = pc g \<and> maxstack f = maxstack g \<and>
     returns f = returns g \<and> length (slots f) = length (slots g) \<and> locals f = locals g"

lemma same_frame_refl [simp]: "same_frame f f"
  by (simp add: same_frame_def)

lemma same_frame_trans: "same_frame f g \<Longrightarrow> same_frame g h \<Longrightarrow> same_frame f h"
  by (simp add: same_frame_def)

lemma length_operands: "frame_wf f \<Longrightarrow> length (operands f) = sp f"
  by (simp add: frame_wf_def operands_def)

lemma foldl_new_arg:
  assumes "p \<le> unat mx" and "unat mx \<le> length sl"
  shows "\<exists>sl' p'. foldl (new_arg mx) (sl, p) args = (sl', p') \<and> length sl' = length sl \<and>
     p' = min (p + length args) (unat mx) \<and> take p' sl' = take p sl @ take (unat mx - p) args \<and>
     drop (unat mx) sl' = drop (unat mx) sl"
  using assms
proof (induction args arbitrary: sl p)
  case (Cons v args)
  show ?case
  proof (cases "p < unat mx")
    case True
    with Cons.prems have "Suc p \<le> unat mx" and "unat mx \<le> length (sl[p := v])" by simp_all
    from Cons.IH [OF this] True Cons.prems show ?thesis
      by (auto simp: new_arg_def take_Suc_conv_app_nth take_Cons' nth_list_update)
  next
    case False
    with Cons.prems have p: "p = unat mx" by simp
    have step: "new_arg mx (sl, unat mx) v = (sl, unat mx)" by (simp add: new_arg_def)
    from Cons.IH [OF Cons.prems] show ?thesis
      by (auto simp: p step)
  qed
qed simp

lemma frame_new_facts:
  "frame_wf (frame_new fn args n mx rets)"
  "operands (frame_new fn args n mx rets) = take (unat mx) args"
  "func (frame_new fn args n mx rets) = fn" "pc (frame_new fn args n mx rets) = 0"
  "maxstack (frame_new fn args n mx rets) = mx" "returns (frame_new fn args n mx rets) = rets"
  "locals (frame_new fn args n mx rets) = replicate n VOID"
  using foldl_new_arg [of 0 mx "replicate (unat mx + n) VOID" args]
  by (auto simp: frame_new_def frame_wf_def operands_def locals_def)

subsection \<open>The operations on the view\<close>

lemma push_cases:
  assumes "frame_wf f"
  obtains (full) "unat (maxstack f) \<le> sp f" "push v f = (fail MaxstackExceeded, f)"
  | (room) f' where "sp f < unat (maxstack f)" "push v f = (Ok (), f')" "frame_wf f'"
      "operands f' = operands f @ [v]" "same_frame f f'"
proof (cases "unat (maxstack f) \<le> sp f")
  case True
  then show ?thesis by (intro full) (simp_all add: push_def)
next
  case False
  with assms show ?thesis
    by (intro room [of "f\<lparr>slots := (slots f)[sp f := v], sp := Suc (sp f)\<rparr>"])
      (auto simp: push_def frame_wf_def operands_def same_frame_def locals_def
        take_Suc_conv_app_nth)
qed

lemma pop_cases:
  assumes "frame_wf f"
  obtains (empty) "operands f = []" "pop f = (fail StackUnderflow, f)"
  | (top) v f' where "pop f = (Ok v, f')" "frame_wf f'" "operands f = operands f' @ [v]"
      "same_frame f f'"
proof (cases "sp f")
  case 0
  then show ?thesis by (intro empty) (simp_all add: pop_def operands_def)
next
  case (Suc n)
  with assms have "n < length (slots f)" by (simp add: frame_wf_def)
  with Suc assms show ?thesis
    by (intro top [of "slots f ! n" "f\<lparr>sp := n\<rparr>"])
      (auto simp: pop_def frame_wf_def operands_def same_frame_def locals_def
        take_Suc_conv_app_nth)
qed

lemma pop_n_cases:
  assumes "frame_wf f"
  obtains (short) "length (operands f) < n" "pop_n n f = (fail StackUnderflow, f)"
  | (enough) vs f' where "pop_n n f = (Ok vs, f')" "frame_wf f'" "length vs = n"
      "operands f = operands f' @ vs" "same_frame f f'"
proof (cases "sp f < n")
  case True
  with assms show ?thesis by (intro short) (simp_all add: pop_n_def length_operands)
next
  case False
  with assms have "slice_get (slots f) (sp f - n) (sp f) = Some (take n (drop (sp f - n) (slots f)))"
    by (simp add: slice_get_def frame_wf_def)
  moreover from False have "take (sp f) (slots f) =
      take (sp f - n) (slots f) @ take n (drop (sp f - n) (slots f))"
    by (metis add.commute le_add_diff_inverse not_less take_add)
  ultimately show ?thesis using False assms
    by (intro enough [of "take n (drop (sp f - n) (slots f))" "f\<lparr>sp := sp f - n\<rparr>"])
      (auto simp: pop_n_def frame_wf_def operands_def same_frame_def locals_def)
qed

lemma peek_eq:
  "frame_wf f \<Longrightarrow> peek n f =
     (if n < length (operands f) then Ok (rev (operands f) ! n) else fail StackUnderflow, f)"
  by (auto simp: peek_def nth_get_def frame_wf_def operands_def rev_nth fail_def)

lemma load_local_eq:
  "frame_wf f \<Longrightarrow> load_local i f =
     (if i < length (locals f) then Ok (locals f ! i) else fail StackUnderflow, f)"
  by (auto simp: load_local_def nth_get_def frame_wf_def locals_def fail_def)

lemma store_local_cases:
  assumes "frame_wf f"
  obtains (out) "length (locals f) \<le> i" "store_local i v f = (fail StackUnderflow, f)"
  | (stored) f' where "i < length (locals f)" "store_local i v f = (Ok (), f')" "frame_wf f'"
      "operands f' = operands f" "locals f' = (locals f)[i := v]"
      "func f' = func f" "pc f' = pc f" "maxstack f' = maxstack f" "returns f' = returns f"
proof (cases "i < length (locals f)")
  case True
  with assms show ?thesis
    by (intro stored [of "f\<lparr>slots := (slots f)[unat (maxstack f) + i := v]\<rparr>"])
      (auto simp: store_local_def Let_def frame_wf_def operands_def locals_def drop_update_swap)
next
  case False
  with assms show ?thesis
    by (intro out) (auto simp: store_local_def Let_def frame_wf_def locals_def)
qed

section \<open>The contract of a bounded stack\<close>

locale bounded_stack =
  fixes put :: "'v \<Rightarrow> ('s, diag, unit) sm"
    and take_top :: "nat \<Rightarrow> ('s, diag, 'v list) sm"
    and view :: "'s \<Rightarrow> 'v list"
    and room :: "'s \<Rightarrow> nat"
    and wf :: "'s \<Rightarrow> bool"
  assumes put_ok: "wf s \<Longrightarrow> 0 < room s \<Longrightarrow>
      \<exists>s'. put v s = (Ok (), s') \<and> wf s' \<and> view s' = view s @ [v] \<and> Suc (room s') = room s"
    and put_full: "wf s \<Longrightarrow> room s = 0 \<Longrightarrow> put v s = (fail MaxstackExceeded, s)"
    and take_ok: "wf s \<Longrightarrow> n \<le> length (view s) \<Longrightarrow>
      \<exists>s'. take_top n s = (Ok (drop (length (view s) - n) (view s)), s') \<and> wf s' \<and>
           view s' = take (length (view s) - n) (view s)"
    and take_short: "wf s \<Longrightarrow> length (view s) < n \<Longrightarrow> take_top n s = (fail StackUnderflow, s)"
begin

text \<open>\<open>for v in values { push(v)? }\<close>\<close>

fun put_list :: "'v list \<Rightarrow> ('s, diag, unit) sm" where
  "put_list [] = sret ()"
| "put_list (v # vs) = sthen (put v) (put_list vs)"

lemma put_list_ok:
  "wf s \<Longrightarrow> length vs \<le> room s \<Longrightarrow>
     \<exists>s'. put_list vs s = (Ok (), s') \<and> wf s' \<and> view s' = view s @ vs"
proof (induction vs arbitrary: s)
  case (Cons v vs)
  then obtain s1 where s1: "put v s = (Ok (), s1)" "wf s1" "view s1 = view s @ [v]"
    "Suc (room s1) = room s" using put_ok [of s v] by auto
  with Cons show ?case by (fastforce simp: sthen_def)
qed (simp add: sret_def)

lemma put_list_full:
  "wf s \<Longrightarrow> room s < length vs \<Longrightarrow> \<exists>s'. put_list vs s = (fail MaxstackExceeded, s') \<and> wf s'"
proof (induction vs arbitrary: s)
  case (Cons v vs)
  show ?case
  proof (cases "room s")
    case 0
    with Cons.prems put_full show ?thesis by (simp add: sthen_def fail_def)
  next
    case (Suc k)
    then obtain s1 where s1: "put v s = (Ok (), s1)" "wf s1" "Suc (room s1) = room s"
      using put_ok [of s v] Cons.prems by auto
    with Cons show ?thesis by (simp add: sthen_def)
  qed
qed simp

text \<open>What was pushed comes off again, in the order it went on.\<close>

lemma put_list_take_top:
  assumes "wf s" and "length vs \<le> room s"
  shows "\<exists>s'. sthen (put_list vs) (take_top (length vs)) s = (Ok vs, s') \<and> wf s' \<and> view s' = view s"
proof -
  from put_list_ok [OF assms] obtain s1
    where s1: "put_list vs s = (Ok (), s1)" "wf s1" "view s1 = view s @ vs" by blast
  with take_ok [of s1 "length vs"] show ?thesis by (auto simp: sthen_def)
qed

end

definition stack_room :: "frame \<Rightarrow> nat" where
  "stack_room f = unat (maxstack f) - sp f"

interpretation frame_stack: bounded_stack push pop_n operands stack_room frame_wf
proof unfold_locales
  fix s v assume wf: "frame_wf s" and "0 < stack_room s"
  then show "\<exists>s'. push v s = (Ok (), s') \<and> frame_wf s' \<and> operands s' = operands s @ [v] \<and>
      Suc (stack_room s') = stack_room s"
    by (auto simp: push_def stack_room_def frame_wf_def operands_def take_Suc_conv_app_nth)
next
  fix s v assume "frame_wf s" and "stack_room s = 0"
  then show "push v s = (fail MaxstackExceeded, s)" by (simp add: push_def stack_room_def)
next
  fix s n assume wf: "frame_wf s" and n: "n \<le> length (operands s)"
  from wf show "\<exists>s'. pop_n n s = (Ok (drop (length (operands s) - n) (operands s)), s') \<and>
      frame_wf s' \<and> operands s' = take (length (operands s) - n) (operands s)"
    by (cases rule: pop_n_cases [of s n]) (use n in auto)
next
  fix s n assume wf: "frame_wf s" and n: "length (operands s) < n"
  from wf show "pop_n n s = (fail StackUnderflow, s)"
    by (cases rule: pop_n_cases [of s n]) (use n in auto)
qed

end
