(* ===== verification/CV_Budget.thy ===== *)
theory CV_Budget
  imports CV_Diag
begin

text \<open>
  Metering, \<open>src/src/budget.rs\<close>: reservations against four dimensions, each held as an \<open>i64\<close>.
  The operations test before they write, so a refusal changes nothing. The locale \<open>ledger\<close>
  is the accounting contract of one dimension; the budget interprets it.
\<close>

record budget =
  remaining_arr :: "i64 list"
  reserved_arr :: "i64 list"

definition DIM_COUNT :: nat where
  "DIM_COUNT = 4"

definition DIM_ARENA_BYTES :: u8 where
  "DIM_ARENA_BYTES = 3"

definition i64_max :: i64 where
  "i64_max = 0x7FFFFFFFFFFFFFFF"

definition budget_default :: budget where
  "budget_default = \<lparr>remaining_arr = [i64_max, i64_max, i64_max, i64_max],
                     reserved_arr = [0, 0, 0, 0]\<rparr>"

definition budget_new :: "i64 \<Rightarrow> i64 \<Rightarrow> i64 \<Rightarrow> i64 \<Rightarrow> budget" where
  "budget_new tokens wall_ms tool_calls arena_bytes =
     \<lparr>remaining_arr = [tokens, wall_ms, tool_calls, arena_bytes], reserved_arr = [0, 0, 0, 0]\<rparr>"

definition dim :: "u8 \<Rightarrow> nat result" where
  "dim d = (if unat d < DIM_COUNT then Ok (unat d) else fail BudgetExceeded)"

definition reserve :: "u8 \<Rightarrow> i64 \<Rightarrow> (budget, diag, unit) sm" where
  "reserve dm amount b = (case dim dm of
     Ok d \<Rightarrow>
       if sint amount < 0 \<or> sint (remaining_arr b ! d) < sint amount
       then (fail BudgetExceeded, b)
       else (Ok (), b\<lparr>remaining_arr := (remaining_arr b)[d := remaining_arr b ! d - amount],
                      reserved_arr := (reserved_arr b)[d := reserved_arr b ! d + amount]\<rparr>)
   | Err e \<Rightarrow> (Err e, b) | Panic \<Rightarrow> (Panic, b))"

definition release :: "u8 \<Rightarrow> i64 \<Rightarrow> (budget, diag, unit) sm" where
  "release dm amount b = (case dim dm of
     Ok d \<Rightarrow>
       if sint amount < 0 \<or> sint (reserved_arr b ! d) < sint amount
       then (fail BudgetExceeded, b)
       else (Ok (), b\<lparr>reserved_arr := (reserved_arr b)[d := reserved_arr b ! d - amount],
                      remaining_arr := (remaining_arr b)[d := remaining_arr b ! d + amount]\<rparr>)
   | Err e \<Rightarrow> (Err e, b) | Panic \<Rightarrow> (Panic, b))"

definition spend :: "u8 \<Rightarrow> i64 \<Rightarrow> (budget, diag, unit) sm" where
  "spend dm amount b = (case dim dm of
     Ok d \<Rightarrow>
       if sint amount < 0 \<or> sint (reserved_arr b ! d) < sint amount
       then (fail BudgetExceeded, b)
       else (Ok (), b\<lparr>reserved_arr := (reserved_arr b)[d := reserved_arr b ! d - amount]\<rparr>)
   | Err e \<Rightarrow> (Err e, b) | Panic \<Rightarrow> (Panic, b))"

definition remaining :: "budget \<Rightarrow> u8 \<Rightarrow> i64" where
  "remaining b dm = (case nth_get (remaining_arr b) (unat dm) of None \<Rightarrow> 0 | Some n \<Rightarrow> n)"

definition charge_arena :: "nat \<Rightarrow> (budget, diag, unit) sm" where
  "charge_arena n b =
     (let d = unat DIM_ARENA_BYTES
      in if sint (remaining_arr b ! d) < sint (of_nat n :: i64) then (fail ArenaExhausted, b)
         else (Ok (), b\<lparr>remaining_arr := (remaining_arr b)[d := remaining_arr b ! d - of_nat n]\<rparr>))"

declare dim_def [run_defs] DIM_COUNT_def [run_defs] reserve_def [run_defs] release_def [run_defs]
  spend_def [run_defs] remaining_def [run_defs]

section \<open>Exact arithmetic on balances\<close>

text \<open>
  Each dimension holds its allowance and its leases as non-negative amounts whose sum fits an
  \<open>i64\<close>; on such balances the wrapping operations of the code are exact.
\<close>

definition avail :: "budget \<Rightarrow> nat \<Rightarrow> int" where
  "avail b d = sint (remaining_arr b ! d)"

definition held :: "budget \<Rightarrow> nat \<Rightarrow> int" where
  "held b d = sint (reserved_arr b ! d)"

definition budget_wf :: "budget \<Rightarrow> bool" where
  "budget_wf b \<longleftrightarrow> length (remaining_arr b) = DIM_COUNT \<and> length (reserved_arr b) = DIM_COUNT \<and>
     (\<forall>d < DIM_COUNT. 0 \<le> avail b d \<and> 0 \<le> held b d \<and> avail b d + held b d < 2 ^ 63)"

lemma sint_add_exact:
  "- (2 ^ 63) \<le> sint a + sint b \<Longrightarrow> sint a + sint b < 2 ^ 63 \<Longrightarrow> sint (a + b :: i64) = sint a + sint b"
  by (simp add: signed_take_bit_int_eq_self sint_word_ariths)

lemma sint_sub_exact:
  "- (2 ^ 63) \<le> sint a - sint b \<Longrightarrow> sint a - sint b < 2 ^ 63 \<Longrightarrow> sint (a - b :: i64) = sint a - sint b"
  by (simp add: signed_take_bit_int_eq_self sint_word_ariths)

lemma dim_cases:
  obtains "dim dm = Ok (unat dm)" "unat dm < DIM_COUNT" | "dim dm = fail BudgetExceeded" "DIM_COUNT \<le> unat dm"
  by (cases "unat dm < DIM_COUNT") (auto simp: dim_def)

lemma budget_ops_no_panic [simp]:
  "fst (reserve dm n b) \<noteq> Panic" "fst (release dm n b) \<noteq> Panic" "fst (spend dm n b) \<noteq> Panic"
  by (cases rule: dim_cases [of dm]; simp add: reserve_def release_def spend_def fail_def)+

text \<open>A refused operation leaves the ledger as it was.\<close>

lemma budget_refused_unchanged:
  "reserve dm n b = (Err e, b') \<Longrightarrow> b' = b" "release dm n b = (Err e, b') \<Longrightarrow> b' = b"
  "spend dm n b = (Err e, b') \<Longrightarrow> b' = b"
  by (cases rule: dim_cases [of dm];
      auto simp: reserve_def release_def spend_def fail_def split: if_splits)+

text \<open>Writing both balances of one dimension.\<close>

lemma budget_update:
  assumes "budget_wf b" and "d < DIM_COUNT" and "0 \<le> sint x" and "0 \<le> sint y"
    and "sint x + sint y < 2 ^ 63"
    and b': "b' = b\<lparr>remaining_arr := (remaining_arr b)[d := x], reserved_arr := (reserved_arr b)[d := y]\<rparr>"
  shows "budget_wf b'" "avail b' d = sint x" "held b' d = sint y"
    "\<And>e. e \<noteq> d \<Longrightarrow> avail b' e = avail b e \<and> held b' e = held b e"
proof -
  note wf = assms(1)[unfolded budget_wf_def]
  show at: "avail b' d = sint x" "held b' d = sint y"
    using wf assms(2) by (simp_all add: b' avail_def held_def)
  show other: "avail b' e = avail b e \<and> held b' e = held b e" if "e \<noteq> d" for e
    using that by (simp add: b' avail_def held_def)
  have "0 \<le> avail b' e \<and> 0 \<le> held b' e \<and> avail b' e + held b' e < 2 ^ 63" if "e < DIM_COUNT" for e
    using wf that assms(3-5) at other [of e] by (cases "e = d") auto
  then show "budget_wf b'"
    using wf by (simp add: budget_wf_def b')
qed

lemma balances:
  assumes "budget_wf b" and "d < DIM_COUNT"
  shows "0 \<le> avail b d" "0 \<le> held b d" "avail b d + held b d < 2 ^ 63"
  using assms by (auto simp: budget_wf_def)

text \<open>The balances after a granted operation; \<open>k\<close> and \<open>l\<close> are what it adds to each.\<close>

definition moved :: "budget \<Rightarrow> budget \<Rightarrow> u8 \<Rightarrow> int \<Rightarrow> int \<Rightarrow> bool" where
  "moved b b' dm k l \<longleftrightarrow> budget_wf b' \<and>
     (\<forall>d. avail b' d = avail b d + (if d = unat dm then k else 0) \<and>
          held b' d = held b d + (if d = unat dm then l else 0))"

lemma movedI:
  assumes "budget_wf b" and "unat dm < DIM_COUNT"
    and "b' = b\<lparr>remaining_arr := (remaining_arr b)[unat dm := x],
                reserved_arr := (reserved_arr b)[unat dm := y]\<rparr>"
    and "sint x = avail b (unat dm) + k" and "sint y = held b (unat dm) + l"
    and "0 \<le> sint x" and "0 \<le> sint y" and "k + l \<le> 0"
  shows "moved b b' dm k l"
proof -
  have "sint x + sint y < 2 ^ 63"
    using balances [OF assms(1,2)] assms(4,5,8) by simp
  from budget_update [OF assms(1,2,6,7) this assms(3)] assms(4,5) show ?thesis
    by (auto simp: moved_def)
qed

lemma reserve_granted:
  assumes "reserve dm n b = (Ok (), b')" and wf: "budget_wf b"
  shows "0 \<le> sint n" and "unat dm < DIM_COUNT" and "moved b b' dm (- sint n) (sint n)"
proof -
  from assms(1) show d: "unat dm < DIM_COUNT"
    by (cases rule: dim_cases [of dm]) (auto simp: reserve_def fail_def)
  with assms(1) have n: "0 \<le> sint n" "sint n \<le> avail b (unat dm)"
    and b': "b' = b\<lparr>remaining_arr := (remaining_arr b)[unat dm := remaining_arr b ! unat dm - n],
                    reserved_arr := (reserved_arr b)[unat dm := reserved_arr b ! unat dm + n]\<rparr>"
    by (auto simp: reserve_def dim_def avail_def split: if_splits)
  from n show "0 \<le> sint n" by simp
  show "moved b b' dm (- sint n) (sint n)"
    using n balances [OF wf d]
    by (intro movedI [OF wf d b']) (simp_all add: avail_def held_def sint_sub_exact sint_add_exact)
qed

lemma release_granted:
  assumes "release dm n b = (Ok (), b')" and wf: "budget_wf b"
  shows "0 \<le> sint n" and "unat dm < DIM_COUNT" and "moved b b' dm (sint n) (- sint n)"
proof -
  from assms(1) show d: "unat dm < DIM_COUNT"
    by (cases rule: dim_cases [of dm]) (auto simp: release_def fail_def)
  with assms(1) have n: "0 \<le> sint n" "sint n \<le> held b (unat dm)"
    and b': "b' = b\<lparr>remaining_arr := (remaining_arr b)[unat dm := remaining_arr b ! unat dm + n],
                    reserved_arr := (reserved_arr b)[unat dm := reserved_arr b ! unat dm - n]\<rparr>"
    by (auto simp: release_def dim_def held_def split: if_splits)
  from n show "0 \<le> sint n" by simp
  show "moved b b' dm (sint n) (- sint n)"
    using n balances [OF wf d]
    by (intro movedI [OF wf d b']) (simp_all add: avail_def held_def sint_sub_exact sint_add_exact)
qed

lemma spend_granted:
  assumes "spend dm n b = (Ok (), b')" and wf: "budget_wf b"
  shows "0 \<le> sint n" and "unat dm < DIM_COUNT" and "moved b b' dm 0 (- sint n)"
proof -
  from assms(1) show d: "unat dm < DIM_COUNT"
    by (cases rule: dim_cases [of dm]) (auto simp: spend_def fail_def)
  with assms(1) have n: "0 \<le> sint n" "sint n \<le> held b (unat dm)"
    and b': "b' = b\<lparr>remaining_arr := (remaining_arr b)[unat dm := remaining_arr b ! unat dm],
                    reserved_arr := (reserved_arr b)[unat dm := reserved_arr b ! unat dm - n]\<rparr>"
    by (auto simp: spend_def dim_def held_def split: if_splits)
  from n show "0 \<le> sint n" by simp
  show "moved b b' dm 0 (- sint n)"
    using n balances [OF wf d]
    by (intro movedI [OF wf d b']) (simp_all add: avail_def held_def sint_sub_exact)
qed

section \<open>Runs of ledger operations\<close>

datatype ('d, 'n) ledger_op = Lease 'd 'n | GiveBack 'd 'n | Settle 'd 'n

text \<open>
  One operation on a ledger: the new state, and what was spent on dimension \<open>e\<close>. A refused
  operation is an error the caller sees; the ledger goes on from the state it leaves.
\<close>

fun ledger_step ::
  "('d \<Rightarrow> 'n \<Rightarrow> ('b, diag, unit) sm) \<Rightarrow> ('d \<Rightarrow> 'n \<Rightarrow> ('b, diag, unit) sm) \<Rightarrow>
   ('d \<Rightarrow> 'n \<Rightarrow> ('b, diag, unit) sm) \<Rightarrow> ('n \<Rightarrow> int) \<Rightarrow> 'd \<Rightarrow> ('d, 'n) ledger_op \<Rightarrow> 'b \<Rightarrow> 'b \<times> int" where
  "ledger_step ls gb st amt e (Lease d n) b = (snd (ls d n b), 0)"
| "ledger_step ls gb st amt e (GiveBack d n) b = (snd (gb d n b), 0)"
| "ledger_step ls gb st amt e (Settle d n) b =
     (case st d n b of (Ok _, b') \<Rightarrow> (b', if d = e then amt n else 0) | (_, b') \<Rightarrow> (b', 0))"

fun ledger_run ::
  "('d \<Rightarrow> 'n \<Rightarrow> ('b, diag, unit) sm) \<Rightarrow> ('d \<Rightarrow> 'n \<Rightarrow> ('b, diag, unit) sm) \<Rightarrow>
   ('d \<Rightarrow> 'n \<Rightarrow> ('b, diag, unit) sm) \<Rightarrow> ('n \<Rightarrow> int) \<Rightarrow> 'd \<Rightarrow> ('d, 'n) ledger_op list \<Rightarrow> 'b \<Rightarrow> 'b \<times> int" where
  "ledger_run ls gb st amt e [] b = (b, 0)"
| "ledger_run ls gb st amt e (x # xs) b =
     (let (b1, k) = ledger_step ls gb st amt e x b;
          (b2, l) = ledger_run ls gb st amt e xs b1
      in (b2, k + l))"

locale ledger =
  fixes lease :: "'d \<Rightarrow> 'n \<Rightarrow> ('b, diag, unit) sm"
    and give_back :: "'d \<Rightarrow> 'n \<Rightarrow> ('b, diag, unit) sm"
    and settle :: "'d \<Rightarrow> 'n \<Rightarrow> ('b, diag, unit) sm"
    and amount :: "'n \<Rightarrow> int"
    and free :: "'b \<Rightarrow> 'd \<Rightarrow> int" and leased :: "'b \<Rightarrow> 'd \<Rightarrow> int"
    and wf :: "'b \<Rightarrow> bool"
  assumes lease_granted: "wf b \<Longrightarrow> lease d n b = (Ok (), b') \<Longrightarrow> wf b' \<and> 0 \<le> amount n \<and>
      (\<forall>e. free b' e = free b e - (if e = d then amount n else 0) \<and>
           leased b' e = leased b e + (if e = d then amount n else 0))"
    and give_back_granted: "wf b \<Longrightarrow> give_back d n b = (Ok (), b') \<Longrightarrow> wf b' \<and> 0 \<le> amount n \<and>
      (\<forall>e. free b' e = free b e + (if e = d then amount n else 0) \<and>
           leased b' e = leased b e - (if e = d then amount n else 0))"
    and settle_granted: "wf b \<Longrightarrow> settle d n b = (Ok (), b') \<Longrightarrow> wf b' \<and> 0 \<le> amount n \<and>
      (\<forall>e. free b' e = free b e \<and> leased b' e = leased b e - (if e = d then amount n else 0))"
    and refused: "lease d n b = (r, b') \<Longrightarrow> r \<noteq> Ok () \<Longrightarrow> b' = b"
      "give_back d n b = (r, b') \<Longrightarrow> r \<noteq> Ok () \<Longrightarrow> b' = b"
      "settle d n b = (r, b') \<Longrightarrow> r \<noteq> Ok () \<Longrightarrow> b' = b"
begin

lemma step_accounts:
  assumes "wf b" and "ledger_step lease give_back settle amount e x b = (b', k)"
  shows "wf b' \<and> 0 \<le> k \<and> free b' e + leased b' e + k = free b e + leased b e"
proof (cases x)
  case (Lease d n)
  obtain r b1 where "lease d n b = (r, b1)" by fastforce
  with assms Lease lease_granted [of b d n b1] refused(1) [of d n b r b1] show ?thesis
    by (cases "r = Ok ()") auto
next
  case (GiveBack d n)
  obtain r b1 where "give_back d n b = (r, b1)" by fastforce
  with assms GiveBack give_back_granted [of b d n b1] refused(2) [of d n b r b1] show ?thesis
    by (cases "r = Ok ()") auto
next
  case (Settle d n)
  obtain r b1 where "settle d n b = (r, b1)" by fastforce
  with assms Settle settle_granted [of b d n b1] refused(3) [of d n b r b1] show ?thesis
    by (cases r) auto
qed

text \<open>However a ledger is driven, allowance, leases and spending add up to what it began with.\<close>

lemma run_accounts:
  assumes "wf b" and "ledger_run lease give_back settle amount e xs b = (b', k)"
  shows "wf b' \<and> 0 \<le> k \<and> free b' e + leased b' e + k = free b e + leased b e"
  using assms
proof (induction xs arbitrary: b k)
  case (Cons x xs)
  obtain b1 k1 where s: "ledger_step lease give_back settle amount e x b = (b1, k1)" by fastforce
  obtain b2 k2 where r: "ledger_run lease give_back settle amount e xs b1 = (b2, k2)" by fastforce
  from step_accounts [OF Cons.prems(1) s] Cons.IH [of b1 k2] Cons.prems(2) s r show ?case
    by auto
qed simp

end

interpretation budget_ledger: ledger reserve release spend sint
  "\<lambda>b d. avail b (unat d)" "\<lambda>b d. held b (unat d)" budget_wf
proof unfold_locales
  fix b b' :: budget and d :: u8 and n :: i64
  have eq: "unat e = unat d \<longleftrightarrow> e = d" for e :: u8 by (simp add: word_unat_eq_iff)
  show "budget_wf b' \<and> 0 \<le> sint n \<and>
      (\<forall>e. avail b' (unat e) = avail b (unat e) - (if e = d then sint n else 0) \<and>
           held b' (unat e) = held b (unat e) + (if e = d then sint n else 0))"
    if "budget_wf b" "reserve d n b = (Ok (), b')"
    using reserve_granted [OF that(2,1)] by (auto simp: moved_def eq)
  show "budget_wf b' \<and> 0 \<le> sint n \<and>
      (\<forall>e. avail b' (unat e) = avail b (unat e) + (if e = d then sint n else 0) \<and>
           held b' (unat e) = held b (unat e) - (if e = d then sint n else 0))"
    if "budget_wf b" "release d n b = (Ok (), b')"
    using release_granted [OF that(2,1)] by (auto simp: moved_def eq)
  show "budget_wf b' \<and> 0 \<le> sint n \<and>
      (\<forall>e. avail b' (unat e) = avail b (unat e) \<and>
           held b' (unat e) = held b (unat e) - (if e = d then sint n else 0))"
    if "budget_wf b" "spend d n b = (Ok (), b')"
    using spend_granted [OF that(2,1)] by (auto simp: moved_def eq)
next
  fix b b' :: budget and d :: u8 and n :: i64 and r :: "unit result"
  show "b' = b" if "reserve d n b = (r, b')" "r \<noteq> Ok ()"
    using that budget_ops_no_panic(1) [of d n b] budget_refused_unchanged(1) [of d n b] by (cases r) auto
  show "b' = b" if "release d n b = (r, b')" "r \<noteq> Ok ()"
    using that budget_ops_no_panic(2) [of d n b] budget_refused_unchanged(2) [of d n b] by (cases r) auto
  show "b' = b" if "spend d n b = (r, b')" "r \<noteq> Ok ()"
    using that budget_ops_no_panic(3) [of d n b] budget_refused_unchanged(3) [of d n b] by (cases r) auto
qed

lemma budget_default_wf: "budget_wf budget_default"
  by (auto simp: budget_wf_def budget_default_def DIM_COUNT_def avail_def held_def i64_max_def
      less_Suc_eq numeral_eq_Suc)

end
