(* ===== verification/CV_Ctx.thy ===== *)
theory CV_Ctx
  imports CV_Value
begin

text \<open>
  The context ring, \<open>src/src/ctx.rs\<close>: a bounded queue of segments, each a role byte followed by
  the segment's text. Nothing is evicted implicitly: a push into a full ring is refused.
\<close>

record ctx_ring =
  segments :: "bytes list"
  limit :: nat

definition ctx_new :: "nat \<Rightarrow> ctx_ring" where
  "ctx_new lim = \<lparr>segments = [], limit = max lim 1\<rparr>"

definition ctx_push :: "u8 \<Rightarrow> bytes \<Rightarrow> (ctx_ring, diag, unit) sm" where
  "ctx_push role bs r =
     (let seg = role # bs
      in if limit r \<le> length (segments r) then (fail ArenaExhausted, r)
         else (Ok (), r\<lparr>segments := segments r @ [seg]\<rparr>))"

definition pop_oldest :: "nat \<Rightarrow> (ctx_ring, diag, unit) sm" where
  "pop_oldest n r =
     (if length (segments r) < n then (fail IndexRange, r)
      else (Ok (), r\<lparr>segments := drop n (segments r)\<rparr>))"

text \<open>\<open>s[0]\<close> of an empty segment would panic.\<close>

definition window :: "ctx_ring \<Rightarrow> val list result" where
  "window r = (if [] \<in> set (segments r) then Panic
               else Ok (map (\<lambda>s. v_int (ucast (s ! 0))) (segments r)))"

definition cost :: "ctx_ring \<Rightarrow> i64" where
  "cost r = foldl (+) 0 (map (\<lambda>s. of_nat (length s)) (segments r))"

definition ctx_len :: "ctx_ring \<Rightarrow> nat" where
  "ctx_len r = length (segments r)"

declare ctx_new_def [run_defs] ctx_push_def [run_defs] pop_oldest_def [run_defs] window_def [run_defs]
  cost_def [run_defs]

section \<open>Invariant\<close>

definition ctx_wf :: "ctx_ring \<Rightarrow> bool" where
  "ctx_wf r \<longleftrightarrow> 0 < limit r \<and> length (segments r) \<le> limit r \<and> [] \<notin> set (segments r)"

lemma ctx_new_wf: "ctx_wf (ctx_new n)"
  by (simp add: ctx_wf_def ctx_new_def)

lemma ctx_ops_no_panic [simp]: "fst (ctx_push role bs r) \<noteq> Panic" "fst (pop_oldest n r) \<noteq> Panic"
  by (simp_all add: ctx_push_def pop_oldest_def Let_def)

lemma ctx_push_wf: "ctx_wf r \<Longrightarrow> ctx_push role bs r = (x, r') \<Longrightarrow> ctx_wf r'"
  by (auto simp: ctx_wf_def ctx_push_def Let_def split: if_splits)

lemma pop_oldest_wf: "ctx_wf r \<Longrightarrow> pop_oldest n r = (x, r') \<Longrightarrow> ctx_wf r'"
  by (auto simp: ctx_wf_def pop_oldest_def split: if_splits dest: in_set_dropD)

lemma window_no_panic: "ctx_wf r \<Longrightarrow> window r \<noteq> Panic"
  by (simp add: ctx_wf_def window_def)

lemma foldl_add_of_nat:
  "foldl (+) a (map (\<lambda>s. of_nat (length s)) xs) = a + of_nat (length (concat xs))"
  by (induction xs arbitrary: a) (simp_all add: add.assoc)

lemma cost_eq: "cost r = of_nat (length (concat (segments r)))"
  by (simp add: cost_def foldl_add_of_nat)

text \<open>The ring is a queue: what is dropped is what was pushed first.\<close>

lemma ctx_push_segments:
  "ctx_push role bs r = (Ok (), r') \<Longrightarrow> segments r' = segments r @ [role # bs] \<and> limit r' = limit r"
  by (auto simp: ctx_push_def Let_def split: if_splits)

lemma pop_oldest_segments:
  "pop_oldest n r = (Ok (), r') \<Longrightarrow>
     \<exists>old. length old = n \<and> segments r = old @ segments r' \<and> limit r' = limit r"
  by (auto simp: pop_oldest_def split: if_splits intro!: exI [of _ "take n (segments r)"])

end
