(* ===== verification/CV_Trap.thy ===== *)
theory CV_Trap
  imports CV_Value
begin

text \<open>The boundary between the interpreter and the host, \<open>src/src/trap.rs\<close>.\<close>

datatype trap = TrapEffect effect_id u32 "val list" | TrapOracle op | TrapYield

datatype step = Halted i64 | StepTrap trap

datatype answer = AnsValue val | AnsFail val | AnsShutdown

text \<open>\<open>Answer::into_value\<close>, \<open>src/src/replay.rs\<close>.\<close>

fun into_value :: "answer \<Rightarrow> val" where
  "into_value (AnsValue v) = v"
| "into_value (AnsFail v) = v"
| "into_value AnsShutdown = v_int 1"

end
