(* ===== verification/CV_Machine.thy ===== *)
theory CV_Machine
  imports CV_Heap CV_Frame CV_Budget CV_Ctx CV_Trap
begin

text \<open>
  The state of the machine, \<open>Vm\<close> of \<open>src/src/interp.rs\<close>, and how an operation of one of its
  parts (the innermost frame, the arena, the budget, the context ring) acts on the whole.

  \<open>src/src/image.rs\<close> is not in the repository: an \<open>image\<close> here is what its accessors
  \<open>constants\<close>, \<open>funcs\<close>, \<open>tools\<close>, \<open>code\<close> and \<open>jump_tables\<close> return, an argument of every
  definition that reads it. The fields of \<open>FuncMeta\<close> are those \<open>src/src/asm.rs\<close> fills in.
\<close>

section \<open>Images\<close>

record func_meta =
  fm_name :: bytes
  fm_code_off :: u32
  fm_code_len :: u32
  fm_maxstack :: u16
  fm_args :: u8
  fm_returns :: u8

record image =
  img_constants :: "bytes list"
  img_funcs :: "func_meta list"
  img_tools :: "bytes list"
  img_code :: bytes
  img_jump_tables :: "u32 list list"

text \<open>\<open>constants().get(i).cloned().unwrap_or_default()\<close>.\<close>

definition constant_at :: "image \<Rightarrow> u32 \<Rightarrow> bytes" where
  "constant_at im i = (case nth_get (img_constants im) (unat i) of None \<Rightarrow> [] | Some c \<Rightarrow> c)"

section \<open>The machine\<close>

record limits =
  max_steps :: u64
  max_frames :: nat
  max_arena :: nat

definition limits_default :: limits where
  "limits_default = \<lparr>max_steps = 1000000, max_frames = 256, max_arena = push_bit 20 64\<rparr>"

record vm =
  vm_image :: image
  frames :: "frame list"
  arena :: arena
  budget :: budget
  ctx :: ctx_ring
  steps :: u64
  limits :: limits
  next_effect :: u64
  fork_depth :: u32
  staged :: "arena option"
  pending :: "trap option"
  halt :: "i64 option"

text \<open>The position of the first element a predicate accepts.\<close>

fun position :: "('a \<Rightarrow> bool) \<Rightarrow> 'a list \<Rightarrow> nat option" where
  "position p [] = None"
| "position p (x # xs) = (if p x then Some 0 else map_option Suc (position p xs))"

text \<open>\<open>Vm::new\<close>; an image without functions panics at \<open>funcs()[0]\<close>.\<close>

definition vm_new :: "image \<Rightarrow> limits \<Rightarrow> vm result" where
  "vm_new im lim =
     (let entry = (case position (\<lambda>f. fm_name f = ascii ''main'') (img_funcs im) of
                     None \<Rightarrow> 0 | Some i \<Rightarrow> i)
      in case nth_get (img_funcs im) entry of
           None \<Rightarrow> Panic
         | Some f \<Rightarrow>
             Ok \<lparr>vm_image = im,
                 frames = [frame_new (of_nat entry) [] 0 (fm_maxstack f) (fm_returns f)],
                 arena = arena_new, budget = budget_default, ctx = ctx_new 64,
                 steps = 0, limits = lim, next_effect = 1, fork_depth = 0,
                 staged = None, pending = None, halt = None\<rparr>)"

lemma position_lt: "position p xs = Some i \<Longrightarrow> i < length xs"
  by (induction xs arbitrary: i) (auto split: if_splits)

section \<open>Operations on a part of the machine\<close>

text \<open>\<open>self.frames[fi]\<close> with \<open>fi\<close> the last frame.\<close>

definition on_frame :: "(frame, 'e, 'a) sm \<Rightarrow> (vm, 'e, 'a) sm" where
  "on_frame m s =
     (if frames s = [] then (Panic, s)
      else let (r, f) = m (last (frames s)) in (r, s\<lparr>frames := butlast (frames s) @ [f]\<rparr>))"

definition on_arena :: "(arena, 'e, 'a) sm \<Rightarrow> (vm, 'e, 'a) sm" where
  "on_arena m s = (let (r, a) = m (arena s) in (r, s\<lparr>arena := a\<rparr>))"

definition on_budget :: "(budget, 'e, 'a) sm \<Rightarrow> (vm, 'e, 'a) sm" where
  "on_budget m s = (let (r, b) = m (budget s) in (r, s\<lparr>budget := b\<rparr>))"

definition on_ctx :: "(ctx_ring, 'e, 'a) sm \<Rightarrow> (vm, 'e, 'a) sm" where
  "on_ctx m s = (let (r, c) = m (ctx s) in (r, s\<lparr>ctx := c\<rparr>))"

definition read_arena :: "(arena \<Rightarrow> 'a result) \<Rightarrow> (vm, diag, 'a) sm" where
  "read_arena q s = (q (arena s), s)"

text \<open>\<open>frame.pop()?.as_int()?\<close> and its kin: pop, then coerce.\<close>

definition pop_as :: "(val \<Rightarrow> 'a result) \<Rightarrow> (frame, diag, 'a) sm" where
  "pop_as coerce = sbind pop (\<lambda>v. slift (coerce v))"

text \<open>\<open>for v in values { frame.push(v)? }\<close>.\<close>

fun push_all :: "val list \<Rightarrow> (frame, diag, unit) sm" where
  "push_all [] = sret ()"
| "push_all (v # vs) = sthen (push v) (push_all vs)"

definition set_pc :: "u32 \<Rightarrow> (frame, diag, unit) sm" where
  "set_pc target = smod (\<lambda>f. f\<lparr>pc := target\<rparr>)"

declare on_frame_def [run_defs] on_arena_def [run_defs] on_budget_def [run_defs] on_ctx_def [run_defs]
  read_arena_def [run_defs] pop_as_def [run_defs] set_pc_def [run_defs]

lemma push_all_stack: "push_all vs = frame_stack.put_list vs"
  by (induction vs) simp_all

text \<open>On a machine with a frame, the operations of frames are those of the last one.\<close>

lemma on_frame_snoc [simp]:
  "frames s = fs @ [f] \<Longrightarrow> on_frame m s = (fst (m f), s\<lparr>frames := fs @ [snd (m f)]\<rparr>)"
  by (simp add: on_frame_def split: prod.split)

section \<open>Well-formed machines\<close>

text \<open>
  A frame of a machine started by \<open>vm_new\<close>: its function is in the table, and, as every
  \<open>Frame::new\<close> of the interpreter passes \<open>locals = 0\<close>, it has no slots beyond its operands.
\<close>

definition frame_ok :: "image \<Rightarrow> frame \<Rightarrow> bool" where
  "frame_ok im f \<longleftrightarrow> frame_wf f \<and> unat (func f) < length (img_funcs im) \<and> locals f = []"

text \<open>A staged arena is held exactly while a fork is open.\<close>

fun fork_wf :: "arena option \<Rightarrow> u32 \<Rightarrow> bool" where
  "fork_wf None depth \<longleftrightarrow> depth = 0"
| "fork_wf (Some a) depth \<longleftrightarrow> depth = 1 \<and> arena_wf a"

definition vm_wf :: "vm \<Rightarrow> bool" where
  "vm_wf s \<longleftrightarrow> (\<forall>f \<in> set (frames s). frame_ok (vm_image s) f) \<and>
     length (frames s) \<le> max 1 (max_frames (limits s)) \<and>
     arena_wf (arena s) \<and> budget_wf (budget s) \<and> ctx_wf (ctx s) \<and>
     fork_wf (staged s) (fork_depth s)"

text \<open>A machine with a frame to run: \<open>k\<close> is the index of the last frame.\<close>

definition vm_at :: "nat \<Rightarrow> vm \<Rightarrow> bool" where
  "vm_at k s \<longleftrightarrow> vm_wf s \<and> length (frames s) = Suc k"

definition vm_live :: "vm \<Rightarrow> bool" where
  "vm_live s \<longleftrightarrow> vm_wf s \<and> frames s \<noteq> []"

lemma vm_live_wf: "vm_live s \<Longrightarrow> vm_wf s"
  by (simp add: vm_live_def)

lemma vm_live_at: "vm_live s \<longleftrightarrow> (\<exists>k. vm_at k s)"
  by (cases "frames s") (auto simp: vm_live_def vm_at_def)

lemma vm_at_wf: "vm_at k s \<Longrightarrow> vm_wf s"
  by (simp add: vm_at_def)

lemma vm_new_live:
  assumes "vm_new im lim = Ok s"
  shows "vm_live s"
proof -
  have "arena_wf arena_new" by (simp add: arena_wf_def arena_new_def)
  moreover have "unat (of_nat n :: u32) < k" if "n < k" for n k
    using that by (metis le_less_trans unat_of_nat mod_less_eq_dividend)
  ultimately show ?thesis
    using assms
    by (auto simp: vm_new_def vm_live_def vm_wf_def frame_ok_def frame_new_facts budget_default_wf
        ctx_new_wf nth_get_def Let_def split: option.splits if_splits)
qed

lemma vm_new_sel: "vm_new im lim = Ok s \<Longrightarrow> vm_image s = im \<and> limits s = lim"
  by (auto simp: vm_new_def Let_def split: option.splits)

lemma vm_new_panic: "vm_new im lim = Panic \<longleftrightarrow> img_funcs im = []"
  by (auto simp: vm_new_def nth_get_def Let_def split: option.splits dest: position_lt)

subsection \<open>Triples of the parts\<close>

lemma triple_on_frame:
  assumes "\<And>f. frame_wf f \<Longrightarrow> fst (m f) \<noteq> Panic"
    and "\<And>f r f'. frame_wf f \<Longrightarrow> m f = (r, f') \<Longrightarrow>
      frame_wf f' \<and> func f' = func f \<and> (locals f = [] \<longrightarrow> locals f' = [])"
  shows "triple (vm_at k) (on_frame m) (\<lambda>_. vm_at k) (vm_at k)"
proof (rule tripleI)
  fix s assume "vm_at k s"
  then obtain fs f where s: "frames s = fs @ [f]" "frame_wf f"
    by (cases "frames s" rule: rev_cases) (auto simp: vm_at_def vm_wf_def frame_ok_def)
  with assms(1) show "fst (on_frame m s) \<noteq> Panic" by simp
next
  have keep: "vm_at k s'" if "vm_at k s" "on_frame m s = (r, s')" for s r s'
  proof -
    from that(1) obtain fs f where s: "frames s = fs @ [f]" "frame_wf f"
      by (cases "frames s" rule: rev_cases) (auto simp: vm_at_def vm_wf_def frame_ok_def)
    with assms(2) [of f "fst (m f)" "snd (m f)"] that show ?thesis
      by (auto simp: vm_at_def vm_wf_def frame_ok_def)
  qed
  show "vm_at k s'" if "vm_at k s" "on_frame m s = (Ok x, s')" for s x s' using keep that .
  show "vm_at k s'" if "vm_at k s" "on_frame m s = (Err e, s')" for s e s' using keep that .
qed

lemma push_no_panic: "frame_wf f \<Longrightarrow> fst (push v f) \<noteq> Panic"
  by (cases rule: push_cases [of f v]) (auto simp: fail_def)

lemma pop_no_panic: "frame_wf f \<Longrightarrow> fst (pop f) \<noteq> Panic"
  by (cases rule: pop_cases [of f]) (auto simp: fail_def)

lemma pop_n_no_panic: "frame_wf f \<Longrightarrow> fst (pop_n n f) \<noteq> Panic"
  by (cases rule: pop_n_cases [of f n]) (auto simp: fail_def)

lemma push_keeps: "frame_wf f \<Longrightarrow> push v f = (r, f') \<Longrightarrow> frame_wf f' \<and> same_frame f f'"
  by (cases rule: push_cases [of f v]) auto

lemma pop_keeps: "frame_wf f \<Longrightarrow> pop f = (r, f') \<Longrightarrow> frame_wf f' \<and> same_frame f f'"
  by (cases rule: pop_cases [of f]) auto

lemma pop_n_keeps: "frame_wf f \<Longrightarrow> pop_n n f = (r, f') \<Longrightarrow> frame_wf f' \<and> same_frame f f'"
  by (cases rule: pop_n_cases [of f n]) auto

lemma triple_same_frame:
  assumes "\<And>f. frame_wf f \<Longrightarrow> fst (m f) \<noteq> Panic"
    and "\<And>f r f'. frame_wf f \<Longrightarrow> m f = (r, f') \<Longrightarrow> frame_wf f' \<and> same_frame f f'"
  shows "triple (vm_at k) (on_frame m) (\<lambda>_. vm_at k) (vm_at k)"
proof (rule triple_on_frame)
  fix f r f' assume "frame_wf f" "m f = (r, f')"
  from assms(2) [OF this] show "frame_wf f' \<and> func f' = func f \<and> (locals f = [] \<longrightarrow> locals f' = [])"
    by (simp add: same_frame_def)
qed (rule assms(1))

lemma frame_wf_set_pc [simp]:
  "frame_wf (f\<lparr>pc := t\<rparr>) = frame_wf f" "locals (f\<lparr>pc := t\<rparr>) = locals f"
  "operands (f\<lparr>pc := t\<rparr>) = operands f"
  by (simp_all add: frame_wf_def locals_def operands_def)

lemma fst_sbind_Panic:
  "fst (sbind m k s) = Panic \<longleftrightarrow> fst (m s) = Panic \<or> (\<exists>x s'. m s = (Ok x, s') \<and> fst (k x s') = Panic)"
  by (cases "m s"; cases "fst (m s)") (auto simp: sbind_def)

lemma pop_as_no_panic:
  "frame_wf f \<Longrightarrow> (\<And>v. coerce v \<noteq> Panic) \<Longrightarrow> fst (pop_as coerce f) \<noteq> Panic"
  using pop_no_panic [of f] by (auto simp: pop_as_def fst_sbind_Panic slift_def)

lemma pop_as_keeps:
  "frame_wf f \<Longrightarrow> pop_as coerce f = (r, f') \<Longrightarrow> frame_wf f' \<and> same_frame f f'"
  using pop_keeps [of f] by (auto simp: pop_as_def sbind_def slift_def split: prod.splits res.splits)

lemma push_all_no_panic: "frame_wf f \<Longrightarrow> fst (push_all vs f) \<noteq> Panic"
proof (induction vs arbitrary: f)
  case (Cons v vs)
  with push_no_panic [of f v] push_keeps [of f v] show ?case
    by (auto simp: sthen_def fst_sbind_Panic)
qed (simp add: sret_def)

lemma push_all_keeps: "frame_wf f \<Longrightarrow> push_all vs f = (r, f') \<Longrightarrow> frame_wf f' \<and> same_frame f f'"
proof (induction vs arbitrary: f r f')
  case (Cons v vs)
  obtain r1 f1 where p: "push v f = (r1, f1)" by fastforce
  with push_keeps [OF Cons.prems(1)] have f1: "frame_wf f1" "same_frame f f1" by auto
  show ?case
  proof (cases r1)
    case (Ok x)
    with p Cons.prems(2) have "push_all vs f1 = (r, f')" by (simp add: sthen_def)
    from Cons.IH [OF f1(1) this] f1(2) show ?thesis by (auto intro: same_frame_trans)
  qed (use p f1 Cons.prems(2) in \<open>auto simp: sthen_def\<close>)
qed (simp add: sret_def)

lemma wp_push [wp]: "triple (vm_at k) (on_frame (push v)) (\<lambda>_. vm_at k) (vm_at k)"
  by (rule triple_same_frame [OF push_no_panic push_keeps])

lemma wp_pop [wp]: "triple (vm_at k) (on_frame pop) (\<lambda>_. vm_at k) (vm_at k)"
  by (rule triple_same_frame [OF pop_no_panic pop_keeps])

lemma wp_pop_n [wp]: "triple (vm_at k) (on_frame (pop_n n)) (\<lambda>_. vm_at k) (vm_at k)"
  by (rule triple_same_frame [OF pop_n_no_panic pop_n_keeps])

lemma wp_pop_as [wp]:
  "(\<And>v. coerce v \<noteq> Panic) \<Longrightarrow> triple (vm_at k) (on_frame (pop_as coerce)) (\<lambda>_. vm_at k) (vm_at k)"
  by (rule triple_same_frame [OF pop_as_no_panic pop_as_keeps])

lemma wp_push_all [wp]: "triple (vm_at k) (on_frame (push_all vs)) (\<lambda>_. vm_at k) (vm_at k)"
  by (rule triple_same_frame [OF push_all_no_panic push_all_keeps])

lemma wp_peek [wp]: "triple (vm_at k) (on_frame (peek n)) (\<lambda>_. vm_at k) (vm_at k)"
  by (rule triple_on_frame) (auto simp: peek_eq fail_def)

lemma wp_load_local [wp]: "triple (vm_at k) (on_frame (load_local n)) (\<lambda>_. vm_at k) (vm_at k)"
  by (rule triple_on_frame) (auto simp: load_local_eq fail_def)

lemma wp_store_local [wp]: "triple (vm_at k) (on_frame (store_local n v)) (\<lambda>_. vm_at k) (vm_at k)"
proof (rule triple_on_frame)
  show "fst (store_local n v f) \<noteq> Panic" if "frame_wf f" for f
    by (cases rule: store_local_cases [OF that, of n v]) (auto simp: fail_def)
  show "frame_wf f' \<and> func f' = func f \<and> (locals f = [] \<longrightarrow> locals f' = [])"
    if "frame_wf f" "store_local n v f = (r, f')" for f r f'
    by (cases rule: store_local_cases [OF that(1), of n v]) (use that in auto)
qed

lemma wp_set_pc [wp]: "triple (vm_at k) (on_frame (set_pc t)) (\<lambda>_. vm_at k) (vm_at k)"
  by (rule triple_on_frame) (auto simp: set_pc_def smod_def)

lemma triple_on_part:
  assumes "\<And>s. vm_at k s \<Longrightarrow> fst (m (get s)) \<noteq> Panic"
    and "\<And>s r x. vm_at k s \<Longrightarrow> m (get s) = (r, x) \<Longrightarrow> vm_at k (put x s)"
    and "\<And>s. act s = (let (r, x) = m (get s) in (r, put x s))"
  shows "triple (vm_at k) act (\<lambda>_. vm_at k) (vm_at k)"
proof (rule tripleI)
  fix s assume s: "vm_at k s"
  obtain r x where "m (get s) = (r, x)" by fastforce
  with assms(1) [OF s] show "fst (act s) \<noteq> Panic" by (simp add: assms(3))
next
  have keep: "vm_at k s'" if "vm_at k s" "act s = (r, s')" for s r s'
    using that assms(2) [OF that(1)] by (auto simp: assms(3) Let_def split: prod.splits)
  show "vm_at k s'" if "vm_at k s" "act s = (Ok x, s')" for s x s' using keep that .
  show "vm_at k s'" if "vm_at k s" "act s = (Err e, s')" for s e s' using keep that .
qed

lemma wp_alloc [wp]: "triple (vm_at k) (on_arena (alloc bs)) (\<lambda>_. vm_at k) (vm_at k)"
  by (rule triple_on_part [where m = "alloc bs" and get = arena and put = "\<lambda>a s. s\<lparr>arena := a\<rparr>"])
    (auto simp: on_arena_def vm_at_def vm_wf_def dest: alloc_wf)

lemma wp_alloc_list [wp]: "triple (vm_at k) (on_arena (alloc_list vs)) (\<lambda>_. vm_at k) (vm_at k)"
  using wp_alloc by (simp add: alloc_list_def [abs_def])

lemma wp_reserve [wp]: "triple (vm_at k) (on_budget (reserve d n)) (\<lambda>_. vm_at k) (vm_at k)"
proof (rule triple_on_part [where m = "reserve d n" and get = budget and put = "\<lambda>b s. s\<lparr>budget := b\<rparr>"])
  fix s r x assume s: "vm_at k s" and x: "reserve d n (budget s) = (r, x)"
  then have "budget_wf (budget s)" by (simp add: vm_at_def vm_wf_def)
  with budget_ledger.refused(1) [OF x] budget_ledger.lease_granted [of "budget s" d n x] x
  have "budget_wf x" by (cases "r = Ok ()") auto
  with s show "vm_at k (s\<lparr>budget := x\<rparr>)" by (simp add: vm_at_def vm_wf_def)
qed (auto simp: on_budget_def)

lemma wp_release [wp]: "triple (vm_at k) (on_budget (release d n)) (\<lambda>_. vm_at k) (vm_at k)"
proof (rule triple_on_part [where m = "release d n" and get = budget and put = "\<lambda>b s. s\<lparr>budget := b\<rparr>"])
  fix s r x assume s: "vm_at k s" and x: "release d n (budget s) = (r, x)"
  then have "budget_wf (budget s)" by (simp add: vm_at_def vm_wf_def)
  with budget_ledger.refused(2) [OF x] budget_ledger.give_back_granted [of "budget s" d n x] x
  have "budget_wf x" by (cases "r = Ok ()") auto
  with s show "vm_at k (s\<lparr>budget := x\<rparr>)" by (simp add: vm_at_def vm_wf_def)
qed (auto simp: on_budget_def)

lemma wp_spend [wp]: "triple (vm_at k) (on_budget (spend d n)) (\<lambda>_. vm_at k) (vm_at k)"
proof (rule triple_on_part [where m = "spend d n" and get = budget and put = "\<lambda>b s. s\<lparr>budget := b\<rparr>"])
  fix s r x assume s: "vm_at k s" and x: "spend d n (budget s) = (r, x)"
  then have "budget_wf (budget s)" by (simp add: vm_at_def vm_wf_def)
  with budget_ledger.refused(3) [OF x] budget_ledger.settle_granted [of "budget s" d n x] x
  have "budget_wf x" by (cases "r = Ok ()") auto
  with s show "vm_at k (s\<lparr>budget := x\<rparr>)" by (simp add: vm_at_def vm_wf_def)
qed (auto simp: on_budget_def)

lemma wp_ctx_push [wp]: "triple (vm_at k) (on_ctx (ctx_push role bs)) (\<lambda>_. vm_at k) (vm_at k)"
  by (rule triple_on_part [where m = "ctx_push role bs" and get = ctx and put = "\<lambda>c s. s\<lparr>ctx := c\<rparr>"])
    (auto simp: on_ctx_def vm_at_def vm_wf_def dest: ctx_push_wf)

lemma wp_pop_oldest [wp]: "triple (vm_at k) (on_ctx (pop_oldest n)) (\<lambda>_. vm_at k) (vm_at k)"
  by (rule triple_on_part [where m = "pop_oldest n" and get = ctx and put = "\<lambda>c s. s\<lparr>ctx := c\<rparr>"])
    (auto simp: on_ctx_def vm_at_def vm_wf_def dest: pop_oldest_wf)

lemma wp_read_arena [wp]:
  "(\<And>a. q a \<noteq> Panic) \<Longrightarrow> triple (vm_at k) (read_arena q) (\<lambda>_. vm_at k) (vm_at k)"
  by (rule tripleI) (auto simp: read_arena_def)

lemma wp_slift [wp]: "r \<noteq> Panic \<Longrightarrow> triple (vm_at k) (slift r) (\<lambda>_. vm_at k) (vm_at k)"
  by (rule triple_slift) auto

lemma wp_sret [wp]: "triple (vm_at k) (sret x) (\<lambda>_. vm_at k) (vm_at k)"
  by (rule triple_sret)

lemma wp_sget [wp]: "triple (vm_at k) (sget f) (\<lambda>_. vm_at k) (vm_at k)"
  by (rule triple_sget)

lemma wp_sfail [wp]: "triple (vm_at k) (sfail e) (\<lambda>_. vm_at k) (vm_at k)"
  by (rule triple_sfail)

end
