(* ===== verification/CV_Cfg.thy ===== *)
theory CV_Cfg
  imports CV_Machine
begin

text \<open>
  The control-flow graph of one function, \<open>src/src/cfg.rs\<close>: linear decoding of its code range,
  the successors of an instruction, basic blocks, reverse postorder, iterative dominators, back
  edges.

  Instruction indices, block ids and positions are \<open>nat\<close> here and \<open>u32\<close> in the code: a function's
  section is shorter than \<open>2 ^ 32\<close> bytes and an instruction takes at least four, so they stay below
  \<open>2 ^ 30\<close> and below the sentinel \<open>UNDEF\<close> (proved with the facts on \<open>decode_range\<close>). The loops of
  \<open>dominators\<close>, \<open>intersect\<close> and \<open>dominates\<close> follow stored indices and need not end on arbitrary
  arrays: they are \<open>partial_function (option)\<close>, with \<open>None\<close> for a loop that does not end.
\<close>

section \<open>Data\<close>

definition UNDEF :: nat where
  "UNDEF = 0xFFFFFFFF"

record block =
  b_start :: nat
  b_end :: nat
  b_succs :: "nat list"
  b_preds :: "nat list"

record cfg =
  c_insns :: "decoded list"
  c_offsets :: "u32 list"
  c_blocks :: "block list"
  c_owner :: "nat list"
  c_rpo :: "nat list"
  c_rpo_num :: "nat list"
  c_idoms :: "nat list"
  c_back_edges :: "(nat \<times> nat) list"

definition bad :: "code \<Rightarrow> nat \<Rightarrow> 'a result" where
  "bad c i = Err (at_pc (diag_new c) (of_nat i))"

lemma bad_not_Ok [simp]: "bad c i \<noteq> Ok x" "bad c i \<noteq> Panic" "Ok x \<noteq> bad c i" "Panic \<noteq> bad c i"
  by (simp_all add: bad_def)

section \<open>Decoding a range\<close>

lemma decode_len:
  assumes "decode code off = Some d"
  shows "d_len d = 4 \<and> off + 4 \<le> length code \<or> d_len d = 8 \<and> off + 8 \<le> length code"
  using assms unfolding decode_def
  by (auto simp: Option.bind_eq_Some_conv Let_def slice_get_def INSN_LEN_def split: if_splits)

function decode_from ::
    "bytes \<Rightarrow> nat \<Rightarrow> nat \<Rightarrow> decoded list \<Rightarrow> u32 list \<Rightarrow> (decoded list \<times> u32 list) result" where
  "decode_from body lo off insns offsets =
     (if off < length body then
        (case decode body off of
           None \<Rightarrow>
             (let need = (if body ! off = WIDE_PREFIX then 2 * INSN_LEN else INSN_LEN)
              in if length body < off + need then bad MisalignedInsn (length insns)
                 else bad UnassignedOpcode (length insns))
         | Some d \<Rightarrow>
             decode_from body lo (off + unat (d_len d)) (insns @ [d]) (offsets @ [of_nat (lo + off)]))
      else Ok (insns, offsets))"
  by pat_completeness auto
termination
  by (relation "measure (\<lambda>(body, lo, off, _). length body - off)") (auto dest!: decode_len)

declare decode_from.simps [simp del]

definition decode_range :: "bytes \<Rightarrow> func_meta \<Rightarrow> (decoded list \<times> u32 list) result" where
  "decode_range code f =
     (let lo = unat (fm_code_off f); hi = lo + unat (fm_code_len f)
      in case slice_get code lo hi of
           None \<Rightarrow> fail TruncatedSection
         | Some body \<Rightarrow> decode_from body lo 0 [] [])"

section \<open>Successors of an instruction\<close>

definition check_target :: "nat \<Rightarrow> nat \<Rightarrow> nat \<Rightarrow> nat result" where
  "check_target n i t = (if t < n then Ok t else bad BadTarget i)"

definition raw_succs :: "decoded list \<Rightarrow> u32 list list \<Rightarrow> nat \<Rightarrow> nat list result" where
  "raw_succs insns jump_tables i = (case nth_get insns i of
     None \<Rightarrow> Panic
   | Some d \<Rightarrow>
       (let check = check_target (length insns) i; nxt = i + 1 in
        if d_op d = OpBr then rbind (check (unat (d_b d))) (\<lambda>t. Ok [t])
        else if d_op d = OpBrz \<or> d_op d = OpBrnz then
          rbind (check (unat (d_b d))) (\<lambda>t. rbind (check nxt) (\<lambda>u. Ok [t, u]))
        else if d_op d = OpSwitch then
          (case nth_get jump_tables (unat (d_b d)) of
             None \<Rightarrow> bad DanglingIndex i
           | Some table \<Rightarrow>
               if table = [] then bad SwitchNoDefault i else collect_res (\<lambda>t. check (unat t)) table)
        else if \<not> falls_through (insn (d_op d)) then Ok []
        else rbind (check nxt) (\<lambda>t. Ok [t])))"

section \<open>Blocks\<close>

text \<open>Pass 1: validate every edge and mark the leaders.\<close>

fun mark_leaders :: "decoded list \<Rightarrow> u32 list list \<Rightarrow> nat list \<Rightarrow> bool list \<Rightarrow> bool list result" where
  "mark_leaders insns jump_tables [] leader = Ok leader"
| "mark_leaders insns jump_tables (i # is) leader =
     rbind (raw_succs insns jump_tables i) (\<lambda>succs.
       if falls_through (insn (d_op (insns ! i))) \<and> succs = [i + 1]
       then mark_leaders insns jump_tables is leader
       else let marked = foldl (\<lambda>l s. l[s := True]) leader succs
            in mark_leaders insns jump_tables is
                 (if i + 1 < length insns then marked[i + 1 := True] else marked))"

definition leaders :: "decoded list \<Rightarrow> u32 list list \<Rightarrow> bool list result" where
  "leaders insns jump_tables =
     mark_leaders insns jump_tables [0..<length insns] ((replicate (length insns) False)[0 := True])"

definition starts_of :: "bool list \<Rightarrow> nat list" where
  "starts_of leader = filter (\<lambda>i. leader ! i) [0..<length leader]"

definition block_end :: "nat list \<Rightarrow> nat \<Rightarrow> nat \<Rightarrow> nat" where
  "block_end starts n bid = (case nth_get starts (bid + 1) of None \<Rightarrow> n | Some e \<Rightarrow> e)"

text \<open>Assigning \<open>v\<close> to every slot of \<open>xs[lo..hi]\<close>; the starts ascend, so the range is never
  refused.\<close>

definition fill :: "nat \<Rightarrow> nat \<Rightarrow> 'a \<Rightarrow> 'a list \<Rightarrow> 'a list" where
  "fill lo hi v xs = take lo xs @ replicate (hi - lo) v @ drop hi xs"

definition owners :: "nat list \<Rightarrow> nat \<Rightarrow> nat list" where
  "owners starts n =
     foldl (\<lambda>ow bid. fill (starts ! bid) (block_end starts n bid) bid ow) (replicate n 0)
       [0..<length starts]"

definition bare_blocks :: "nat list \<Rightarrow> nat \<Rightarrow> block list" where
  "bare_blocks starts n =
     map (\<lambda>bid. \<lparr>b_start = starts ! bid, b_end = block_end starts n bid, b_succs = [], b_preds = []\<rparr>)
       [0..<length starts]"

text \<open>Pass 2: the terminator's successors, as blocks; then the predecessors.\<close>

definition add_new :: "'a list \<Rightarrow> 'a \<Rightarrow> 'a list" where
  "add_new xs x = (if x \<in> set xs then xs else xs @ [x])"

definition block_succs :: "decoded list \<Rightarrow> u32 list list \<Rightarrow> nat list \<Rightarrow> block \<Rightarrow> block result" where
  "block_succs insns jump_tables owner b =
     rbind (raw_succs insns jump_tables (b_end b - 1)) (\<lambda>succs.
       Ok (b\<lparr>b_succs := foldl (\<lambda>acc s. add_new acc (owner ! s)) [] succs\<rparr>))"

definition add_pred :: "nat \<Rightarrow> block list \<Rightarrow> nat \<Rightarrow> block list" where
  "add_pred me blocks s = blocks[s := (blocks ! s)\<lparr>b_preds := add_new (b_preds (blocks ! s)) me\<rparr>]"

definition link_preds :: "block list \<Rightarrow> block list" where
  "link_preds blocks =
     foldl (\<lambda>bs me. foldl (add_pred me) bs (b_succs (bs ! me))) blocks [0..<length blocks]"

definition partition_blocks ::
    "decoded list \<Rightarrow> u32 list list \<Rightarrow> (block list \<times> nat list) result" where
  "partition_blocks insns jump_tables =
     rbind (leaders insns jump_tables) (\<lambda>leader.
       let starts = starts_of leader; n = length insns; owner = owners starts n
       in rbind (collect_res (block_succs insns jump_tables owner) (bare_blocks starts n)) (\<lambda>blocks.
            Ok (link_preds blocks, owner)))"

section \<open>Reverse postorder\<close>

text \<open>The explicit stack has its top at the head of the list.\<close>

lemma unseen_update:
  "s < length seen \<Longrightarrow> \<not> seen ! s \<Longrightarrow> count_list (seen[s := True]) False < count_list seen False"
proof (induction seen arbitrary: s)
  case (Cons x xs)
  then show ?case by (cases s) auto
qed simp

function postorder :: "block list \<Rightarrow> bool list \<Rightarrow> nat list \<Rightarrow> (nat \<times> nat) list \<Rightarrow> nat list result" where
  "postorder blocks seen post [] = Ok post"
| "postorder blocks seen post ((b, k) # stack) =
     (case nth_get blocks b of
        None \<Rightarrow> Panic
      | Some blk \<Rightarrow>
          (case nth_get (b_succs blk) k of
             None \<Rightarrow> postorder blocks seen (post @ [b]) stack
           | Some s \<Rightarrow>
               (case nth_get seen s of
                  None \<Rightarrow> Panic
                | Some True \<Rightarrow> postorder blocks seen post ((b, k + 1) # stack)
                | Some False \<Rightarrow>
                    postorder blocks (seen[s := True]) post ((s, 0) # (b, k + 1) # stack))))"
  by pat_completeness auto

termination
proof (relation "measures [\<lambda>(blocks, seen, post, stack). count_list seen False,
     \<lambda>(blocks, seen, post, stack). \<Sum>(b, k) \<leftarrow> stack. Suc (length (b_succs (blocks ! b)) - k)]")
qed (auto simp: nth_get_def unseen_update split: if_splits)

declare postorder.simps(2) [simp del]

definition reverse_postorder :: "block list \<Rightarrow> nat list result" where
  "reverse_postorder blocks =
     (if blocks = [] then Ok []
      else rbind (postorder blocks ((replicate (length blocks) False)[0 := True]) [] [(0, 0)])
             (\<lambda>post. Ok (rev post)))"

definition rpo_numbers :: "nat \<Rightarrow> nat list \<Rightarrow> nat list" where
  "rpo_numbers n rpo = foldl (\<lambda>num pos. num[rpo ! pos := pos]) (replicate n UNDEF) [0..<length rpo]"

section \<open>Dominators\<close>

text \<open>Sequencing for loops that may not end (\<open>None\<close>) or may panic.\<close>

fun obind :: "'a result option \<Rightarrow> ('a \<Rightarrow> 'b result option) \<Rightarrow> 'b result option" where
  "obind None f = None"
| "obind (Some (Ok x)) f = f x"
| "obind (Some (Err e)) f = Some (Err e)"
| "obind (Some Panic) f = Some Panic"

text \<open>\<open>while rpo_num[a] > rpo_num[b] { a = idom[a]; }\<close>\<close>

partial_function (option) climb :: "nat list \<Rightarrow> nat list \<Rightarrow> nat \<Rightarrow> nat \<Rightarrow> nat result option" where
  "climb idom num a b = (case nth_get num a of
     None \<Rightarrow> Some Panic
   | Some na \<Rightarrow> (case nth_get num b of
       None \<Rightarrow> Some Panic
     | Some nb \<Rightarrow>
         if nb < na then (case nth_get idom a of None \<Rightarrow> Some Panic | Some a' \<Rightarrow> climb idom num a' b)
         else Some (Ok a)))"

partial_function (option) intersect :: "nat list \<Rightarrow> nat list \<Rightarrow> nat \<Rightarrow> nat \<Rightarrow> nat result option" where
  "intersect idom num a b =
     (if a = b then Some (Ok a)
      else case climb idom num a b of
             Some (Ok a') \<Rightarrow>
               (case climb idom num b a' of
                  Some (Ok b') \<Rightarrow> intersect idom num a' b'
                | r \<Rightarrow> r)
           | r \<Rightarrow> r)"

fun meet_preds :: "nat list \<Rightarrow> nat list \<Rightarrow> nat list \<Rightarrow> nat \<Rightarrow> nat result option" where
  "meet_preds idom num [] acc = Some (Ok acc)"
| "meet_preds idom num (p # ps) acc =
     (case (nth_get num p, nth_get idom p) of
        (Some np, Some ip) \<Rightarrow>
          if np = UNDEF \<or> ip = UNDEF then meet_preds idom num ps acc
          else if acc = UNDEF then meet_preds idom num ps p
          else obind (intersect idom num p acc) (meet_preds idom num ps)
      | _ \<Rightarrow> Some Panic)"

fun sweep :: "block list \<Rightarrow> nat list \<Rightarrow> nat list \<Rightarrow> nat list \<Rightarrow> bool \<Rightarrow> (nat list \<times> bool) result option" where
  "sweep blocks num [] idom changed = Some (Ok (idom, changed))"
| "sweep blocks num (b # bs) idom changed =
     (case nth_get blocks b of
        None \<Rightarrow> Some Panic
      | Some blk \<Rightarrow> obind (meet_preds idom num (b_preds blk) UNDEF) (\<lambda>new.
          if new \<noteq> UNDEF \<and> idom ! b \<noteq> new
          then sweep blocks num bs (idom[b := new]) True
          else sweep blocks num bs idom changed))"

partial_function (option) dom_loop ::
    "block list \<Rightarrow> nat list \<Rightarrow> nat list \<Rightarrow> nat list \<Rightarrow> nat list result option" where
  "dom_loop blocks rpo num idom = (case sweep blocks num (drop 1 rpo) idom False of
     Some (Ok (idom', changed)) \<Rightarrow>
       if changed then dom_loop blocks rpo num idom' else Some (Ok idom')
   | Some (Err e) \<Rightarrow> Some (Err e)
   | Some Panic \<Rightarrow> Some Panic
   | None \<Rightarrow> None)"

definition dominators :: "block list \<Rightarrow> nat list \<Rightarrow> nat list \<Rightarrow> nat list result option" where
  "dominators blocks rpo num =
     (let idom = replicate (length blocks) UNDEF
      in case rpo of [] \<Rightarrow> Some (Ok idom) | r # _ \<Rightarrow> dom_loop blocks rpo num (idom[r := r]))"

section \<open>The graph and its queries\<close>

definition block_of :: "cfg \<Rightarrow> nat \<Rightarrow> nat option" where
  "block_of c i = nth_get (c_owner c) i"

definition idom :: "cfg \<Rightarrow> nat \<Rightarrow> nat option" where
  "idom c b = (case nth_get (c_idoms c) b of
     Some d \<Rightarrow> if d \<noteq> UNDEF \<and> d \<noteq> b then Some d else None
   | None \<Rightarrow> None)"

partial_function (option) on_chain :: "cfg \<Rightarrow> nat \<Rightarrow> nat \<Rightarrow> bool option" where
  "on_chain c a cur =
     (if cur = a then Some True
      else case idom c cur of Some up \<Rightarrow> on_chain c a up | None \<Rightarrow> Some False)"

definition dominates :: "cfg \<Rightarrow> nat \<Rightarrow> nat \<Rightarrow> bool option" where
  "dominates c a b =
     (if length (c_blocks c) \<le> a \<or> length (c_blocks c) \<le> b then Some False
      else if c_rpo_num c ! a = UNDEF \<or> c_rpo_num c ! b = UNDEF then Some False
      else on_chain c a b)"

text \<open>The two nested loops of \<open>find_back_edges\<close>, in order.\<close>

fun edges_dominated :: "cfg \<Rightarrow> (nat \<times> nat) list \<Rightarrow> (nat \<times> nat) list option" where
  "edges_dominated c [] = Some []"
| "edges_dominated c ((tail, h) # es) =
     Option.bind (dominates c h tail) (\<lambda>y. Option.bind (edges_dominated c es) (\<lambda>out.
       Some (if y then (tail, h) # out else out)))"

definition find_back_edges :: "cfg \<Rightarrow> (nat \<times> nat) list option" where
  "find_back_edges c =
     edges_dominated c
       (concat (map (\<lambda>t. if c_rpo_num c ! t = UNDEF then []
          else map (Pair t) (b_succs (c_blocks c ! t))) [0..<length (c_blocks c)]))"

definition unreachable :: "cfg \<Rightarrow> nat list" where
  "unreachable c = filter (\<lambda>b. c_rpo_num c ! b = UNDEF) [0..<length (c_rpo_num c)]"

definition insn_at :: "cfg \<Rightarrow> nat \<Rightarrow> decoded result" where
  "insn_at c i = (case nth_get (c_insns c) i of None \<Rightarrow> Panic | Some d \<Rightarrow> Ok d)"

definition byte_offset :: "cfg \<Rightarrow> nat \<Rightarrow> u32 result" where
  "byte_offset c i = (case nth_get (c_offsets c) i of None \<Rightarrow> Panic | Some off \<Rightarrow> Ok off)"

text \<open>\<open>binary_search\<close> over the ascending offsets finds the one position that holds \<open>off\<close>.\<close>

definition index_at_byte :: "cfg \<Rightarrow> u32 \<Rightarrow> nat option" where
  "index_at_byte c off = position (\<lambda>at. at = off) (c_offsets c)"

definition build :: "bytes \<Rightarrow> func_meta \<Rightarrow> u32 list list \<Rightarrow> cfg result option" where
  "build code f jump_tables =
     obind (Some (decode_range code f)) (\<lambda>(insns, offsets).
     obind (Some (partition_blocks insns jump_tables)) (\<lambda>(blocks, owner).
     obind (Some (reverse_postorder blocks)) (\<lambda>rpo.
       let num = rpo_numbers (length blocks) rpo
       in obind (dominators blocks rpo num) (\<lambda>idoms.
            let c = \<lparr>c_insns = insns, c_offsets = offsets, c_blocks = blocks, c_owner = owner,
                     c_rpo = rpo, c_rpo_num = num, c_idoms = idoms, c_back_edges = []\<rparr>
            in Option.bind (find_back_edges c) (\<lambda>es. Some (Ok (c\<lparr>c_back_edges := es\<rparr>)))))))"

declare climb.simps [code] intersect.simps [code] dom_loop.simps [code] on_chain.simps [code]

end
