(* ===== verification/CV_Graph.thy ===== *)
theory CV_Graph
  imports Main
begin

text \<open>
  Rooted directed graphs: walks, reachability and dominance as the textbooks define them. What
  \<open>src/src/cfg.rs\<close> computes is compared with these definitions.
\<close>

text \<open>A walk is a non-empty list of nodes each joined to the next.\<close>

fun walk :: "('n \<Rightarrow> 'n \<Rightarrow> bool) \<Rightarrow> 'n list \<Rightarrow> bool" where
  "walk E [] = False"
| "walk E [x] = True"
| "walk E (x # y # xs) = (E x y \<and> walk E (y # xs))"

definition reaches :: "('n \<Rightarrow> 'n \<Rightarrow> bool) \<Rightarrow> 'n \<Rightarrow> 'n \<Rightarrow> bool" where
  "reaches E r b \<longleftrightarrow> (\<exists>ps. walk E ps \<and> hd ps = r \<and> last ps = b)"

text \<open>\<open>a\<close> dominates \<open>b\<close>: \<open>b\<close> can be reached from the root, and every walk to it passes \<open>a\<close>.\<close>

definition on_every_walk :: "('n \<Rightarrow> 'n \<Rightarrow> bool) \<Rightarrow> 'n \<Rightarrow> 'n \<Rightarrow> 'n \<Rightarrow> bool" where
  "on_every_walk E r a b \<longleftrightarrow> reaches E r b \<and>
     (\<forall>ps. walk E ps \<and> hd ps = r \<and> last ps = b \<longrightarrow> a \<in> set ps)"

lemma walk_ne [simp]: "walk E ps \<Longrightarrow> ps \<noteq> []"
  by auto

lemma walk_snoc:
  assumes "walk E ps" and "E (last ps) c"
  shows "walk E (ps @ [c])"
  using assms by (induction E ps rule: walk.induct) auto

lemma walk_join:
  assumes "walk E ps" and "walk E qs" and "last ps = hd qs"
  shows "walk E (ps @ tl qs) \<and> hd (ps @ tl qs) = hd ps \<and> last (ps @ tl qs) = last qs"
proof -
  have "walk E (ps @ tl qs)" using assms
  proof (induction E ps rule: walk.induct)
    case (2 E x)
    then show ?case by (cases qs) auto
  qed auto
  moreover have "ps \<noteq> []" "qs \<noteq> []" using assms by auto
  ultimately show ?thesis using assms(3) by (cases qs) (auto simp: last_append)
qed

lemma walk_take:
  "walk E ps \<Longrightarrow> i < length ps \<Longrightarrow> walk E (take (Suc i) ps)"
proof (induction E ps arbitrary: i rule: walk.induct)
  case (3 E x y xs)
  then show ?case by (cases i) auto
qed auto

lemma walk_butlast:
  assumes "walk E ps" and "1 < length ps"
  shows "walk E (butlast ps) \<and> hd (butlast ps) = hd ps \<and> E (last (butlast ps)) (last ps)"
  using assms
proof (induction E ps rule: walk.induct)
  case (3 E x y xs)
  then show ?case by (cases xs) auto
qed auto

lemma reaches_refl [intro]: "reaches E r r"
  unfolding reaches_def by (intro exI [of _ "[r]"]) simp

lemma reaches_step [intro]: "reaches E r b \<Longrightarrow> E b c \<Longrightarrow> reaches E r c"
  unfolding reaches_def by (metis walk_snoc hd_append2 last_snoc walk_ne)

lemma reaches_induct [consumes 1, case_names root step]:
  assumes "reaches E r b" and "P r"
    and "\<And>b c. reaches E r b \<Longrightarrow> P b \<Longrightarrow> E b c \<Longrightarrow> P c"
  shows "P b"
proof -
  have "walk E ps \<Longrightarrow> hd ps = r \<Longrightarrow> P (last ps)" for ps
  proof (induction "length ps" arbitrary: ps rule: less_induct)
    case less
    show ?case
    proof (cases "1 < length ps")
      case True
      with walk_butlast [OF less.prems(1) True] less show ?thesis
        by (metis assms(3) length_butlast diff_less reaches_def zero_less_one less_trans)
    next
      case False
      with less.prems show ?thesis using assms(2) by (cases ps) auto
    qed
  qed
  with assms(1) show ?thesis unfolding reaches_def by auto
qed

lemma dom_refl: "reaches E r b \<Longrightarrow> on_every_walk E r b b"
  by (auto simp: on_every_walk_def intro: last_in_set)

lemma dom_reaches: "on_every_walk E r a b \<Longrightarrow> reaches E r b"
  by (simp add: on_every_walk_def)

lemma dom_root: "on_every_walk E r a r \<Longrightarrow> a = r"
  by (auto simp: on_every_walk_def dest: spec [of _ "[r]"])

text \<open>A strict dominator dominates every reachable predecessor.\<close>

lemma dom_pred:
  assumes "on_every_walk E r a b" and "a \<noteq> b" and "E p b" and "reaches E r p"
  shows "on_every_walk E r a p"
  unfolding on_every_walk_def
proof (intro conjI allI impI)
  fix ps assume ps: "walk E ps \<and> hd ps = r \<and> last ps = p"
  then have "walk E (ps @ [b])" "hd (ps @ [b]) = r" using assms(3) walk_snoc by auto
  with assms(1) have "a \<in> set (ps @ [b])" unfolding on_every_walk_def by (metis last_snoc)
  with assms(2) show "a \<in> set ps" by simp
qed fact

text \<open>A walk from \<open>e\<close> to \<open>c\<close> that avoids \<open>a\<close> passes the dominance of \<open>a\<close> on from \<open>c\<close> to \<open>e\<close>.\<close>

lemma dom_back:
  assumes "on_every_walk E r a c" and "reaches E r e"
    and "walk E qs" and "hd qs = e" and "last qs = c" and "a \<notin> set qs"
  shows "on_every_walk E r a e"
  unfolding on_every_walk_def
proof (intro conjI allI impI)
  fix ps assume ps: "walk E ps \<and> hd ps = r \<and> last ps = e"
  with assms walk_join [of E ps qs] have "a \<in> set (ps @ tl qs)"
    unfolding on_every_walk_def by metis
  with assms(6) show "a \<in> set ps" by (cases qs) auto
qed fact

end
