(* ===== verification/CV_Rpo.thy ===== *)
theory CV_Rpo
  imports CV_Cfg CV_Graph
begin

text \<open>
  The reverse postorder of \<open>src/src/cfg.rs\<close>: the search ends without a panic on every list of
  blocks whose successors are block ids, lists exactly the blocks reachable from block 0, each
  once and block 0 first, and puts before every other block one of its predecessors.
\<close>

section \<open>The graph of a list of blocks\<close>

definition edge :: "block list \<Rightarrow> nat \<Rightarrow> nat \<Rightarrow> bool" where
  "edge blocks u v \<longleftrightarrow> u < length blocks \<and> v \<in> set (b_succs (blocks ! u))"

definition succs_ok :: "block list \<Rightarrow> bool" where
  "succs_ok blocks \<longleftrightarrow> (\<forall>u v. edge blocks u v \<longrightarrow> v < length blocks)"

lemma reachable_in_range:
  "reaches (edge blocks) 0 b \<Longrightarrow> succs_ok blocks \<Longrightarrow> blocks \<noteq> [] \<Longrightarrow> b < length blocks"
  by (induction rule: reaches_induct) (auto simp: succs_ok_def)

section \<open>Positions in a list\<close>

text \<open>\<open>v\<close> stands before \<open>u\<close>.\<close>

definition before :: "'a list \<Rightarrow> 'a \<Rightarrow> 'a \<Rightarrow> bool" where
  "before xs v u \<longleftrightarrow> (\<exists>i j. i < j \<and> j < length xs \<and> xs ! i = v \<and> xs ! j = u)"

lemma before_insert: "before (xs @ ys) v u \<Longrightarrow> before (xs @ s # ys) v u"
  unfolding before_def
proof (elim exE conjE)
  fix i j assume ij: "i < j" "j < length (xs @ ys)" "(xs @ ys) ! i = v" "(xs @ ys) ! j = u"
  let ?m = "\<lambda>i. if i < length xs then i else Suc i"
  have "(xs @ s # ys) ! ?m k = (xs @ ys) ! k" for k
    by (simp add: nth_append Suc_diff_le)
  then show "\<exists>i j. i < j \<and> j < length (xs @ s # ys) \<and> (xs @ s # ys) ! i = v \<and> (xs @ s # ys) ! j = u"
    using ij by (intro exI [of _ "?m i"] exI [of _ "?m j"]) auto
qed

lemma before_inserted: "before (xs @ s # b # ys) s b"
  unfolding before_def
  by (intro exI [of _ "length xs"] exI [of _ "Suc (length xs)"]) (simp add: nth_append)

lemma before_rev: "before xs v u \<Longrightarrow> before (rev xs) u v"
  unfolding before_def
proof (elim exE conjE)
  fix i j assume ij: "i < j" "j < length xs" "xs ! i = v" "xs ! j = u"
  then show "\<exists>i j. i < j \<and> j < length (rev xs) \<and> rev xs ! i = u \<and> rev xs ! j = v"
    by (intro exI [of _ "length xs - Suc j"] exI [of _ "length xs - Suc i"]) (auto simp: rev_nth)
qed

section \<open>The search\<close>

text \<open>
  The nodes in the order in which they will have been posted, \<open>post\<close> and then the stack from its
  top, change only by insertion of a newly seen node in front of the one it was seen from.
\<close>

definition queued :: "nat list \<Rightarrow> (nat \<times> nat) list \<Rightarrow> nat list" where
  "queued post stack = post @ map fst stack"

definition queue_ok :: "block list \<Rightarrow> bool list \<Rightarrow> nat list \<Rightarrow> bool" where
  "queue_ok blocks seen q \<longleftrightarrow>
     length seen = length blocks \<and> distinct q \<and> q \<noteq> [] \<and> last q = 0 \<and>
     (\<forall>v<length blocks. seen ! v \<longleftrightarrow> v \<in> set q) \<and>
     (\<forall>v\<in>set q. v < length blocks \<and> reaches (edge blocks) 0 v \<and>
        (v = 0 \<or> (\<exists>u. edge blocks u v \<and> before q v u)))"

definition search_ok :: "block list \<Rightarrow> bool list \<Rightarrow> nat list \<Rightarrow> (nat \<times> nat) list \<Rightarrow> bool" where
  "search_ok blocks seen post stack \<longleftrightarrow>
     queue_ok blocks seen (queued post stack) \<and>
     (\<forall>v\<in>set post. \<forall>s. edge blocks v s \<longrightarrow> s \<in> set (queued post stack)) \<and>
     (\<forall>(b, k)\<in>set stack. \<forall>s\<in>set (take k (b_succs (blocks ! b))). s \<in> set (queued post stack))"

lemma queue_ok_insert:
  assumes "queue_ok blocks seen (post @ b # rest)" and "s < length blocks" and "\<not> seen ! s"
    and "edge blocks b s"
  shows "queue_ok blocks (seen[s := True]) (post @ s # b # rest)"
proof -
  have new: "s \<notin> set (post @ b # rest)" and b: "reaches (edge blocks) 0 b"
    using assms(1-3) by (auto simp: queue_ok_def)
  have one: "v < length blocks \<and> reaches (edge blocks) 0 v \<and>
      (v = 0 \<or> (\<exists>u. edge blocks u v \<and> before (post @ s # b # rest) v u))"
    if v: "v \<in> set (post @ s # b # rest)" for v
  proof (cases "v = s")
    case True
    then show ?thesis using assms(2,4) b before_inserted [of post s b rest] by blast
  next
    case False
    with v have "v \<in> set (post @ b # rest)" by auto
    with assms(1) have "v < length blocks" "reaches (edge blocks) 0 v"
      "v = 0 \<or> (\<exists>u. edge blocks u v \<and> before (post @ b # rest) v u)"
      unfolding queue_ok_def by blast+
    then show ?thesis using before_insert [of post "b # rest" v _ s] by blast
  qed
  have "length (seen[s := True]) = length blocks" "distinct (post @ s # b # rest)"
    "last (post @ s # b # rest) = 0" "\<forall>v<length blocks. seen[s := True] ! v \<longleftrightarrow> v \<in> set (post @ s # b # rest)"
    using assms(1,2) new by (auto simp: queue_ok_def nth_list_update)
  with one show ?thesis unfolding queue_ok_def by simp
qed

lemma search_post:
  assumes "search_ok blocks seen post ((b, k) # stack)" and "length (b_succs (blocks ! b)) \<le> k"
  shows "search_ok blocks seen (post @ [b]) stack"
  using assms by (auto simp: search_ok_def queued_def edge_def)

lemma search_skip:
  assumes "search_ok blocks seen post ((b, k) # stack)" and "k < length (b_succs (blocks ! b))"
    and "seen ! (b_succs (blocks ! b) ! k)" and "b_succs (blocks ! b) ! k < length blocks"
  shows "search_ok blocks seen post ((b, k + 1) # stack)"
  using assms by (auto simp: search_ok_def queued_def queue_ok_def take_Suc_conv_app_nth)

lemma search_push:
  assumes ok: "search_ok blocks seen post ((b, k) # stack)" and k: "k < length (b_succs (blocks ! b))"
    and s: "s = b_succs (blocks ! b) ! k" "\<not> seen ! s" "s < length blocks"
  shows "search_ok blocks (seen[s := True]) post ((s, 0) # (b, k + 1) # stack)"
proof -
  have q: "queue_ok blocks seen (post @ b # map fst stack)"
    using ok by (simp add: search_ok_def queued_def)
  then have "b < length blocks" by (simp add: queue_ok_def)
  then have "edge blocks b s" using k s(1) by (simp add: edge_def)
  from queue_ok_insert [OF q s(3,2) this] show ?thesis
    using ok k s(1) by (auto simp: search_ok_def queued_def take_Suc_conv_app_nth)
qed

lemma postorder_runs:
  assumes "succs_ok blocks" and "search_ok blocks seen post stack"
  shows "\<exists>seen' post'. postorder blocks seen post stack = Ok post' \<and> search_ok blocks seen' post' []"
  using assms
proof (induction blocks seen post stack rule: postorder.induct)
  case (2 blocks seen post b k stack)
  have b: "b < length blocks" and len: "length seen = length blocks"
    using 2(5) by (auto simp: search_ok_def queue_ok_def queued_def)
  note step = postorder.simps(2) [of blocks seen post b k stack]
  have blk: "nth_get blocks b = Some (blocks ! b)" using b by (simp add: nth_get_def)
  show ?case
  proof (cases "k < length (b_succs (blocks ! b))")
    case False
    then have none: "nth_get (b_succs (blocks ! b)) k = None" by (simp add: nth_get_def)
    from 2(1) [OF blk none 2(4)] search_post [OF 2(5)] False show ?thesis
      by (simp add: step blk none)
  next
    case True
    define s where "s = b_succs (blocks ! b) ! k"
    have some: "nth_get (b_succs (blocks ! b)) k = Some s" using True by (simp add: nth_get_def s_def)
    have "edge blocks b s" using b True by (simp add: edge_def s_def)
    then have s: "s < length blocks" using 2(4) by (auto simp: succs_ok_def)
    then have get: "nth_get seen s = Some (seen ! s)" by (simp add: nth_get_def len)
    show ?thesis
    proof (cases "seen ! s")
      case True
      with get have g: "nth_get seen s = Some True" by simp
      have "search_ok blocks seen post ((b, k + 1) # stack)"
        using search_skip [OF 2(5) \<open>k < _\<close>] True s by (simp add: s_def)
      from 2(2) [OF blk some g _ 2(4) this] show ?thesis by (simp add: step blk some g)
    next
      case False
      with get have g: "nth_get seen s = Some False" by simp
      from 2(3) [OF blk some g _ 2(4)] search_push [OF 2(5) \<open>k < _\<close> s_def False s] show ?thesis
        by (simp add: step blk some g)
    qed
  qed
qed auto

section \<open>The order\<close>

definition rpo_ok :: "block list \<Rightarrow> nat list \<Rightarrow> bool" where
  "rpo_ok blocks rpo \<longleftrightarrow> distinct rpo \<and> rpo \<noteq> [] \<and> hd rpo = 0 \<and>
     (\<forall>v. v \<in> set rpo \<longleftrightarrow> reaches (edge blocks) 0 v) \<and>
     (\<forall>v\<in>set rpo. v = 0 \<or> (\<exists>u. edge blocks u v \<and> before rpo u v))"

lemma search_start:
  "blocks \<noteq> [] \<Longrightarrow> search_ok blocks ((replicate (length blocks) False)[0 := True]) [] [(0, 0)]"
  by (auto simp: search_ok_def queue_ok_def queued_def nth_list_update)

lemma search_done:
  assumes "search_ok blocks seen post []"
  shows "rpo_ok blocks (rev post)"
proof -
  have q: "queue_ok blocks seen post" and closed: "\<forall>v\<in>set post. \<forall>s. edge blocks v s \<longrightarrow> s \<in> set post"
    using assms by (simp_all add: search_ok_def queued_def)
  have root: "0 \<in> set post" using q last_in_set [of post] by (auto simp: queue_ok_def)
  have "v \<in> set post" if "reaches (edge blocks) 0 v" for v
    using that by (induction rule: reaches_induct) (use root closed in auto)
  with q before_rev [of post] show ?thesis
    unfolding rpo_ok_def queue_ok_def by (fastforce simp: hd_rev)
qed

theorem reverse_postorder_ok:
  assumes "succs_ok blocks" and "blocks \<noteq> []"
  shows "\<exists>rpo. reverse_postorder blocks = Ok rpo \<and> rpo_ok blocks rpo"
  using postorder_runs [OF assms(1) search_start [OF assms(2)]] search_done assms(2)
  by (fastforce simp: reverse_postorder_def)

section \<open>Numbers\<close>

lemma length_rpo_numbers [simp]: "length (rpo_numbers n rpo) = n"
proof -
  have "length (foldl (\<lambda>num pos. num[rpo ! pos := pos]) xs ps) = length xs" for xs :: "nat list" and ps
    by (induction ps arbitrary: xs) auto
  then show ?thesis by (simp add: rpo_numbers_def)
qed

lemma rpo_numbers_nth:
  assumes "distinct rpo" and "set rpo \<subseteq> {..<n}"
  shows "i < length rpo \<Longrightarrow> rpo_numbers n rpo ! (rpo ! i) = i"
    and "v < n \<Longrightarrow> v \<notin> set rpo \<Longrightarrow> rpo_numbers n rpo ! v = UNDEF"
proof -
  let ?f = "\<lambda>m. foldl (\<lambda>num pos. num[rpo ! pos := pos]) (replicate n UNDEF) [0..<m]"
  have "length (?f m) = n \<and> (\<forall>i<m. ?f m ! (rpo ! i) = i) \<and>
      (\<forall>v<n. v \<notin> set (take m rpo) \<longrightarrow> ?f m ! v = UNDEF)" if "m \<le> length rpo" for m
    using that
  proof (induction m)
    case (Suc m)
    then have r: "rpo ! m < n" using assms(2) nth_mem [of m rpo] by (auto simp del: nth_mem)
    have ne: "rpo ! m \<noteq> rpo ! i" if "i < m" for i
      using assms(1) Suc.prems that by (simp add: nth_eq_iff_index_eq)
    have "take (Suc m) rpo = take m rpo @ [rpo ! m]" using Suc.prems by (simp add: take_Suc_conv_app_nth)
    with Suc r ne show ?case by (auto simp: nth_list_update less_Suc_eq dest: ne)
  qed auto
  from this [of "length rpo"] show "i < length rpo \<Longrightarrow> rpo_numbers n rpo ! (rpo ! i) = i"
    and "v < n \<Longrightarrow> v \<notin> set rpo \<Longrightarrow> rpo_numbers n rpo ! v = UNDEF"
    by (auto simp: rpo_numbers_def)
qed

end
