(* ===== verification/CV_Chains.thy ===== *)
theory CV_Chains
  imports CV_Rpo
begin

text \<open>
  Chains of immediate dominators as the arrays of \<open>src/src/cfg.rs\<close> hold them, and \<open>intersect\<close>:
  on arrays that form a tree whose numbers fall towards the root it returns the nearest common
  element of two chains.
\<close>

section \<open>Numbered graphs\<close>

text \<open>What the dominator computation needs of its input: predecessors as the edges say, and
  numbers in which every reachable block but the first has a smaller reachable predecessor.\<close>

definition numbered :: "block list \<Rightarrow> nat list \<Rightarrow> bool" where
  "numbered blocks num \<longleftrightarrow>
     blocks \<noteq> [] \<and> succs_ok blocks \<and> length num = length blocks \<and> length blocks \<le> UNDEF \<and>
     (\<forall>b<length blocks. set (b_preds (blocks ! b)) = {p. edge blocks p b}) \<and>
     (\<forall>b<length blocks. \<not> reaches (edge blocks) 0 b \<longrightarrow> num ! b = UNDEF) \<and>
     (\<forall>b. reaches (edge blocks) 0 b \<longrightarrow> num ! b < length blocks) \<and>
     (\<forall>a b. reaches (edge blocks) 0 a \<and> reaches (edge blocks) 0 b \<and> num ! a = num ! b \<longrightarrow> a = b) \<and>
     num ! 0 = 0 \<and>
     (\<forall>b. reaches (edge blocks) 0 b \<and> b \<noteq> 0 \<longrightarrow>
        (\<exists>u. edge blocks u b \<and> reaches (edge blocks) 0 u \<and> num ! u < num ! b))"

definition has_idom :: "block list \<Rightarrow> nat list \<Rightarrow> nat \<Rightarrow> bool" where
  "has_idom blocks ids b \<longleftrightarrow> b < length blocks \<and> ids ! b \<noteq> UNDEF"

definition tree :: "block list \<Rightarrow> nat list \<Rightarrow> nat list \<Rightarrow> bool" where
  "tree blocks num ids \<longleftrightarrow> length ids = length blocks \<and> ids ! 0 = 0 \<and>
     (\<forall>b. has_idom blocks ids b \<longrightarrow> reaches (edge blocks) 0 b \<and>
        (b \<noteq> 0 \<longrightarrow> has_idom blocks ids (ids ! b) \<and> num ! (ids ! b) < num ! b))"

lemma numberedD:
  assumes "numbered blocks num"
  shows "blocks \<noteq> []" and "succs_ok blocks" and "length num = length blocks" and "length blocks \<le> UNDEF"
    and "\<And>b. b < length blocks \<Longrightarrow> set (b_preds (blocks ! b)) = {p. edge blocks p b}"
    and "\<And>b. b < length blocks \<Longrightarrow> \<not> reaches (edge blocks) 0 b \<Longrightarrow> num ! b = UNDEF"
    and "\<And>b. reaches (edge blocks) 0 b \<Longrightarrow> num ! b < length blocks"
    and "\<And>a b. num ! a = num ! b \<Longrightarrow> reaches (edge blocks) 0 a \<Longrightarrow> reaches (edge blocks) 0 b \<Longrightarrow> a = b"
    and "num ! 0 = 0"
    and "\<And>b. reaches (edge blocks) 0 b \<Longrightarrow> b \<noteq> 0 \<Longrightarrow>
        \<exists>u. edge blocks u b \<and> reaches (edge blocks) 0 u \<and> num ! u < num ! b"
  using assms unfolding numbered_def by blast+

lemma treeD:
  assumes "tree blocks num ids"
  shows "length ids = length blocks" and "ids ! 0 = 0"
    and "\<And>b. has_idom blocks ids b \<Longrightarrow> reaches (edge blocks) 0 b"
    and "\<And>b. has_idom blocks ids b \<Longrightarrow> b \<noteq> 0 \<Longrightarrow> has_idom blocks ids (ids ! b)"
    and "\<And>b. has_idom blocks ids b \<Longrightarrow> b \<noteq> 0 \<Longrightarrow> num ! (ids ! b) < num ! b"
  using assms unfolding tree_def by blast+

section \<open>Chains\<close>

inductive anc :: "nat list \<Rightarrow> nat \<Rightarrow> nat \<Rightarrow> bool" for ids where
  here: "anc ids b b"
| up: "anc ids b c" if "b \<noteq> 0" and "anc ids (ids ! b) c"

inductive_simps anc_root: "anc ids 0 c"

lemma anc_unfold: "anc ids b c \<longleftrightarrow> b = c \<or> b \<noteq> 0 \<and> anc ids (ids ! b) c"
  by (subst anc.simps) auto

lemma anc_trans: "anc ids b c \<Longrightarrow> anc ids c d \<Longrightarrow> anc ids b d"
  by (induction rule: anc.induct) (simp, blast intro: anc.up)

lemma tree_parent:
  assumes "tree blocks num ids" and "has_idom blocks ids b" and "b \<noteq> 0"
  shows "has_idom blocks ids (ids ! b)" and "num ! (ids ! b) < num ! b"
  using treeD [OF assms(1)] assms(2,3) by blast+

lemma tree_reaches: "tree blocks num ids \<Longrightarrow> has_idom blocks ids b \<Longrightarrow> reaches (edge blocks) 0 b"
  by (rule treeD(3))

lemma anc_num:
  assumes "anc ids b c" and "tree blocks num ids" and "has_idom blocks ids b"
  shows "has_idom blocks ids c \<and> num ! c \<le> num ! b \<and> (c \<noteq> b \<longrightarrow> num ! c < num ! b)"
  using assms
proof (induction rule: anc.induct)
  case (up b c)
  from tree_parent [OF up.prems \<open>b \<noteq> 0\<close>] up.IH [OF up.prems(1)] show ?case by auto
qed auto

lemma anc_linear:
  assumes "anc ids b c" and "anc ids b d" and "tree blocks num ids" and "has_idom blocks ids b"
    and "num ! d \<le> num ! c"
  shows "anc ids c d"
  using assms
proof (induction rule: anc.induct)
  case (up b c)
  note p = tree_parent [OF up.prems(2,3) \<open>b \<noteq> 0\<close>]
  have "num ! c < num ! b" using anc_num [OF up.hyps(2) up.prems(2) p(1)] p(2) by auto
  with up.prems(4) have "d \<noteq> b" by auto
  with up.prems(1) have "anc ids (ids ! b) d" using anc_unfold [of ids b d] by simp
  from up.IH [OF this up.prems(2) p(1) up.prems(4)] show ?case .
qed auto

section \<open>The nearest common element\<close>

text \<open>\<open>e\<close> is on the chains of all of \<open>ps\<close>, and whatever is on all of them is on that of \<open>e\<close>.\<close>

definition meet_of :: "nat list \<Rightarrow> nat set \<Rightarrow> nat \<Rightarrow> bool" where
  "meet_of ids ps e \<longleftrightarrow> (\<forall>p\<in>ps. anc ids p e) \<and> (\<forall>c. (\<forall>p\<in>ps. anc ids p c) \<longrightarrow> anc ids e c)"

lemma in_range:
  assumes "tree blocks num ids" and "numbered blocks num" and "has_idom blocks ids b"
  shows "nth_get num b = Some (num ! b)" and "nth_get ids b = Some (ids ! b)"
    and "num ! b \<noteq> UNDEF" and "b \<noteq> UNDEF"
proof -
  have "b < length blocks" using assms(3) by (simp add: has_idom_def)
  moreover have "num ! b < length blocks" "length blocks \<le> UNDEF"
    using numberedD(4,7) [OF assms(2)] tree_reaches [OF assms(1,3)] by blast+
  ultimately show "nth_get num b = Some (num ! b)" "nth_get ids b = Some (ids ! b)"
    "num ! b \<noteq> UNDEF" "b \<noteq> UNDEF"
    using numberedD(3) [OF assms(2)] treeD(1) [OF assms(1)] by (auto simp: nth_get_def)
qed

lemma num_root: "numbered blocks num \<Longrightarrow> num ! a > num ! b \<Longrightarrow> a \<noteq> 0"
  using numberedD(9) [of blocks num] by (metis not_less_zero)

lemma climb_result:
  assumes "tree blocks num ids" and "numbered blocks num"
    and "has_idom blocks ids a" and "has_idom blocks ids b"
  shows "\<exists>a'. climb ids num a b = Some (Ok a') \<and> anc ids a a' \<and> num ! a' \<le> num ! b \<and>
     (\<forall>c. anc ids a c \<and> num ! c \<le> num ! b \<longrightarrow> anc ids a' c)"
  using assms(3)
proof (induction "num ! a" arbitrary: a rule: less_induct)
  case less
  note get = in_range [OF assms(1,2)]
  show ?case
  proof (cases "num ! b < num ! a")
    case False
    then show ?thesis
      using get [OF less.prems] get [OF assms(4)] by (subst climb.simps) (auto intro: anc.here)
  next
    case True
    then have "a \<noteq> 0" using num_root [OF assms(2)] by blast
    note p = tree_parent [OF assms(1) less.prems this]
    from less.hyps [OF p(2,1)] obtain a' where a': "climb ids num (ids ! a) b = Some (Ok a')"
      "anc ids (ids ! a) a'" "num ! a' \<le> num ! b"
      "\<forall>c. anc ids (ids ! a) c \<and> num ! c \<le> num ! b \<longrightarrow> anc ids a' c" by blast
    have "climb ids num a b = Some (Ok a')"
      using a'(1) True get [OF less.prems] get [OF assms(4)] by (subst climb.simps) simp
    moreover have "anc ids a a'" using a'(2) \<open>a \<noteq> 0\<close> by (auto intro: anc.up)
    moreover have "anc ids a' c" if "anc ids a c" "num ! c \<le> num ! b" for c
      using that True a'(4) anc_unfold [of ids a c] by auto
    ultimately show ?thesis using a'(3) by blast
  qed
qed

lemma intersect_result:
  assumes "tree blocks num ids" and "numbered blocks num"
    and "has_idom blocks ids a" and "has_idom blocks ids b"
  shows "\<exists>e. intersect ids num a b = Some (Ok e) \<and> has_idom blocks ids e \<and> meet_of ids {a, b} e"
  using assms(3,4)
proof (induction "num ! a + num ! b" arbitrary: a b rule: less_induct)
  case less
  show ?case
  proof (cases "a = b")
    case True
    then show ?thesis
      using less.prems by (subst intersect.simps) (simp add: meet_of_def anc.here)
  next
    case False
    obtain a' where a': "climb ids num a b = Some (Ok a')" "anc ids a a'" "num ! a' \<le> num ! b"
      "\<And>c. anc ids a c \<Longrightarrow> num ! c \<le> num ! b \<Longrightarrow> anc ids a' c"
      using climb_result [OF assms(1,2) less.prems] by blast
    note na = anc_num [OF a'(2) assms(1) less.prems(1)]
    obtain b' where b': "climb ids num b a' = Some (Ok b')" "anc ids b b'" "num ! b' \<le> num ! a'"
      "\<And>c. anc ids b c \<Longrightarrow> num ! c \<le> num ! a' \<Longrightarrow> anc ids b' c"
      using climb_result [OF assms(1,2) less.prems(2)] na by blast
    note nb = anc_num [OF b'(2) assms(1) less.prems(2)]
    have "num ! a \<noteq> num ! b"
      using False numberedD(8) [OF assms(2)] tree_reaches [OF assms(1)] less.prems by blast
    then have "num ! a' + num ! b' < num ! a + num ! b"
      using na nb a'(3) b'(3) by (cases "a' = a"; cases "b' = b") auto
    from less.hyps [OF this] na nb obtain e where e: "intersect ids num a' b' = Some (Ok e)"
      "has_idom blocks ids e" "meet_of ids {a', b'} e" by blast
    have "intersect ids num a b = Some (Ok e)"
      using False a'(1) b'(1) e(1) by (subst intersect.simps) simp
    moreover have "meet_of ids {a, b} e"
    proof -
      have "anc ids a e" "anc ids b e" using e(3) a'(2) b'(2) anc_trans by (auto simp: meet_of_def)
      moreover have "anc ids e c" if c: "anc ids a c" "anc ids b c" for c
      proof -
        have "anc ids a' c" using a'(4) [OF c(1)] anc_num [OF c(2) assms(1) less.prems(2)] by simp
        moreover from anc_num [OF this assms(1)] na have "anc ids b' c" using b'(4) [OF c(2)] by simp
        ultimately show ?thesis using e(3) by (auto simp: meet_of_def)
      qed
      ultimately show ?thesis by (auto simp: meet_of_def)
    qed
    ultimately show ?thesis using e(2) by blast
  qed
qed

lemma meet_insert:
  assumes "meet_of ids {p, acc} e" and "meet_of ids (insert e ps) f"
  shows "meet_of ids (insert acc (insert p ps)) f"
proof -
  have e: "anc ids p e" "anc ids acc e" "anc ids e f" "\<forall>q\<in>ps. anc ids q f"
    using assms by (simp_all add: meet_of_def)
  have "anc ids f c" if "\<forall>q\<in>insert acc (insert p ps). anc ids q c" for c
    using that assms by (simp add: meet_of_def)
  with e anc_trans [OF e(1,3)] anc_trans [OF e(2,3)] show ?thesis by (simp add: meet_of_def)
qed

text \<open>The loop over the predecessors: the meet of those that have an immediate dominator so far.\<close>

lemma meet_preds_acc:
  assumes "tree blocks num ids" and "numbered blocks num" and "\<forall>p\<in>set ps. p < length blocks"
    and "has_idom blocks ids acc"
  shows "\<exists>e. meet_preds ids num ps acc = Some (Ok e) \<and> has_idom blocks ids e \<and>
     meet_of ids (insert acc {p \<in> set ps. has_idom blocks ids p}) e"
  using assms(3,4)
proof (induction ps arbitrary: acc)
  case Nil
  then show ?case by (simp add: meet_of_def anc.here)
next
  case (Cons p ps)
  have len: "p < length num" "p < length ids" using Cons.prems(1) numberedD(3) [OF assms(2)] treeD(1) [OF assms(1)] by auto
  note acc = in_range [OF assms(1,2) Cons.prems(2)]
  show ?case
  proof (cases "has_idom blocks ids p")
    case False
    then have "ids ! p = UNDEF" using Cons.prems by (simp add: has_idom_def)
    moreover have "{q \<in> set (p # ps). has_idom blocks ids q} = {q \<in> set ps. has_idom blocks ids q}"
      using False by auto
    ultimately show ?thesis using Cons.IH [OF _ Cons.prems(2)] Cons.prems(1) len by (simp add: nth_get_def)
  next
    case True
    obtain e where e: "intersect ids num p acc = Some (Ok e)" "has_idom blocks ids e"
      "meet_of ids {p, acc} e" using intersect_result [OF assms(1,2) True Cons.prems(2)] by blast
    obtain f where f: "meet_preds ids num ps e = Some (Ok f)" "has_idom blocks ids f"
      "meet_of ids (insert e {q \<in> set ps. has_idom blocks ids q}) f"
      using Cons.IH [OF _ e(2)] Cons.prems(1) by auto
    have "{q \<in> set (p # ps). has_idom blocks ids q} = insert p {q \<in> set ps. has_idom blocks ids q}"
      using True by auto
    with meet_insert [OF e(3) f(3)] f(1,2) e(1) in_range [OF assms(1,2) True] acc True show ?thesis
      by (simp add: has_idom_def)
  qed
qed

lemma meet_preds_result:
  assumes "tree blocks num ids" and "numbered blocks num" and "\<forall>p\<in>set ps. p < length blocks"
    and "p0 \<in> set ps" and "has_idom blocks ids p0"
  shows "\<exists>e. meet_preds ids num ps UNDEF = Some (Ok e) \<and> has_idom blocks ids e \<and>
     meet_of ids {p \<in> set ps. has_idom blocks ids p} e"
  using assms(3,4)
proof (induction ps)
  case (Cons p ps)
  have len: "p < length num" "p < length ids" using Cons.prems(1) numberedD(3) [OF assms(2)] treeD(1) [OF assms(1)] by auto
  show ?case
  proof (cases "has_idom blocks ids p")
    case False
    then have "ids ! p = UNDEF" using Cons.prems by (simp add: has_idom_def)
    moreover have "{q \<in> set (p # ps). has_idom blocks ids q} = {q \<in> set ps. has_idom blocks ids q}"
      using False by auto
    moreover have "p0 \<in> set ps" using Cons.prems(2) False assms(5) by auto
    ultimately show ?thesis using Cons.IH Cons.prems(1) len by (simp add: nth_get_def)
  next
    case True
    have "{q \<in> set (p # ps). has_idom blocks ids q} = insert p {q \<in> set ps. has_idom blocks ids q}"
      using True by auto
    with meet_preds_acc [OF assms(1,2) _ True] Cons.prems(1) in_range [OF assms(1,2) True] True
    show ?thesis by (simp add: has_idom_def)
  qed
qed simp

end
