(* ===== verification/CV_Dom.thy ===== *)
theory CV_Dom
  imports CV_Chains
begin

text \<open>
  The iterative dominators of \<open>src/src/cfg.rs\<close> are the dominators: the sweeps come to an end, and
  in the array they leave \<open>a\<close> is on the chain of a reachable block \<open>b\<close> exactly when every walk
  from block 0 to \<open>b\<close> passes \<open>a\<close>.

  The invariant of a sweep that has reached the block numbered \<open>i\<close>. The array is a tree. Every
  block can be walked to from its parent without passing a smaller number (\<open>walks_ok\<close>), so no
  block between them in number is lost from a walk; every true dominator is still on the chain
  (\<open>doms_ok\<close>). What is common to the predecessors is on the parent's chain (\<open>meets_ok\<close>), so a
  parent only ever moves up, which bounds the number of changes. This last property would be lost
  if blocks were updated in an arbitrary order: \<open>fresh_ok\<close> says what the order of the sweep adds.
\<close>

definition walks_ok :: "block list \<Rightarrow> nat list \<Rightarrow> nat list \<Rightarrow> bool" where
  "walks_ok blocks num ids \<longleftrightarrow> (\<forall>b. has_idom blocks ids b \<and> b \<noteq> 0 \<longrightarrow>
     (\<exists>qs. walk (edge blocks) qs \<and> hd qs = ids ! b \<and> last qs = b \<and> (\<forall>x\<in>set qs. num ! (ids ! b) \<le> num ! x)))"

definition doms_ok :: "block list \<Rightarrow> nat list \<Rightarrow> bool" where
  "doms_ok blocks ids \<longleftrightarrow> (\<forall>b d. has_idom blocks ids b \<and> on_every_walk (edge blocks) 0 d b \<and> d \<noteq> b \<longrightarrow>
     anc ids (ids ! b) d)"

definition meets_ok :: "block list \<Rightarrow> nat list \<Rightarrow> bool" where
  "meets_ok blocks ids \<longleftrightarrow> (\<forall>b c. has_idom blocks ids b \<and> b \<noteq> 0 \<and>
     (\<forall>p. edge blocks p b \<and> has_idom blocks ids p \<longrightarrow> anc ids p c) \<longrightarrow> anc ids (ids ! b) c)"

definition fresh_ok :: "block list \<Rightarrow> nat list \<Rightarrow> nat \<Rightarrow> nat list \<Rightarrow> bool" where
  "fresh_ok blocks num i ids \<longleftrightarrow> (\<forall>b p. has_idom blocks ids b \<and> b \<noteq> 0 \<and> (num ! b < i \<or> i \<le> num ! (ids ! b)) \<and>
     edge blocks p b \<and> has_idom blocks ids p \<and> num ! p < num ! b \<longrightarrow> anc ids p (ids ! b))"

definition all_done :: "block list \<Rightarrow> nat list \<Rightarrow> bool" where
  "all_done blocks ids \<longleftrightarrow> (\<forall>b. reaches (edge blocks) 0 b \<longrightarrow> has_idom blocks ids b)"

definition done_ok :: "block list \<Rightarrow> nat list \<Rightarrow> nat \<Rightarrow> nat list \<Rightarrow> bool" where
  "done_ok blocks num i ids \<longleftrightarrow> all_done blocks ids \<or>
     (\<forall>b. reaches (edge blocks) 0 b \<longrightarrow> (has_idom blocks ids b \<longleftrightarrow> num ! b < i))"

definition sweep_inv :: "block list \<Rightarrow> nat list \<Rightarrow> nat \<Rightarrow> nat list \<Rightarrow> bool" where
  "sweep_inv blocks num i ids \<longleftrightarrow> tree blocks num ids \<and> walks_ok blocks num ids \<and> doms_ok blocks ids \<and>
     meets_ok blocks ids \<and> fresh_ok blocks num i ids \<and> done_ok blocks num i ids"

lemma sweep_invD:
  assumes "sweep_inv blocks num i ids"
  shows "tree blocks num ids" "walks_ok blocks num ids" "doms_ok blocks ids" "meets_ok blocks ids"
    "fresh_ok blocks num i ids" "done_ok blocks num i ids"
  using assms unfolding sweep_inv_def by blast+

section \<open>Moving one block to a new parent\<close>

text \<open>\<open>x\<close>, the block numbered \<open>i\<close>, gets the parent \<open>e\<close>, the meet of its processed predecessors.\<close>

definition moves :: "block list \<Rightarrow> nat list \<Rightarrow> nat list \<Rightarrow> nat \<Rightarrow> nat \<Rightarrow> bool" where
  "moves blocks num ids x e \<longleftrightarrow> reaches (edge blocks) 0 x \<and> x \<noteq> 0 \<and> x < length blocks \<and>
     has_idom blocks ids e \<and> num ! e < num ! x \<and>
     meet_of ids {p. edge blocks p x \<and> has_idom blocks ids p} e \<and>
     (\<exists>u. edge blocks u x \<and> has_idom blocks ids u \<and> num ! u < num ! x)"

lemma movesD:
  assumes "moves blocks num ids x e"
  shows "reaches (edge blocks) 0 x" "x \<noteq> 0" "x < length blocks" "has_idom blocks ids e" "num ! e < num ! x"
    "\<And>p. edge blocks p x \<Longrightarrow> has_idom blocks ids p \<Longrightarrow> anc ids p e"
    "\<And>c. (\<And>p. edge blocks p x \<Longrightarrow> has_idom blocks ids p \<Longrightarrow> anc ids p c) \<Longrightarrow> anc ids e c"
    "\<exists>u. edge blocks u x \<and> has_idom blocks ids u \<and> num ! u < num ! x"
  using assms unfolding moves_def meet_of_def by blast+

text \<open>A parent only moves up.\<close>

lemma moves_up:
  "moves blocks num ids x e \<Longrightarrow> meets_ok blocks ids \<Longrightarrow> has_idom blocks ids x \<Longrightarrow> anc ids (ids ! x) e"
  using movesD(2,6) unfolding meets_ok_def by blast

lemma moved_has_idom:
  assumes "tree blocks num ids" and "numbered blocks num" and "moves blocks num ids x e"
  shows "has_idom blocks (ids[x := e]) b \<longleftrightarrow> b = x \<or> has_idom blocks ids b"
  using movesD(3) [OF assms(3)] in_range(4) [OF assms(1,2) movesD(4) [OF assms(3)]] treeD(1) [OF assms(1)]
  by (cases "b = x") (simp_all add: has_idom_def)

lemma moved_anc:
  assumes "anc (ids[x := e]) b c" and "tree blocks num ids" and "moves blocks num ids x e"
    and "meets_ok blocks ids" and "has_idom blocks ids b"
  shows "anc ids b c"
  using assms
proof (induction rule: anc.induct)
  case (up b c)
  note m = up.prems(2)
  show ?case
  proof (cases "b = x")
    case True
    have "anc ids e c"
      using up.IH up.prems movesD(3,4) [OF m] treeD(1) [OF up.prems(1)] True by simp
    with moves_up [OF m up.prems(3)] up.prems(4) True have "anc ids (ids ! b) c"
      using anc_trans [of ids "ids ! b" e c] by simp
    with up.hyps(1) show ?thesis by (rule anc.up)
  next
    case False
    with up.IH up.prems treeD(4) [OF up.prems(1,4) up.hyps(1)] have "anc ids (ids ! b) c" by simp
    with up.hyps(1) show ?thesis by (rule anc.up)
  qed
qed (rule anc.here)

lemma kept_anc:
  assumes "anc ids b c" and "tree blocks num ids" and "has_idom blocks ids b"
    and "num ! x \<le> num ! c \<or> \<not> anc ids b x"
  shows "anc (ids[x := e]) b c"
  using assms
proof (induction rule: anc.induct)
  case (up b c)
  note p = tree_parent [OF up.prems(1,2) \<open>b \<noteq> 0\<close>]
  have "num ! c < num ! b" using anc_num [OF up.hyps(2) up.prems(1) p(1)] p(2) by simp
  with up.prems(3) have "b \<noteq> x" using anc.here [of ids x] by auto
  moreover have "\<not> anc ids b x \<Longrightarrow> \<not> anc ids (ids ! b) x" using anc.up [OF \<open>b \<noteq> 0\<close>, of ids x] by blast
  then have "anc (ids[x := e]) (ids ! b) c" using up.IH [OF up.prems(1) p(1)] up.prems(3) by blast
  ultimately have "anc (ids[x := e]) (ids[x := e] ! b) c" by simp
  with \<open>b \<noteq> 0\<close> show ?case by (rule anc.up)
qed (rule anc.here)

lemma low_chain:
  assumes "tree blocks num ids" and "has_idom blocks ids b" and "num ! b < num ! x"
  shows "\<not> anc ids b x"
  using anc_num [OF _ assms(1,2), of x] assms(3) by auto

section \<open>Each part of the invariant is kept\<close>

lemma moved_tree:
  assumes "tree blocks num ids" and "numbered blocks num" and "moves blocks num ids x e"
  shows "tree blocks num (ids[x := e])"
proof -
  note has = moved_has_idom [OF assms] and m = movesD [OF assms(3)] and t = treeD [OF assms(1)]
  have "reaches (edge blocks) 0 b \<and> (b \<noteq> 0 \<longrightarrow> has_idom blocks (ids[x := e]) (ids[x := e] ! b) \<and>
      num ! (ids[x := e] ! b) < num ! b)" if "has_idom blocks (ids[x := e]) b" for b
  proof (cases "b = x")
    case True
    then show ?thesis using m(1,3,4,5) t(1) has by simp
  next
    case False
    with that has have "has_idom blocks ids b" by blast
    with False t(3,4,5) [of b] has show ?thesis by simp
  qed
  with m(2) t(1,2) show ?thesis unfolding tree_def by simp
qed

text \<open>The walks from parents to children join up.\<close>

lemma chain_walk:
  assumes "anc ids b c" and "tree blocks num ids" and "walks_ok blocks num ids" and "has_idom blocks ids b"
  shows "\<exists>qs. walk (edge blocks) qs \<and> hd qs = c \<and> last qs = b \<and> (\<forall>y\<in>set qs. num ! c \<le> num ! y)"
  using assms
proof (induction rule: anc.induct)
  case (here b)
  show ?case by (intro exI [of _ "[b]"]) simp
next
  case (up b c)
  note p = tree_parent [OF up.prems(1,3) \<open>b \<noteq> 0\<close>]
  obtain qs where qs: "walk (edge blocks) qs" "hd qs = c" "last qs = ids ! b" "\<forall>y\<in>set qs. num ! c \<le> num ! y"
    using up.IH [OF up.prems(1,2) p(1)] by blast
  obtain rs where rs: "walk (edge blocks) rs" "hd rs = ids ! b" "last rs = b" "\<forall>y\<in>set rs. num ! (ids ! b) \<le> num ! y"
    using up.prems(2,3) \<open>b \<noteq> 0\<close> unfolding walks_ok_def by blast
  have "num ! c \<le> num ! (ids ! b)" using anc_num [OF up.hyps(2) up.prems(1) p(1)] by simp
  then have "\<forall>y\<in>set (qs @ tl rs). num ! c \<le> num ! y"
    using qs(4) rs(4) by (cases rs) (auto intro: order_trans)
  with walk_join [OF qs(1) rs(1)] qs(2,3) rs(2,3) show ?case by (intro exI [of _ "qs @ tl rs"]) simp
qed

lemma moved_walks:
  assumes "tree blocks num ids" and "numbered blocks num" and "moves blocks num ids x e"
    and "walks_ok blocks num ids"
  shows "walks_ok blocks num (ids[x := e])"
  unfolding walks_ok_def
proof (intro allI impI)
  fix b assume b: "has_idom blocks (ids[x := e]) b \<and> b \<noteq> 0"
  note m = movesD [OF assms(3)]
  show "\<exists>qs. walk (edge blocks) qs \<and> hd qs = ids[x := e] ! b \<and> last qs = b \<and>
      (\<forall>y\<in>set qs. num ! (ids[x := e] ! b) \<le> num ! y)"
  proof (cases "b = x")
    case True
    obtain u where u: "edge blocks u x" "has_idom blocks ids u" using m(8) by blast
    obtain qs where qs: "walk (edge blocks) qs" "hd qs = e" "last qs = u" "\<forall>y\<in>set qs. num ! e \<le> num ! y"
      using chain_walk [OF m(6) [OF u] assms(1,4) u(2)] by blast
    have "walk (edge blocks) (qs @ [x])" using walk_snoc [OF qs(1)] qs(3) u(1) by simp
    with qs True m(3,5) treeD(1) [OF assms(1)] show ?thesis
      by (intro exI [of _ "qs @ [x]"]) (auto simp: hd_append)
  next
    case False
    with b moved_has_idom [OF assms(1-3)] have "has_idom blocks ids b \<and> b \<noteq> 0" by blast
    with False assms(4) show ?thesis unfolding walks_ok_def by simp
  qed
qed

text \<open>A strict dominator of \<open>x\<close> is on the chain of its new parent.\<close>

lemma moved_dom:
  assumes "numbered blocks num" and "tree blocks num ids" and "moves blocks num ids x e"
    and "doms_ok blocks ids" and "on_every_walk (edge blocks) 0 d x" and "d \<noteq> x"
  shows "anc ids e d"
proof (rule movesD(7) [OF assms(3)])
  fix p assume p: "edge blocks p x" "has_idom blocks ids p"
  have "on_every_walk (edge blocks) 0 d p"
    by (rule dom_pred [OF assms(5,6) p(1) treeD(3) [OF assms(2) p(2)]])
  with assms(4) p(2) have "d \<noteq> p \<Longrightarrow> anc ids (ids ! p) d" unfolding doms_ok_def by blast
  moreover have "p = 0 \<Longrightarrow> d = p" using dom_root [of "edge blocks" 0 d] \<open>on_every_walk (edge blocks) 0 d p\<close> by simp
  ultimately show "anc ids p d" using anc.here [of ids p] anc.up [of p ids d] by auto
qed

lemma moved_doms:
  assumes "tree blocks num ids" and "numbered blocks num" and "moves blocks num ids x e"
    and "walks_ok blocks num ids" and "doms_ok blocks ids"
  shows "doms_ok blocks (ids[x := e])"
  unfolding doms_ok_def
proof (intro allI impI)
  fix b d assume bd: "has_idom blocks (ids[x := e]) b \<and> on_every_walk (edge blocks) 0 d b \<and> d \<noteq> b"
  note m = movesD [OF assms(3)]
  have below: "anc ids e d \<Longrightarrow> anc (ids[x := e]) e d" for d
    using kept_anc [OF _ assms(1) m(4)] low_chain [OF assms(1) m(4,5)] by blast
  show "anc (ids[x := e]) (ids[x := e] ! b) d"
  proof (cases "b = x")
    case True
    with moved_dom [OF assms(2,1,3,5)] bd below m(3) treeD(1) [OF assms(1)] show ?thesis by simp
  next
    case False
    with bd moved_has_idom [OF assms(1-3)] have b: "has_idom blocks ids b" by blast
    with bd assms(5) have old: "anc ids (ids ! b) d" unfolding doms_ok_def by blast
    have "b \<noteq> 0" using bd dom_root [of "edge blocks" 0 d] by (cases b) auto
    note p = treeD(4) [OF assms(1) b this]
    have "anc (ids[x := e]) (ids ! b) d"
    proof (cases "num ! x \<le> num ! d \<or> \<not> anc ids (ids ! b) x")
      case True
      then show ?thesis by (rule kept_anc [OF old assms(1) p])
    next
      case False
      then have bx: "anc ids b x" "anc ids (ids ! b) x" using anc.up [OF \<open>b \<noteq> 0\<close>, of ids x] by simp_all
      obtain qs where qs: "walk (edge blocks) qs" "hd qs = x" "last qs = b" "\<forall>y\<in>set qs. num ! x \<le> num ! y"
        using chain_walk [OF bx(1) assms(1,4) b] by blast
      have "d \<notin> set qs" using qs(4) False by auto
      from dom_back [OF _ m(1) qs(1-3) this] bd have "on_every_walk (edge blocks) 0 d x" by blast
      from moved_dom [OF assms(2,1,3,5) this] False have "anc ids e d" by auto
      from below [OF this] have "anc (ids[x := e]) (ids[x := e] ! x) d"
        using m(3) treeD(1) [OF assms(1)] by simp
      from anc.up [OF m(2) this] have "anc (ids[x := e]) x d" .
      moreover have "anc (ids[x := e]) (ids ! b) x" by (rule kept_anc [OF bx(2) assms(1) p]) simp
      ultimately show ?thesis using anc_trans by blast
    qed
    with False show ?thesis by simp
  qed
qed

text \<open>A processed block's smaller predecessor is processed.\<close>

lemma smaller_pred:
  assumes "tree blocks num ids" and "numbered blocks num" and "done_ok blocks num i ids"
    and "has_idom blocks ids b" and "b \<noteq> 0"
  shows "\<exists>u. edge blocks u b \<and> has_idom blocks ids u \<and> num ! u < num ! b"
proof -
  have b: "reaches (edge blocks) 0 b" by (rule treeD(3) [OF assms(1,4)])
  obtain u where u: "edge blocks u b" "reaches (edge blocks) 0 u" "num ! u < num ! b"
    using numberedD(10) [OF assms(2) b assms(5)] by blast
  have "has_idom blocks ids u"
    using assms(3,4) b u(2,3) unfolding done_ok_def all_done_def by force
  with u show ?thesis by blast
qed

lemma moved_meets:
  assumes "tree blocks num ids" and "numbered blocks num" and "moves blocks num ids x e"
    and "meets_ok blocks ids" and "fresh_ok blocks num i ids" and "done_ok blocks num i ids" and "num ! x = i"
  shows "meets_ok blocks (ids[x := e])"
  unfolding meets_ok_def
proof (intro allI impI, elim conjE)
  fix b c
  assume hb: "has_idom blocks (ids[x := e]) b" and b0: "b \<noteq> 0"
    and "\<forall>p. edge blocks p b \<and> has_idom blocks (ids[x := e]) p \<longrightarrow> anc (ids[x := e]) p c"
  note m = movesD [OF assms(3)] and has = moved_has_idom [OF assms(1-3)]
  have new: "anc (ids[x := e]) p c" and old: "anc ids p c" if "edge blocks p b" "has_idom blocks ids p" for p
    using that \<open>\<forall>p. _\<close> has moved_anc [OF _ assms(1,3,4)] by blast+
  show "anc (ids[x := e]) (ids[x := e] ! b) c"
  proof (cases "b = x")
    case True
    have "anc ids e c" using m(7) old True by blast
    then have "anc (ids[x := e]) e c"
      using kept_anc [OF _ assms(1) m(4)] low_chain [OF assms(1) m(4,5)] by blast
    with True m(3) treeD(1) [OF assms(1)] show ?thesis by simp
  next
    case False
    with hb has have b: "has_idom blocks ids b" by blast
    note p = tree_parent [OF assms(1) b b0]
    have bc: "anc ids (ids ! b) c" using assms(4) b b0 old unfolding meets_ok_def by blast
    have "anc (ids[x := e]) (ids ! b) c"
    proof (cases "anc ids (ids ! b) x")
      case no: False
      then show ?thesis using kept_anc [OF bc assms(1) p(1)] by blast
    next
      case True
      have hi: "i \<le> num ! (ids ! b)" using anc_num [OF True assms(1) p(1)] assms(7) by simp
      obtain u where u: "edge blocks u b" "has_idom blocks ids u" "num ! u < num ! b"
        using smaller_pred [OF assms(1,2,6) b b0] by blast
      have "anc ids u (ids ! b)" using assms(5) b b0 hi u unfolding fresh_ok_def by blast
      from kept_anc [OF this assms(1) u(2)] hi assms(7) have ub: "anc (ids[x := e]) u (ids ! b)" by blast
      have "num ! c \<le> num ! (ids ! b)" using anc_num [OF bc assms(1) p(1)] by simp
      from anc_linear [OF ub new [OF u(1,2)] moved_tree [OF assms(1-3)] _ this] has u(2) show ?thesis
        by blast
    qed
    with False show ?thesis by simp
  qed
qed

lemma moved_fresh:
  assumes "tree blocks num ids" and "numbered blocks num" and "moves blocks num ids x e"
    and "fresh_ok blocks num i ids" and "done_ok blocks num i ids" and "num ! x = i"
  shows "fresh_ok blocks num (Suc i) (ids[x := e])"
  unfolding fresh_ok_def
proof (intro allI impI, elim conjE)
  fix b p
  assume hb: "has_idom blocks (ids[x := e]) b" and b0: "b \<noteq> 0"
    and at: "num ! b < Suc i \<or> Suc i \<le> num ! (ids[x := e] ! b)"
    and pb: "edge blocks p b" "has_idom blocks (ids[x := e]) p" "num ! p < num ! b"
  note m = movesD [OF assms(3)] and has = moved_has_idom [OF assms(1-3)] and inj = numberedD(8) [OF assms(2)]
  show "anc (ids[x := e]) p (ids[x := e] ! b)"
  proof (cases "b = x")
    case True
    with pb has have p: "has_idom blocks ids p" "edge blocks p x" "num ! p < num ! x" by auto
    from kept_anc [OF m(6) [OF p(2,1)] assms(1) p(1)] low_chain [OF assms(1) p(1,3)]
    have "anc (ids[x := e]) p e" by blast
    with True m(3) treeD(1) [OF assms(1)] show ?thesis by simp
  next
    case False
    with hb has have b: "has_idom blocks ids b" by blast
    note rb = treeD(3) [OF assms(1) b]
    have "num ! b \<noteq> i" using inj [OF _ rb m(1)] False assms(6) by auto
    with at False have at': "num ! b < i \<or> Suc i \<le> num ! (ids ! b)" by auto
    then have "num ! b < i \<or> i \<le> num ! (ids ! b)" by auto
    have "has_idom blocks ids p"
    proof (cases "p = x")
      case True
      with assms(5,6) b rb pb(3) m(1) show ?thesis unfolding done_ok_def all_done_def by fastforce
    qed (use pb(2) has in blast)
    with assms(4) b b0 \<open>num ! b < i \<or> i \<le> _\<close> pb(1,3) have old: "anc ids p (ids ! b)"
      unfolding fresh_ok_def by blast
    have "num ! x \<le> num ! (ids ! b) \<or> \<not> anc ids p x"
      using at' low_chain [OF assms(1) \<open>has_idom blocks ids p\<close>, of x] pb(3) assms(6) by auto
    from kept_anc [OF old assms(1) \<open>has_idom blocks ids p\<close> this] False show ?thesis by simp
  qed
qed

lemma done_next:
  assumes "numbered blocks num" and "done_ok blocks num i ids" and "num ! x = i" and "reaches (edge blocks) 0 x"
    and "\<And>b. has_idom blocks ids' b \<longleftrightarrow> b = x \<or> has_idom blocks ids b"
  shows "done_ok blocks num (Suc i) ids'"
proof -
  have "num ! b < Suc i \<longleftrightarrow> b = x \<or> num ! b < i" if "reaches (edge blocks) 0 b" for b
    using numberedD(8) [OF assms(1) _ that assms(4)] assms(3) by auto
  with assms(2,5) show ?thesis unfolding done_ok_def all_done_def by blast
qed

lemma moved_inv:
  assumes "numbered blocks num" and "sweep_inv blocks num i ids" and "moves blocks num ids x e" and "num ! x = i"
  shows "sweep_inv blocks num (Suc i) (ids[x := e])"
proof -
  note inv = sweep_invD [OF assms(2)]
  have "done_ok blocks num (Suc i) (ids[x := e])"
    by (rule done_next [OF assms(1) inv(6) assms(4) movesD(1) [OF assms(3)] moved_has_idom [OF inv(1) assms(1,3)]])
  then show ?thesis
    using moved_tree [OF inv(1) assms(1,3)] moved_walks [OF inv(1) assms(1,3) inv(2)]
      moved_doms [OF inv(1) assms(1,3) inv(2,3)] moved_meets [OF inv(1) assms(1,3) inv(4-6) assms(4)]
      moved_fresh [OF inv(1) assms(1,3) inv(5,6) assms(4)]
    by (simp add: sweep_inv_def)
qed

text \<open>A block that already has the meet as its parent is passed.\<close>

lemma passed_inv:
  assumes "numbered blocks num" and "sweep_inv blocks num i ids" and "moves blocks num ids x (ids ! x)" and "num ! x = i"
  shows "sweep_inv blocks num (Suc i) ids"
  using moved_inv [OF assms] by simp

end
