(* ===== verification/CV_Doms.thy ===== *)
theory CV_Doms
  imports CV_Dom
begin

text \<open>
  The loops around one step of the dominator computation of \<open>src/src/cfg.rs\<close>: a sweep keeps the
  invariant and either changes nothing or lowers a sum of numbers, so the sweeps end; where one
  changes nothing the chains are the dominators. Then the queries: \<open>dominates\<close> walks a chain.
\<close>

section \<open>One sweep\<close>

definition potential :: "block list \<Rightarrow> nat list \<Rightarrow> nat list \<Rightarrow> nat" where
  "potential blocks num ids =
     (\<Sum>b<length blocks. if ids ! b = UNDEF then UNDEF else num ! (ids ! b))"

lemma potential_falls:
  assumes "numbered blocks num" and "sweep_inv blocks num i ids" and "moves blocks num ids x e" and "ids ! x \<noteq> e"
  shows "potential blocks num (ids[x := e]) < potential blocks num ids"
proof -
  note inv = sweep_invD [OF assms(2)] and m = movesD [OF assms(3)]
  let ?v = "\<lambda>ids b. if ids ! b = UNDEF then UNDEF else num ! (ids ! b)"
  have len: "length ids = length blocks" by (rule treeD(1) [OF inv(1)])
  have e: "e \<noteq> UNDEF" by (rule in_range(4) [OF inv(1) assms(1) m(4)])
  have "num ! e < length blocks" by (rule numberedD(7) [OF assms(1) treeD(3) [OF inv(1) m(4)]])
  then have small: "num ! e < UNDEF" using numberedD(4) [OF assms(1)] by simp
  have "?v (ids[x := e]) x < ?v ids x"
  proof (cases "ids ! x = UNDEF")
    case True
    with small e m(3) len show ?thesis by simp
  next
    case False
    then have x: "has_idom blocks ids x" using m(3) by (simp add: has_idom_def)
    from anc_num [OF moves_up [OF assms(3) inv(4) x] inv(1) treeD(4) [OF inv(1) x m(2)]] assms(4)
    have "num ! e < num ! (ids ! x)" by auto
    with False e m(3) len show ?thesis by simp
  qed
  moreover have "?v (ids[x := e]) b \<le> ?v ids b" for b
  proof (cases "b = x")
    case True
    with \<open>?v (ids[x := e]) x < ?v ids x\<close> show ?thesis by (simp only: less_imp_le)
  qed simp
  ultimately have "\<forall>b\<in>{..<length blocks}. ?v (ids[x := e]) b \<le> ?v ids b"
    "\<exists>b\<in>{..<length blocks}. ?v (ids[x := e]) b < ?v ids b" using m(3) by (blast, blast)
  from sum_strict_mono_ex1 [OF finite_lessThan this]
  show ?thesis by (simp only: potential_def)
qed

lemma step_meets:
  assumes "numbered blocks num" and "sweep_inv blocks num i ids" and "reaches (edge blocks) 0 x" and "x \<noteq> 0"
    and "num ! x = i"
  shows "\<exists>e. nth_get blocks x = Some (blocks ! x) \<and> meet_preds ids num (b_preds (blocks ! x)) UNDEF = Some (Ok e) \<and>
     e \<noteq> UNDEF \<and> moves blocks num ids x e"
proof -
  note inv = sweep_invD [OF assms(2)]
  have x: "x < length blocks"
    by (rule reachable_in_range [OF assms(3) numberedD(2) [OF assms(1)] numberedD(1) [OF assms(1)]])
  obtain u where u: "edge blocks u x" "reaches (edge blocks) 0 u" "num ! u < num ! x"
    using numberedD(10) [OF assms(1,3,4)] by blast
  have hu: "has_idom blocks ids u"
    using inv(6) u(2,3) assms(5) unfolding done_ok_def all_done_def by auto
  have preds: "set (b_preds (blocks ! x)) = {p. edge blocks p x}" by (rule numberedD(5) [OF assms(1) x])
  then have "\<forall>p\<in>set (b_preds (blocks ! x)). p < length blocks" by (simp add: edge_def)
  moreover have "u \<in> set (b_preds (blocks ! x))" using preds u(1) by simp
  ultimately obtain e where e: "meet_preds ids num (b_preds (blocks ! x)) UNDEF = Some (Ok e)"
    "has_idom blocks ids e" "meet_of ids {p \<in> set (b_preds (blocks ! x)). has_idom blocks ids p} e"
    using meet_preds_result [OF inv(1) assms(1) _ _ hu] by blast
  have m: "meet_of ids {p. edge blocks p x \<and> has_idom blocks ids p} e" using e(3) preds by simp
  then have "anc ids u e" using u(1) hu by (simp add: meet_of_def)
  from anc_num [OF this inv(1) hu] u(3) have "num ! e < num ! x" by simp
  with m e(2) hu u(1,3) assms(3,4) x have "moves blocks num ids x e" unfolding moves_def by blast
  with e(1) in_range(4) [OF inv(1) assms(1) e(2)] x show ?thesis by (auto simp: nth_get_def)
qed

text \<open>Blocks listed in the order of their numbers, from \<open>i\<close> on.\<close>

fun numbered_from :: "block list \<Rightarrow> nat list \<Rightarrow> nat \<Rightarrow> nat list \<Rightarrow> bool" where
  "numbered_from blocks num i [] = True"
| "numbered_from blocks num i (b # bs) =
     (reaches (edge blocks) 0 b \<and> b \<noteq> 0 \<and> num ! b = i \<and> numbered_from blocks num (Suc i) bs)"

lemma sweep_runs:
  assumes "numbered blocks num" and "numbered_from blocks num i bs" and "sweep_inv blocks num i ids"
  shows "\<exists>ids' ch. sweep blocks num bs ids ch0 = Some (Ok (ids', ch)) \<and>
     sweep_inv blocks num (i + length bs) ids' \<and>
     (ids' = ids \<and> ch = ch0 \<and> (\<forall>b\<in>set bs. moves blocks num ids b (ids ! b)) \<or>
      ch \<and> potential blocks num ids' < potential blocks num ids)"
  using assms(2,3)
proof (induction bs arbitrary: i ids ch0)
  case (Cons x bs)
  have x: "reaches (edge blocks) 0 x" "x \<noteq> 0" "num ! x = i" and rest: "numbered_from blocks num (Suc i) bs"
    using Cons.prems(1) by simp_all
  obtain e where e: "nth_get blocks x = Some (blocks ! x)"
    "meet_preds ids num (b_preds (blocks ! x)) UNDEF = Some (Ok e)" "e \<noteq> UNDEF" "moves blocks num ids x e"
    using step_meets [OF assms(1) Cons.prems(2) x] by blast
  show ?case
  proof (cases "ids ! x = e")
    case True
    have "sweep_inv blocks num (Suc i) ids"
      using passed_inv [OF assms(1) Cons.prems(2) _ x(3)] e(4) True by simp
    from Cons.IH [OF rest this, of ch0] True e show ?thesis by auto
  next
    case False
    from Cons.IH [OF rest moved_inv [OF assms(1) Cons.prems(2) e(4) x(3)], of True]
      potential_falls [OF assms(1) Cons.prems(2) e(4) False] e False
    show ?thesis by auto
  qed
qed simp

section \<open>The sweeps end\<close>

lemma restart_inv:
  assumes "sweep_inv blocks num m ids" and "\<And>b. reaches (edge blocks) 0 b \<Longrightarrow> num ! b < m"
  shows "sweep_inv blocks num 1 ids" and "all_done blocks ids"
proof -
  note inv = sweep_invD [OF assms(1)]
  show all: "all_done blocks ids" using inv(6) assms(2) unfolding done_ok_def all_done_def by blast
  have "fresh_ok blocks num 1 ids"
    using inv(5) assms(2) treeD(3) [OF inv(1)] unfolding fresh_ok_def by blast
  with inv all show "sweep_inv blocks num 1 ids" by (simp add: sweep_inv_def done_ok_def)
qed

definition settled :: "block list \<Rightarrow> nat list \<Rightarrow> nat list \<Rightarrow> bool" where
  "settled blocks num ids \<longleftrightarrow> tree blocks num ids \<and> doms_ok blocks ids \<and> all_done blocks ids \<and>
     (\<forall>b. reaches (edge blocks) 0 b \<and> b \<noteq> 0 \<longrightarrow> moves blocks num ids b (ids ! b))"

lemma dom_loop_runs:
  assumes "numbered blocks num" and "numbered_from blocks num 1 (drop 1 rpo)"
    and "\<And>b. reaches (edge blocks) 0 b \<Longrightarrow> num ! b < Suc (length (drop 1 rpo)) \<and> (b = 0 \<or> b \<in> set (drop 1 rpo))"
    and "sweep_inv blocks num 1 ids"
  shows "\<exists>ids'. dom_loop blocks rpo num ids = Some (Ok ids') \<and> settled blocks num ids'"
  using assms(4)
proof (induction "potential blocks num ids" arbitrary: ids rule: less_induct)
  case less
  obtain ids' ch where s: "sweep blocks num (drop 1 rpo) ids False = Some (Ok (ids', ch))"
    "sweep_inv blocks num (1 + length (drop 1 rpo)) ids'"
    "ids' = ids \<and> \<not> ch \<and> (\<forall>b\<in>set (drop 1 rpo). moves blocks num ids b (ids ! b)) \<or>
     ch \<and> potential blocks num ids' < potential blocks num ids"
    using sweep_runs [OF assms(1,2) less.prems, of False] by auto
  have again: "sweep_inv blocks num 1 ids'" "all_done blocks ids'"
    using restart_inv [OF s(2)] assms(3) by simp_all
  show ?case
  proof (cases ch)
    case True
    with s(3) have "potential blocks num ids' < potential blocks num ids" by blast
    from less.hyps [OF this again(1)] True s(1) show ?thesis by (subst dom_loop.simps) simp
  next
    case False
    with s(3) have "settled blocks num ids'"
      using sweep_invD(1,3) [OF again(1)] again(2) assms(3) unfolding settled_def by blast
    with False s(1) show ?thesis by (subst dom_loop.simps) simp
  qed
qed

lemma start_inv:
  assumes "numbered blocks num"
  shows "sweep_inv blocks num 1 ((replicate (length blocks) UNDEF)[0 := 0])" (is "sweep_inv _ _ _ ?ids")
proof -
  have pos: "0 < length blocks" using numberedD(1) [OF assms] by simp
  have has: "has_idom blocks ?ids b \<longleftrightarrow> b = 0" for b
    using pos numberedD(4) [OF assms] by (cases "b = 0") (auto simp: has_idom_def UNDEF_def)
  have "num ! b < 1 \<longleftrightarrow> b = 0" if "reaches (edge blocks) 0 b" for b
    using numberedD(8) [OF assms _ that, of 0] numberedD(9) [OF assms] by auto
  moreover have "d = 0" if "on_every_walk (edge blocks) 0 d 0" for d by (rule dom_root [OF that])
  ultimately show ?thesis
    using pos has
    by (auto simp: sweep_inv_def tree_def walks_ok_def doms_ok_def meets_ok_def fresh_ok_def done_ok_def)
qed

section \<open>The chains are the dominators\<close>

theorem settled_dominators:
  assumes "settled blocks num ids" and "reaches (edge blocks) 0 b"
  shows "anc ids b d \<longleftrightarrow> on_every_walk (edge blocks) 0 d b"
proof
  have all: "\<And>b. reaches (edge blocks) 0 b \<Longrightarrow> has_idom blocks ids b"
    using assms(1) unfolding settled_def all_done_def by blast
  have "walk (edge blocks) ps \<Longrightarrow> hd ps = 0 \<Longrightarrow> anc ids (last ps) d \<Longrightarrow> d \<in> set ps" for ps
  proof (induction "length ps" arbitrary: ps rule: less_induct)
    case less
    show ?case
    proof (cases "last ps = d")
      case False
      then have up: "last ps \<noteq> 0" "anc ids (ids ! last ps) d"
        using less.prems(3) anc_unfold [of ids "last ps" d] by auto
      then have "1 < length ps" using less.prems(1,2) by (cases ps; cases "tl ps") auto
      note w = walk_butlast [OF less.prems(1) this]
      let ?p = "last (butlast ps)"
      have r: "reaches (edge blocks) 0 ?p" "reaches (edge blocks) 0 (last ps)"
        using w less.prems unfolding reaches_def by metis+
      have "moves blocks num ids (last ps) (ids ! last ps)"
        using assms(1) r(2) up(1) unfolding settled_def by blast
      from movesD(6) [OF this] w all [OF r(1)] have "anc ids ?p (ids ! last ps)" by blast
      from anc_trans [OF this up(2)] less.hyps [of "butlast ps"] w \<open>1 < length ps\<close> less.prems(2)
      have "d \<in> set (butlast ps)" by simp
      then show ?thesis by (rule in_set_butlastD)
    qed (use less.prems in auto)
  qed
  then show "anc ids b d \<Longrightarrow> on_every_walk (edge blocks) 0 d b"
    using assms(2) unfolding on_every_walk_def by blast
next
  assume d: "on_every_walk (edge blocks) 0 d b"
  show "anc ids b d"
  proof (cases "d = b")
    case False
    have "has_idom blocks ids b" using assms unfolding settled_def all_done_def by blast
    with d False assms(1) have "anc ids (ids ! b) d" unfolding settled_def doms_ok_def by blast
    moreover have "b \<noteq> 0" using d False dom_root [of "edge blocks" 0 d] by (cases b) auto
    ultimately show ?thesis using anc.up by simp
  qed (simp add: anc.here)
qed

end
