(* ===== verification/CV_Blocks.thy ===== *)
theory CV_Blocks
  imports CV_Doms
begin

text \<open>
  The block partition of \<open>src/src/cfg.rs\<close>. Its contract with the instructions: every instruction
  lies in exactly one block, within a block control goes from each instruction to the next, and
  the edges between blocks are the edges between their instructions.
\<close>

section \<open>Edges between instructions\<close>

lemma collect_res_set:
  "collect_res f xs = Ok ys \<Longrightarrow> set ys = {y. \<exists>x\<in>set xs. f x = Ok y}"
  by (induction xs arbitrary: ys) (auto simp: rbind_eq_Ok)

lemma check_target_Ok [simp]: "check_target n i t = Ok u \<longleftrightarrow> t < n \<and> u = t"
  by (auto simp: check_target_def)

lemma check_target_no_panic [simp]: "check_target n i t \<noteq> Panic"
  by (simp add: check_target_def)

lemma raw_succs_in_range:
  "raw_succs insns tables i = Ok ss \<Longrightarrow> s \<in> set ss \<Longrightarrow> s < length insns"
  unfolding raw_succs_def Let_def
  by (auto simp: rbind_eq_Ok collect_res_set split: option.splits if_splits)

lemma raw_succs_no_panic: "i < length insns \<Longrightarrow> raw_succs insns tables i \<noteq> Panic"
  unfolding raw_succs_def Let_def
  by (auto simp: rbind_eq_Panic nth_get_def collect_res_no_panic split: option.splits)

section \<open>Leaders\<close>

lemma update_True: "i < length l \<Longrightarrow> l[a := True] ! i \<longleftrightarrow> l ! i \<or> i = a"
  by (cases "i = a") auto

lemma foldl_mark:
  "length (foldl (\<lambda>l s. l[s := True]) leader ss) = length leader \<and>
   (\<forall>i<length leader. foldl (\<lambda>l s. l[s := True]) leader ss ! i \<longleftrightarrow> leader ! i \<or> i \<in> set ss)"
  by (induction ss arbitrary: leader) (auto simp: update_True)

text \<open>What pass 1 establishes: an instruction that is not followed by a leader only leads to the
  next one, and whatever an instruction leads to otherwise is a leader.\<close>

definition splits :: "decoded list \<Rightarrow> u32 list list \<Rightarrow> bool list \<Rightarrow> nat \<Rightarrow> bool" where
  "splits insns tables leader i \<longleftrightarrow> (\<exists>ss. raw_succs insns tables i = Ok ss \<and>
     (ss = [i + 1] \<or> (\<forall>s\<in>set ss. leader ! s) \<and> (i + 1 < length insns \<longrightarrow> leader ! (i + 1))))"

lemma mark_leaders_result:
  assumes "mark_leaders insns tables is leader = Ok out" and "length leader = length insns"
  shows "length out = length insns \<and> (\<forall>i<length insns. leader ! i \<longrightarrow> out ! i) \<and>
     (\<forall>i\<in>set is. splits insns tables out i)"
  using assms
proof (induction insns tables "is" leader rule: mark_leaders.induct)
  case (2 insns tables i "is" leader)
  obtain ss where ss: "raw_succs insns tables i = Ok ss" using "2.prems"(1) by (auto simp: rbind_eq_Ok)
  have rng: "\<And>s. s \<in> set ss \<Longrightarrow> s < length insns" by (rule raw_succs_in_range [OF ss])
  show ?case
  proof (cases "falls_through (insn (d_op (insns ! i))) \<and> ss = [i + 1]")
    case True
    with 2(1) [OF True] "2.prems" ss show ?thesis by (auto simp: splits_def)
  next
    case False
    let ?m = "foldl (\<lambda>l s. l[s := True]) leader ss"
    let ?l = "if i + 1 < length insns then ?m[i + 1 := True] else ?m"
    note fm = foldl_mark [of leader ss]
    have run: "mark_leaders insns tables is ?l = Ok out" using "2.prems"(1) by (simp only: mark_leaders.simps ss rbind.simps False if_False Let_def)
    have len: "length ?l = length insns" using fm "2.prems"(2) by simp
    from 2(2) [OF False refl run len]
    have ih: "length out = length insns" "\<forall>i<length insns. ?l ! i \<longrightarrow> out ! i" "\<forall>i\<in>set is. splits insns tables out i"
      by blast+
    have keep: "?l ! j" if "j < length insns" "leader ! j \<or> j \<in> set ss \<or> j = i + 1" for j
      using that fm "2.prems"(2) by (auto simp: nth_list_update)
    then have "splits insns tables out i" using ih(2) rng ss unfolding splits_def by auto
    with ih keep show ?thesis by auto
  qed
qed auto

lemma mark_leaders_no_panic:
  "\<forall>i\<in>set is. i < length insns \<Longrightarrow> mark_leaders insns tables is leader \<noteq> Panic"
  by (induction insns tables "is" leader rule: mark_leaders.induct)
    (auto simp: rbind_eq_Panic raw_succs_no_panic Let_def)

lemma leaders_result:
  assumes "leaders insns tables = Ok leader"
  shows "length leader = length insns" and "insns \<noteq> [] \<Longrightarrow> leader ! 0"
    and "\<And>i. i < length insns \<Longrightarrow> splits insns tables leader i"
  using mark_leaders_result [OF assms [unfolded leaders_def]] by auto

section \<open>Starts and ends\<close>

lemma starts_mem: "i \<in> set (starts_of leader) \<longleftrightarrow> i < length leader \<and> leader ! i"
  by (auto simp: starts_of_def)

lemma starts_ascend: "sorted_wrt (<) (starts_of leader)"
  by (simp add: starts_of_def sorted_wrt_filter)

lemma starts_less: "i < j \<Longrightarrow> j < length (starts_of leader) \<Longrightarrow> starts_of leader ! i < starts_of leader ! j"
  by (rule sorted_wrt_nth_less [OF starts_ascend])

lemma block_bounds:
  assumes "bid < length (starts_of leader)"
  defines "lo \<equiv> starts_of leader ! bid" and "hi \<equiv> block_end (starts_of leader) (length leader) bid"
  shows "leader ! lo" and "lo < hi" and "hi \<le> length leader" and "\<And>j. lo < j \<Longrightarrow> j < hi \<Longrightarrow> \<not> leader ! j"
    and "hi < length leader \<Longrightarrow> leader ! hi"
proof -
  let ?st = "starts_of leader"
  have lo: "lo < length leader \<and> leader ! lo"
    using assms(1) starts_mem [of lo leader] nth_mem unfolding lo_def by blast
  then show "leader ! lo" by blast
  have hi: "hi = (if bid + 1 < length ?st then ?st ! (bid + 1) else length leader)"
    by (simp add: hi_def block_end_def nth_get_def)
  show "lo < hi" using lo starts_less [of bid "bid + 1" leader] unfolding hi lo_def by simp
  have "bid + 1 < length ?st \<Longrightarrow> ?st ! (bid + 1) < length leader \<and> leader ! (?st ! (bid + 1))"
    using starts_mem [of "?st ! (bid + 1)" leader] nth_mem by blast
  then show "hi \<le> length leader" and "hi < length leader \<Longrightarrow> leader ! hi" by (auto simp: hi split: if_splits)
  show "\<not> leader ! j" if j: "lo < j" "j < hi" for j
  proof
    assume "leader ! j"
    with j \<open>hi \<le> length leader\<close> obtain k where k: "k < length ?st" "?st ! k = j"
      using starts_mem [of j leader] by (auto simp: in_set_conv_nth)
    have "bid < k" using j(1) k starts_less [of k bid leader] assms(1) unfolding lo_def
      by (metis less_imp_not_less linorder_neqE_nat)
    with j(2) k hi starts_less [of "bid + 1" k leader] show False
      by (cases "bid + 1 = k") (auto split: if_splits)
  qed
qed

lemma blocks_cover:
  assumes "j < length leader" and "leader ! 0"
  shows "\<exists>bid<length (starts_of leader). starts_of leader ! bid \<le> j \<and>
     j < block_end (starts_of leader) (length leader) bid"
proof -
  let ?st = "starts_of leader"
  let ?S = "{bid. bid < length ?st \<and> ?st ! bid \<le> j}"
  obtain k where k: "k < length ?st" "?st ! k = 0"
    using starts_mem [of 0 leader] assms by (auto simp: in_set_conv_nth)
  then have "k \<in> ?S" by simp
  have fin: "finite ?S" by simp
  have "Max ?S \<in> ?S" using Max_in [OF fin] \<open>k \<in> ?S\<close> by blast
  then have m: "Max ?S < length ?st" "?st ! Max ?S \<le> j" by blast+
  have "j < block_end ?st (length leader) (Max ?S)"
  proof (cases "Max ?S + 1 < length ?st")
    case True
    have "Max ?S + 1 \<notin> ?S"
    proof
      assume "Max ?S + 1 \<in> ?S"
      from Max_ge [OF fin this] show False by linarith
    qed
    with True show ?thesis by (simp add: block_end_def nth_get_def)
  qed (use assms(1) in \<open>simp add: block_end_def nth_get_def\<close>)
  with m show ?thesis by blast
qed

lemma blocks_disjoint:
  assumes "b < length (starts_of leader)" and "c < length (starts_of leader)"
    and "starts_of leader ! b \<le> j" and "j < block_end (starts_of leader) (length leader) b"
    and "starts_of leader ! c \<le> j" and "j < block_end (starts_of leader) (length leader) c"
  shows "b = c"
proof -
  have "\<not> (x < y)" if "y < length (starts_of leader)" "starts_of leader ! y \<le> j"
      "j < block_end (starts_of leader) (length leader) x" for x y
  proof
    assume "x < y"
    then have "x + 1 = y \<or> x + 1 < y" by auto
    with that starts_less [of "x + 1" y leader] \<open>x < y\<close> show False
      by (auto simp: block_end_def nth_get_def split: if_splits)
  qed
  with assms show ?thesis by (metis linorder_neqE_nat)
qed

section \<open>Owners\<close>

lemma fill_nth:
  "lo \<le> hi \<Longrightarrow> hi \<le> length xs \<Longrightarrow> length (fill lo hi v xs) = length xs \<and>
   (\<forall>j<length xs. fill lo hi v xs ! j = (if lo \<le> j \<and> j < hi then v else xs ! j))"
  by (auto simp: fill_def nth_append)

lemma owners_result:
  assumes "leader ! 0" and "j < length leader"
  shows "length (owners (starts_of leader) (length leader)) = length leader"
    and "owners (starts_of leader) (length leader) ! j < length (starts_of leader)"
    and "starts_of leader ! (owners (starts_of leader) (length leader) ! j) \<le> j"
    and "j < block_end (starts_of leader) (length leader) (owners (starts_of leader) (length leader) ! j)"
proof -
  let ?st = "starts_of leader" and ?n = "length leader"
  let ?f = "\<lambda>m. foldl (\<lambda>ow bid. fill (?st ! bid) (block_end ?st ?n bid) bid ow) (replicate ?n 0) [0..<m]"
  have *: "length (?f m) = ?n \<and> (\<forall>bid<m. \<forall>j. ?st ! bid \<le> j \<and> j < block_end ?st ?n bid \<longrightarrow> ?f m ! j = bid)"
    if "m \<le> length ?st" for m
    using that
  proof (induction m)
    case (Suc m)
    then have m: "m < length ?st" by simp
    note bb = block_bounds [OF m]
    from Suc have ih: "length (?f m) = ?n"
      "\<And>bid j. bid < m \<Longrightarrow> ?st ! bid \<le> j \<Longrightarrow> j < block_end ?st ?n bid \<Longrightarrow> ?f m ! j = bid" by auto
    have step: "?f (Suc m) = fill (?st ! m) (block_end ?st ?n m) m (?f m)" by simp
    have fn: "length (?f (Suc m)) = ?n" "\<And>j. j < ?n \<Longrightarrow> ?f (Suc m) ! j =
        (if ?st ! m \<le> j \<and> j < block_end ?st ?n m then m else ?f m ! j)"
      unfolding step using fill_nth [of "?st ! m" "block_end ?st ?n m" "?f m" m] bb(2,3) ih(1) by auto
    have "?f (Suc m) ! j = bid" if h: "bid < Suc m" "?st ! bid \<le> j" "j < block_end ?st ?n bid" for bid j
    proof -
      have bl: "bid < length ?st" using h(1) m by simp
      then have j: "j < ?n" using h(3) block_bounds(3) [OF bl] by simp
      show ?thesis
      proof (cases "bid = m")
        case False
        have "\<not> (?st ! m \<le> j \<and> j < block_end ?st ?n m)"
          using blocks_disjoint [OF bl m h(2,3)] False by blast
        with fn(2) [OF j] ih(2) [OF _ h(2,3)] h(1) False show ?thesis by auto
      qed (use h j fn(2) in simp)
    qed
    with fn(1) show ?case by blast
  qed simp
  obtain bid where b: "bid < length ?st" "?st ! bid \<le> j" "j < block_end ?st ?n bid"
    using blocks_cover [OF assms(2,1)] by blast
  with * [of "length ?st"] have "owners ?st ?n ! j = bid" by (simp add: owners_def)
  with b show "owners ?st ?n ! j < length ?st" "?st ! (owners ?st ?n ! j) \<le> j"
    "j < block_end ?st ?n (owners ?st ?n ! j)" by simp_all
  show "length (owners ?st ?n) = ?n" using * [of "length ?st"] by (simp add: owners_def)
qed

section \<open>Linking\<close>

lemma foldl_add_new:
  "distinct acc \<Longrightarrow> distinct (foldl (\<lambda>acc s. add_new acc (f s)) acc ss) \<and>
   set (foldl (\<lambda>acc s. add_new acc (f s)) acc ss) = set acc \<union> f ` set ss"
  by (induction ss arbitrary: acc) (auto simp: add_new_def)

lemma add_new_set [simp]: "set (add_new xs x) = insert x (set xs)"
  by (auto simp: add_new_def)

definition same_shape :: "block list \<Rightarrow> block list \<Rightarrow> bool" where
  "same_shape bs cs \<longleftrightarrow> length bs = length cs \<and> (\<forall>b<length cs. b_succs (bs ! b) = b_succs (cs ! b) \<and>
     b_start (bs ! b) = b_start (cs ! b) \<and> b_end (bs ! b) = b_end (cs ! b))"

lemma add_preds_result:
  assumes "\<forall>s\<in>set ss. s < length bs"
  shows "same_shape (foldl (add_pred me) bs ss) bs \<and>
     (\<forall>b<length bs. set (b_preds (foldl (add_pred me) bs ss ! b)) =
        set (b_preds (bs ! b)) \<union> (if b \<in> set ss then {me} else {}))"
  using assms
proof (induction ss arbitrary: bs)
  case (Cons s ss)
  have "same_shape (add_pred me bs s) bs \<and> length (add_pred me bs s) = length bs \<and>
      (\<forall>b<length bs. set (b_preds (add_pred me bs s ! b)) = set (b_preds (bs ! b)) \<union> (if b = s then {me} else {}))"
    using Cons.prems by (auto simp: add_pred_def same_shape_def nth_list_update)
  with Cons.IH [of "add_pred me bs s"] Cons.prems show ?case by (auto simp: same_shape_def)
qed (simp add: same_shape_def)

lemma link_preds_result:
  assumes "succs_ok blocks" and "\<forall>b\<in>set blocks. b_preds b = []"
  shows "same_shape (link_preds blocks) blocks"
    and "\<forall>b<length blocks. set (b_preds (link_preds blocks ! b)) = {p. edge blocks p b}"
proof -
  let ?f = "\<lambda>m. foldl (\<lambda>bs me. foldl (add_pred me) bs (b_succs (bs ! me))) blocks [0..<m]"
  have *: "same_shape (?f m) blocks \<and>
      (\<forall>b<length blocks. set (b_preds (?f m ! b)) = {p. p < m \<and> edge blocks p b})"
    if "m \<le> length blocks" for m
    using that
  proof (induction m)
    case (Suc m)
    then have ih: "same_shape (?f m) blocks" "m < length blocks"
      "\<forall>b<length blocks. set (b_preds (?f m ! b)) = {p. p < m \<and> edge blocks p b}" by auto
    have su: "b_succs (?f m ! m) = b_succs (blocks ! m)" "length (?f m) = length blocks"
      using ih(1,2) by (auto simp: same_shape_def)
    have "\<forall>s\<in>set (b_succs (?f m ! m)). s < length (?f m)"
      using assms(1) ih(2) su unfolding succs_ok_def edge_def by auto
    from add_preds_result [OF this, of m] su ih show ?case
      by (auto simp: same_shape_def edge_def less_Suc_eq)
  qed (use assms(2) in \<open>auto simp: same_shape_def\<close>)
  from * [of "length blocks"] show "same_shape (link_preds blocks) blocks"
    "\<forall>b<length blocks. set (b_preds (link_preds blocks ! b)) = {p. edge blocks p b}"
    by (auto simp: link_preds_def edge_def)
qed

lemma same_shape_edge: "same_shape bs cs \<Longrightarrow> edge bs u v \<longleftrightarrow> edge cs u v"
  by (auto simp: same_shape_def edge_def)

end
