(* ===== verification/CV_Build.thy ===== *)
theory CV_Build
  imports CV_Blocks
begin

text \<open>
  \<open>Cfg::build\<close> of \<open>src/src/cfg.rs\<close> as a whole: it returns and does not panic, whatever the code,
  the function and the jump tables, and a graph it builds is the one the instructions describe,
  with the order, the dominators and the back edges of the textbook.
\<close>

section \<open>Decoding\<close>

text \<open>\<open>ds\<close> are the instructions of \<open>body\<close> from \<open>off\<close> to its end, at the given offsets.\<close>

fun laid_out :: "bytes \<Rightarrow> nat \<Rightarrow> nat \<Rightarrow> decoded list \<Rightarrow> u32 list \<Rightarrow> bool" where
  "laid_out body lo off [] [] = (off = length body)"
| "laid_out body lo off (d # ds) (at # ats) =
     (decode body off = Some d \<and> at = of_nat (lo + off) \<and> laid_out body lo (off + unat (d_len d)) ds ats)"
| "laid_out body lo off _ _ = False"

lemma decode_next: "decode body off = Some d \<Longrightarrow> off < off + unat (d_len d) \<and> off + unat (d_len d) \<le> length body"
  using decode_len [of body off d] by auto

lemma decode_from_Ok:
  assumes "decode_from body lo off insns ats = Ok (insns', ats')" and "off \<le> length body"
  shows "\<exists>ds os. insns' = insns @ ds \<and> ats' = ats @ os \<and> laid_out body lo off ds os"
  using assms
proof (induction body lo off insns ats rule: decode_from.induct)
  case (1 body lo off insns ats)
  show ?case
  proof (cases "off < length body")
    case False
    with 1(2,3) show ?thesis by (intro exI [of _ "[]"]) (simp add: decode_from.simps)
  next
    case True
    with 1(2) obtain d where d: "decode body off = Some d"
      by (subst (asm) decode_from.simps) (auto simp: Let_def split: option.splits if_splits)
    have "decode_from body lo (off + unat (d_len d)) (insns @ [d]) (ats @ [of_nat (lo + off)]) = Ok (insns', ats')"
      using 1(2) d True by (subst (asm) decode_from.simps) simp
    from 1(1) [OF True d this] decode_next [OF d] obtain ds os where
      "insns' = (insns @ [d]) @ ds" "ats' = (ats @ [of_nat (lo + off)]) @ os"
      "laid_out body lo (off + unat (d_len d)) ds os" by blast
    with d show ?thesis by (intro exI [of _ "d # ds"] exI [of _ "of_nat (lo + off) # os"]) simp
  qed
qed

lemma decode_from_laid_out:
  "laid_out body lo off ds os \<Longrightarrow> decode_from body lo off insns ats = Ok (insns @ ds, ats @ os)"
proof (induction body lo off ds os arbitrary: insns ats rule: laid_out.induct)
  case (2 body lo off d ds at ats0)
  then have "off < length body" using decode_next [of body off d] by simp
  with 2 show ?case by (subst decode_from.simps) simp
qed (simp_all add: decode_from.simps)

lemma decode_from_no_panic: "decode_from body lo off insns ats \<noteq> Panic"
proof (induction body lo off insns ats rule: decode_from.induct)
  case (1 body lo off insns ats)
  show ?case
  proof (cases "off < length body")
    case True
    show ?thesis
      by (cases "decode body off") (use True 1 in \<open>simp_all add: decode_from.simps Let_def\<close>)
  qed (simp add: decode_from.simps)
qed

lemma laid_out_length:
  "laid_out body lo off ds os \<Longrightarrow> length os = length ds \<and> off + 4 * length ds \<le> length body"
proof (induction body lo off ds os rule: laid_out.induct)
  case (2 body lo off d ds at ats)
  with decode_len [of body off d] show ?case by auto
qed auto

text \<open>\<open>decode_range\<close> succeeds exactly on a range of the section that is a sequence of instructions.\<close>

theorem decode_range_iff:
  "decode_range code f = Ok (insns, ats) \<longleftrightarrow>
     (\<exists>body. slice_get code (unat (fm_code_off f)) (unat (fm_code_off f) + unat (fm_code_len f)) = Some body \<and>
        laid_out body (unat (fm_code_off f)) 0 insns ats)"
  using decode_from_Ok [of _ "unat (fm_code_off f)" 0 "[]" "[]" insns ats]
    decode_from_laid_out [of _ "unat (fm_code_off f)" 0 insns ats "[]" "[]"]
  by (auto simp: decode_range_def Let_def fail_def split: option.splits)

lemma decode_range_no_panic: "decode_range code f \<noteq> Panic"
  by (auto simp: decode_range_def Let_def fail_def decode_from_no_panic split: option.splits)

lemma decode_range_small:
  assumes "decode_range code f = Ok (insns, ats)"
  shows "length ats = length insns" and "length insns < 2 ^ 30"
proof -
  obtain body where b: "slice_get code (unat (fm_code_off f)) (unat (fm_code_off f) + unat (fm_code_len f)) = Some body"
    "laid_out body (unat (fm_code_off f)) 0 insns ats" using assms decode_range_iff by blast
  have "length body = unat (fm_code_len f)" using slice_get_length [OF b(1)] by simp
  then have "4 * length insns < 2 ^ 32"
    using laid_out_length [OF b(2)] unat_bound [of "fm_code_len f"] by simp
  then show "length insns < 2 ^ 30" by simp
  show "length ats = length insns" using laid_out_length [OF b(2)] by blast
qed

section \<open>Blocks\<close>

definition flow :: "decoded list \<Rightarrow> u32 list list \<Rightarrow> nat \<Rightarrow> nat \<Rightarrow> bool" where
  "flow insns tables i j \<longleftrightarrow> (\<exists>ss. raw_succs insns tables i = Ok ss \<and> j \<in> set ss)"

definition blocks_ok :: "decoded list \<Rightarrow> u32 list list \<Rightarrow> block list \<Rightarrow> nat list \<Rightarrow> bool" where
  "blocks_ok insns tables blocks owner \<longleftrightarrow>
     length owner = length insns \<and> succs_ok blocks \<and>
     (insns \<noteq> [] \<longrightarrow> blocks \<noteq> [] \<and> b_start (blocks ! 0) = 0) \<and> length blocks \<le> length insns \<and>
     (\<forall>j<length insns. owner ! j < length blocks \<and>
        b_start (blocks ! (owner ! j)) \<le> j \<and> j < b_end (blocks ! (owner ! j))) \<and>
     (\<forall>b<length blocks. b_start (blocks ! b) < b_end (blocks ! b) \<and> b_end (blocks ! b) \<le> length insns \<and>
        (\<forall>j. b_start (blocks ! b) \<le> j \<and> j < b_end (blocks ! b) \<longrightarrow> owner ! j = b) \<and>
        (\<forall>j. b_start (blocks ! b) \<le> j \<and> j + 1 < b_end (blocks ! b) \<longrightarrow> raw_succs insns tables j = Ok [j + 1]) \<and>
        (\<exists>ss. raw_succs insns tables (b_end (blocks ! b) - 1) = Ok ss \<and>
           set (b_succs (blocks ! b)) = (!) owner ` set ss \<and> distinct (b_succs (blocks ! b)) \<and>
           (\<forall>s\<in>set ss. b_start (blocks ! (owner ! s)) = s)) \<and>
        set (b_preds (blocks ! b)) = {p. edge blocks p b})"

lemma collect_res_Ok: "\<forall>x\<in>set xs. \<exists>y. f x = Ok y \<Longrightarrow> \<exists>ys. collect_res f xs = Ok ys"
  by (induction xs) auto

lemma collect_res_nth:
  "collect_res f xs = Ok ys \<Longrightarrow> length ys = length xs \<and> (\<forall>i<length xs. f (xs ! i) = Ok (ys ! i))"
proof (induction xs arbitrary: ys)
  case (Cons x xs)
  then show ?case by (auto simp: rbind_eq_Ok nth_Cons split: nat.split)
qed simp

text \<open>An instruction that ends a block only leads to starts of blocks.\<close>

lemma last_leads_to_leaders:
  assumes "leaders insns tables = Ok leader" and "bid < length (starts_of leader)"
    and "raw_succs insns tables (block_end (starts_of leader) (length leader) bid - 1) = Ok ss" and "s \<in> set ss"
  shows "leader ! s"
proof -
  note bb = block_bounds [OF assms(2)] and len = leaders_result(1) [OF assms(1)]
  let ?hi = "block_end (starts_of leader) (length leader) bid"
  have "splits insns tables leader (?hi - 1)"
    using leaders_result(3) [OF assms(1)] bb(2,3) len by simp
  moreover have "?hi - 1 + 1 = ?hi" using bb(2) by simp
  ultimately show ?thesis
    using assms(3,4) raw_succs_in_range [OF assms(3,4)] bb(5) len by (auto simp: splits_def)
qed

lemma leader_is_start:
  assumes "leader ! 0" and "s < length leader" and "leader ! s"
  shows "starts_of leader ! (owners (starts_of leader) (length leader) ! s) = s"
proof -
  obtain k where k: "k < length (starts_of leader)" "starts_of leader ! k = s"
    using starts_mem [of s leader] assms(2,3) by (auto simp: in_set_conv_nth)
  note o = owners_result [OF assms(1,2)]
  have "k = owners (starts_of leader) (length leader) ! s"
    using blocks_disjoint [OF k(1) o(2) _ _ o(3,4)] k block_bounds(2) [OF k(1)] by simp
  with k(2) show ?thesis by simp
qed

lemma straight_line:
  assumes "leaders insns tables = Ok leader" and "bid < length (starts_of leader)"
    and "starts_of leader ! bid \<le> j" and "j + 1 < block_end (starts_of leader) (length leader) bid"
  shows "raw_succs insns tables j = Ok [j + 1]"
proof -
  note bb = block_bounds [OF assms(2)] and len = leaders_result(1) [OF assms(1)]
  have "\<not> leader ! (j + 1)" "j + 1 < length insns" using bb(3,4) assms(3,4) len by auto
  with leaders_result(3) [OF assms(1), of j] show ?thesis by (auto simp: splits_def)
qed

lemma bare_succs:
  assumes "leaders insns tables = Ok leader" and "insns \<noteq> []"
  defines "st \<equiv> starts_of leader" and "ow \<equiv> owners (starts_of leader) (length insns)"
  shows "\<exists>bs. collect_res (block_succs insns tables ow) (bare_blocks st (length insns)) = Ok bs \<and>
     length bs = length st \<and> (\<forall>b\<in>set bs. b_preds b = []) \<and> succs_ok bs \<and>
     (\<forall>b<length st. b_start (bs ! b) = st ! b \<and> b_end (bs ! b) = block_end st (length insns) b \<and>
        (\<exists>ss. raw_succs insns tables (b_end (bs ! b) - 1) = Ok ss \<and>
           set (b_succs (bs ! b)) = (!) ow ` set ss \<and> distinct (b_succs (bs ! b))))"
proof -
  let ?n = "length insns"
  let ?bare = "\<lambda>b. \<lparr>b_start = st ! b, b_end = block_end st ?n b, b_succs = [], b_preds = []\<rparr>"
  note len = leaders_result(1) [OF assms(1)] and zero = leaders_result(2) [OF assms(1,2)]
  have hi: "st ! b < block_end st ?n b \<and> block_end st ?n b \<le> ?n" if "b < length st" for b
    using block_bounds(2,3) [of b leader] that len by (simp add: st_def)
  have raw: "\<exists>ss. raw_succs insns tables (block_end st ?n b - 1) = Ok ss" if "b < length st" for b
  proof -
    have "block_end st ?n b - 1 < ?n" using hi [OF that] by linarith
    from leaders_result(3) [OF assms(1) this] show ?thesis unfolding splits_def by blast
  qed
  have bare: "bare_blocks st ?n = map ?bare [0..<length st]" by (simp add: bare_blocks_def)
  have "\<forall>b\<in>set (bare_blocks st ?n). \<exists>b'. block_succs insns tables ow b = Ok b'"
    using raw by (fastforce simp: bare block_succs_def)
  from collect_res_Ok [OF this] obtain bs where
    bs: "collect_res (block_succs insns tables ow) (bare_blocks st ?n) = Ok bs" by blast
  from collect_res_nth [OF this] have n: "length bs = length st"
    "\<And>b. b < length st \<Longrightarrow> block_succs insns tables ow (?bare b) = Ok (bs ! b)" by (simp_all add: bare)
  have one: "b_start (bs ! b) = st ! b \<and> b_end (bs ! b) = block_end st ?n b \<and> b_preds (bs ! b) = [] \<and>
      (\<exists>ss. raw_succs insns tables (b_end (bs ! b) - 1) = Ok ss \<and>
        set (b_succs (bs ! b)) = (!) ow ` set ss \<and> distinct (b_succs (bs ! b)))" if b: "b < length st" for b
  proof -
    obtain ss where ss: "raw_succs insns tables (block_end st ?n b - 1) = Ok ss" using raw [OF b] by blast
    with n(2) [OF b] have "bs ! b = (?bare b)\<lparr>b_succs := foldl (\<lambda>acc s. add_new acc (ow ! s)) [] ss\<rparr>"
      by (simp add: block_succs_def)
    with foldl_add_new [of "[]" "(!) ow" ss] ss show ?thesis by simp
  qed
  have "succs_ok bs"
    unfolding succs_ok_def edge_def
  proof (intro allI impI, elim conjE)
    fix u v assume u: "u < length bs" "v \<in> set (b_succs (bs ! u))"
    with one [of u] n(1) obtain ss s where "raw_succs insns tables (b_end (bs ! u) - 1) = Ok ss" "s \<in> set ss" "v = ow ! s"
      by auto
    with raw_succs_in_range owners_result(2) [OF zero, of s] len n(1) show "v < length bs"
      by (auto simp: ow_def st_def)
  qed
  moreover have "\<forall>b\<in>set bs. b_preds b = []" using one n(1) by (auto simp: in_set_conv_nth)
  ultimately show ?thesis using bs n(1) one by blast
qed

theorem partition_ok:
  assumes "leaders insns tables = Ok leader"
  shows "\<exists>blocks owner. partition_blocks insns tables = Ok (blocks, owner) \<and> blocks_ok insns tables blocks owner"
proof (cases "insns = []")
  case True
  then show ?thesis
    using leaders_result(1) [OF assms] assms
    by (simp add: partition_blocks_def starts_of_def bare_blocks_def link_preds_def owners_def blocks_ok_def
        succs_ok_def edge_def)
next
  case False
  let ?st = "starts_of leader" and ?n = "length insns"
  let ?ow = "owners ?st ?n"
  note len = leaders_result(1) [OF assms] and zero = leaders_result(2) [OF assms False]
  obtain bs where bs: "collect_res (block_succs insns tables ?ow) (bare_blocks ?st ?n) = Ok bs"
    "length bs = length ?st" "\<forall>b\<in>set bs. b_preds b = []" "succs_ok bs"
    and one: "\<And>b. b < length ?st \<Longrightarrow> b_start (bs ! b) = ?st ! b \<and> b_end (bs ! b) = block_end ?st ?n b \<and>
      (\<exists>ss. raw_succs insns tables (b_end (bs ! b) - 1) = Ok ss \<and>
        set (b_succs (bs ! b)) = (!) ?ow ` set ss \<and> distinct (b_succs (bs ! b)))"
    using bare_succs [OF assms False] by blast
  let ?B = "link_preds bs"
  note link = link_preds_result [OF bs(4,3)]
  have same: "length ?B = length ?st" "\<And>b. b < length ?st \<Longrightarrow> b_succs (?B ! b) = b_succs (bs ! b) \<and>
      b_start (?B ! b) = ?st ! b \<and> b_end (?B ! b) = block_end ?st ?n b"
    using link(1) bs(2) one by (auto simp: same_shape_def)
  note ow = owners_result [OF zero, unfolded len]
  have own: "?ow ! j = b" if "b < length ?st" "?st ! b \<le> j" "j < block_end ?st ?n b" for b j
  proof -
    have "j < ?n" using that block_bounds(3) [OF that(1)] len by simp
    with blocks_disjoint [OF that(1) ow(2) _ _ ow(3)] that ow(4) len show ?thesis by metis
  qed
  have "blocks_ok insns tables ?B ?ow"
    unfolding blocks_ok_def
  proof (intro conjI allI impI)
    show "length ?ow = ?n" using ow(1) [of 0] False by simp
    show "succs_ok ?B" using bs(4) same_shape_edge [OF link(1)] same(1) bs(2) by (simp add: succs_ok_def)
    have "?st \<noteq> []" using starts_mem [of 0 leader] zero len False by auto
    then show "?B \<noteq> []" using same(1) by auto
    show "b_start (?B ! 0) = 0"
    proof -
      have "?ow ! 0 < length ?st" "?st ! (?ow ! 0) \<le> 0" using ow(2,3) [of 0] False by simp_all
      moreover have "?st ! 0 < ?st ! k" if "0 < k" "k < length ?st" for k by (rule starts_less [OF that])
      ultimately have "?ow ! 0 = 0" by (metis less_nat_zero_code neq0_conv le_zero_eq)
      with \<open>?st ! (?ow ! 0) \<le> 0\<close> same(2) [of 0] \<open>?st \<noteq> []\<close> show ?thesis by simp
    qed
    show "length ?B \<le> ?n"
      using same(1) len length_filter_le [of "\<lambda>i. leader ! i" "[0..<?n]"] by (simp add: starts_of_def)
    fix j assume j: "j < ?n"
    show "?ow ! j < length ?B" "b_start (?B ! (?ow ! j)) \<le> j" "j < b_end (?B ! (?ow ! j))"
      using ow(2-4) [OF j] same by auto
  next
    fix b assume "b < length ?B"
    then have b: "b < length ?st" using same(1) by simp
    note bb = block_bounds [OF b, unfolded len]
    show "b_start (?B ! b) < b_end (?B ! b)" "b_end (?B ! b) \<le> ?n" using bb(2,3) same(2) [OF b] by simp_all
    show "?ow ! j = b" if "b_start (?B ! b) \<le> j \<and> j < b_end (?B ! b)" for j
      using own [OF b] that same(2) [OF b] by simp
    show "raw_succs insns tables j = Ok [j + 1]" if "b_start (?B ! b) \<le> j \<and> j + 1 < b_end (?B ! b)" for j
      using straight_line [OF assms b, unfolded len] that same(2) [OF b] by simp
    obtain ss where ss: "raw_succs insns tables (block_end ?st ?n b - 1) = Ok ss"
      "set (b_succs (bs ! b)) = (!) ?ow ` set ss" "distinct (b_succs (bs ! b))" using one [OF b] by auto
    have "b_start (?B ! (?ow ! s)) = s" if "s \<in> set ss" for s
    proof -
      have "s < ?n" by (rule raw_succs_in_range [OF ss(1) that])
      moreover have "leader ! s" using last_leads_to_leaders [OF assms b] ss(1) that len by simp
      ultimately have "?st ! (?ow ! s) = s" using leader_is_start [OF zero, of s] len by simp
      with same(2) ow(2) [OF \<open>s < ?n\<close>] show ?thesis by simp
    qed
    with ss same(2) [OF b] show "\<exists>ss. raw_succs insns tables (b_end (?B ! b) - 1) = Ok ss \<and>
        set (b_succs (?B ! b)) = (!) ?ow ` set ss \<and> distinct (b_succs (?B ! b)) \<and>
        (\<forall>s\<in>set ss. b_start (?B ! (?ow ! s)) = s)" by auto
    show "set (b_preds (?B ! b)) = {p. edge ?B p b}"
      using link(2) b bs(2) same_shape_edge [OF link(1)] by simp
  qed
  with bs(1) assms show ?thesis by (simp add: partition_blocks_def Let_def)
qed

lemma partition_no_panic: "partition_blocks insns tables \<noteq> Panic"
proof (cases "leaders insns tables")
  case (Ok leader)
  with partition_ok [OF Ok] show ?thesis by auto
next
  case (Err e)
  then show ?thesis by (simp add: partition_blocks_def)
next
  case Panic
  then show ?thesis using mark_leaders_no_panic [of "[0..<length insns]" insns tables] by (simp add: leaders_def)
qed

end
