(* ===== verification/CV_Flow.thy ===== *)
theory CV_Flow
  imports CV_Build
begin

text \<open>
  The queries of a graph that \<open>Cfg::build\<close> of \<open>src/src/cfg.rs\<close> has built: reverse postorder,
  dominance, immediate dominators, back edges, unreachable blocks, each against its definition
  on the instructions and blocks.
\<close>

section \<open>From the order to the dominators\<close>

lemma before_num:
  assumes "distinct rpo" and "set rpo \<subseteq> {..<n}" and "before rpo u v"
  shows "rpo_numbers n rpo ! u < rpo_numbers n rpo ! v" and "u \<in> set rpo"
  using assms rpo_numbers_nth(1) [OF assms(1,2)] unfolding before_def by auto

lemma rpo_numbered:
  assumes "succs_ok blocks" and "blocks \<noteq> []" and "length blocks \<le> UNDEF" and "rpo_ok blocks rpo"
    and "\<forall>b<length blocks. set (b_preds (blocks ! b)) = {p. edge blocks p b}"
  shows "numbered blocks (rpo_numbers (length blocks) rpo)"
proof -
  let ?num = "rpo_numbers (length blocks) rpo"
  have r: "distinct rpo" "rpo \<noteq> []" "hd rpo = 0" "\<And>v. v \<in> set rpo \<longleftrightarrow> reaches (edge blocks) 0 v"
    "\<And>v. v \<in> set rpo \<Longrightarrow> v = 0 \<or> (\<exists>u. edge blocks u v \<and> before rpo u v)"
    using assms(4) unfolding rpo_ok_def by blast+
  have sub: "set rpo \<subseteq> {..<length blocks}" using r(4) reachable_in_range [OF _ assms(1,2)] by blast
  note num = rpo_numbers_nth [OF r(1) sub]
  have at: "\<exists>i<length rpo. rpo ! i = v \<and> ?num ! v = i" if "v \<in> set rpo" for v
    using that num(1) by (auto simp: in_set_conv_nth)
  have len: "length rpo \<le> length blocks"
    using card_mono [OF finite_lessThan sub] distinct_card [OF r(1)] by simp
  have small: "?num ! b < length blocks" if "reaches (edge blocks) 0 b" for b
    using at [of b] that r(4) len by auto
  have inj: "a = b" if "?num ! a = ?num ! b" "reaches (edge blocks) 0 a" "reaches (edge blocks) 0 b" for a b
    using at [of a] at [of b] that r(4) by auto
  have zero: "?num ! 0 = 0" using num(1) [of 0] r(2,3) by (simp add: hd_conv_nth)
  have smaller: "\<exists>u. edge blocks u b \<and> reaches (edge blocks) 0 u \<and> ?num ! u < ?num ! b"
    if "reaches (edge blocks) 0 b" "b \<noteq> 0" for b
  proof -
    have "b \<in> set rpo" using r(4) that(1) by blast
    from r(5) [OF this] that(2) obtain u where u: "edge blocks u b" "before rpo u b" by blast
    from before_num [OF r(1) sub u(2)] r(4) u(1) show ?thesis by blast
  qed
  have undef: "?num ! b = UNDEF" if "b < length blocks" "\<not> reaches (edge blocks) 0 b" for b
    using num(2) [OF that(1)] r(4) that(2) by blast
  have "length ?num = length blocks" by simp
  with assms(1-3,5) zero show ?thesis
    unfolding numbered_def by (intro conjI allI impI) (blast intro: undef small inj smaller)+
qed

lemma numbered_from_nth:
  assumes "\<And>j. j < length bs \<Longrightarrow> reaches (edge blocks) 0 (bs ! j) \<and> bs ! j \<noteq> 0 \<and> num ! (bs ! j) = i + j"
  shows "numbered_from blocks num i bs"
  using assms
proof (induction bs arbitrary: i)
  case (Cons b bs)
  have "numbered_from blocks num (Suc i) bs" by (rule Cons.IH) (use Cons.prems [of "Suc _"] in auto)
  with Cons.prems [of 0] show ?case by simp
qed simp

theorem dominators_settled:
  assumes "succs_ok blocks" and "blocks \<noteq> []" and "length blocks \<le> UNDEF" and "rpo_ok blocks rpo"
    and "\<forall>b<length blocks. set (b_preds (blocks ! b)) = {p. edge blocks p b}"
  shows "\<exists>ids. dominators blocks rpo (rpo_numbers (length blocks) rpo) = Some (Ok ids) \<and>
     settled blocks (rpo_numbers (length blocks) rpo) ids"
proof -
  let ?num = "rpo_numbers (length blocks) rpo"
  have r: "distinct rpo" "rpo \<noteq> []" "hd rpo = 0" "\<And>v. v \<in> set rpo \<longleftrightarrow> reaches (edge blocks) 0 v"
    using assms(4) unfolding rpo_ok_def by blast+
  have sub: "set rpo \<subseteq> {..<length blocks}" using r(4) reachable_in_range [OF _ assms(1,2)] by blast
  note num = rpo_numbers_nth(1) [OF r(1) sub]
  obtain rest where rest: "rpo = 0 # rest" using r(2,3) by (cases rpo) auto
  have "numbered_from blocks ?num 1 rest"
  proof (rule numbered_from_nth)
    fix j assume "j < length rest"
    with r(1,4) rest num [of "Suc j"]
    show "reaches (edge blocks) 0 (rest ! j) \<and> rest ! j \<noteq> 0 \<and> ?num ! (rest ! j) = 1 + j"
      using nth_mem [of j rest] by (metis One_nat_def Suc_eq_plus1_left Suc_less_eq distinct.simps(2) length_Cons
          list.set_intros(2) nth_Cons_Suc)
  qed
  moreover have "?num ! b < Suc (length rest) \<and> (b = 0 \<or> b \<in> set rest)" if "reaches (edge blocks) 0 b" for b
  proof -
    have "b \<in> set rpo" using r(4) that by blast
    then obtain i where i: "i < length rpo" "rpo ! i = b" by (auto simp: in_set_conv_nth)
    have "?num ! b = i" using num [OF i(1)] i(2) by simp
    with i rest show ?thesis by (cases i) auto
  qed
  ultimately have "\<exists>ids. dom_loop blocks rpo ?num ((replicate (length blocks) UNDEF)[0 := 0]) = Some (Ok ids) \<and>
      settled blocks ?num ids"
    using dom_loop_runs [OF rpo_numbered [OF assms] _ _ start_inv [OF rpo_numbered [OF assms]], of rpo] rest
    by simp
  then show ?thesis by (simp add: dominators_def rest)
qed

section \<open>Graphs as built\<close>

text \<open>Everything that holds of a graph \<open>c\<close> of a function with instructions.\<close>

definition cfg_ok :: "u32 list list \<Rightarrow> cfg \<Rightarrow> bool" where
  "cfg_ok tables c \<longleftrightarrow> blocks_ok (c_insns c) tables (c_blocks c) (c_owner c) \<and>
     length (c_blocks c) \<le> UNDEF \<and> c_rpo_num c = rpo_numbers (length (c_blocks c)) (c_rpo c) \<and>
     (if c_blocks c = [] then c_rpo c = [] \<and> c_idoms c = []
      else rpo_ok (c_blocks c) (c_rpo c) \<and> settled (c_blocks c) (c_rpo_num c) (c_idoms c))"

definition reachable_block :: "cfg \<Rightarrow> nat \<Rightarrow> bool" where
  "reachable_block c b \<longleftrightarrow> c_blocks c \<noteq> [] \<and> reaches (edge (c_blocks c)) 0 b"

definition dominator :: "cfg \<Rightarrow> nat \<Rightarrow> nat \<Rightarrow> bool" where
  "dominator c a b \<longleftrightarrow> c_blocks c \<noteq> [] \<and> on_every_walk (edge (c_blocks c)) 0 a b"

lemma cfg_okD:
  assumes "cfg_ok tables c" and "c_blocks c \<noteq> []"
  shows "succs_ok (c_blocks c)" and "rpo_ok (c_blocks c) (c_rpo c)"
    and "settled (c_blocks c) (c_rpo_num c) (c_idoms c)"
    and "c_rpo_num c = rpo_numbers (length (c_blocks c)) (c_rpo c)"
    and "numbered (c_blocks c) (c_rpo_num c)"
proof -
  have both: "rpo_ok (c_blocks c) (c_rpo c) \<and> settled (c_blocks c) (c_rpo_num c) (c_idoms c)"
    using assms(1) unfolding cfg_ok_def if_not_P [OF assms(2)] by blast
  show s: "succs_ok (c_blocks c)" "rpo_ok (c_blocks c) (c_rpo c)"
    "settled (c_blocks c) (c_rpo_num c) (c_idoms c)" "c_rpo_num c = rpo_numbers (length (c_blocks c)) (c_rpo c)"
    using assms(1) both unfolding cfg_ok_def blocks_ok_def by blast+
  have "\<forall>b<length (c_blocks c). set (b_preds (c_blocks c ! b)) = {p. edge (c_blocks c) p b}"
    "length (c_blocks c) \<le> UNDEF"
    using assms(1) unfolding cfg_ok_def blocks_ok_def by blast+
  with rpo_numbered [OF s(1) assms(2) _ s(2)] s(4) show "numbered (c_blocks c) (c_rpo_num c)" by simp
qed

lemma reachable_less: "cfg_ok tables c \<Longrightarrow> reachable_block c b \<Longrightarrow> b < length (c_blocks c)"
  using reachable_in_range cfg_okD(1) unfolding reachable_block_def by blast

lemma rpo_num_undef:
  assumes "cfg_ok tables c" and "b < length (c_blocks c)"
  shows "c_rpo_num c ! b = UNDEF \<longleftrightarrow> \<not> reachable_block c b"
proof -
  have ne: "c_blocks c \<noteq> []" using assms(2) by auto
  note n = cfg_okD(5) [OF assms(1) ne]
  have "reaches (edge (c_blocks c)) 0 b \<Longrightarrow> c_rpo_num c ! b \<noteq> UNDEF"
    using numberedD(4,7) [OF n] by (metis leD)
  with numberedD(6) [OF n assms(2)] ne show ?thesis unfolding reachable_block_def by blast
qed

lemma idom_parent:
  assumes "cfg_ok tables c" and "reachable_block c b"
  shows "idom c b = (if b = 0 then None else Some (c_idoms c ! b))"
proof -
  have ne: "c_blocks c \<noteq> []" using assms(2) by (simp add: reachable_block_def)
  have t: "tree (c_blocks c) (c_rpo_num c) (c_idoms c)" and h: "has_idom (c_blocks c) (c_idoms c) b"
    using cfg_okD(3) [OF assms(1) ne] assms(2) unfolding settled_def all_done_def reachable_block_def by blast+
  note td = treeD [OF t]
  have b: "nth_get (c_idoms c) b = Some (c_idoms c ! b)"
    using reachable_less [OF assms] td(1) by (simp add: nth_get_def)
  show ?thesis
  proof (cases "b = 0")
    case True
    then show ?thesis using b td(2) by (simp add: idom_def)
  next
    case False
    have "c_idoms c ! b \<noteq> b" using td(5) [OF h False] by auto
    moreover have "c_idoms c ! b \<noteq> UNDEF" using h by (simp add: has_idom_def)
    ultimately show ?thesis using b False by (simp add: idom_def)
  qed
qed

lemma on_chain_anc:
  assumes "cfg_ok tables c" and "reachable_block c b"
  shows "on_chain c a b = Some (anc (c_idoms c) b a)"
  using assms(2)
proof (induction "c_rpo_num c ! b" arbitrary: b rule: less_induct)
  case less
  note up = idom_parent [OF assms(1) less.prems] and unfold = anc_unfold [of "c_idoms c" b a]
  have ne: "c_blocks c \<noteq> []" using less.prems by (simp add: reachable_block_def)
  have t: "tree (c_blocks c) (c_rpo_num c) (c_idoms c)" and h: "has_idom (c_blocks c) (c_idoms c) b"
    using cfg_okD(3) [OF assms(1) ne] less.prems unfolding settled_def all_done_def reachable_block_def by blast+
  show ?case
  proof (cases "b = a \<or> b = 0")
    case True
    with up unfold show ?thesis by (subst on_chain.simps) auto
  next
    case False
    then have "b \<noteq> 0" by blast
    have "reachable_block c (c_idoms c ! b)"
      using treeD(3) [OF t treeD(4) [OF t h \<open>b \<noteq> 0\<close>]] ne by (simp add: reachable_block_def)
    from less.hyps [OF treeD(5) [OF t h \<open>b \<noteq> 0\<close>] this] False up unfold
    show ?thesis by (subst on_chain.simps) simp
  qed
qed

text \<open>\<open>dominates\<close> answers, and the answer is dominance.\<close>

theorem dominates_dominator:
  assumes "cfg_ok tables c"
  shows "dominates c a b = Some (dominator c a b)"
proof (cases "length (c_blocks c) \<le> a \<or> length (c_blocks c) \<le> b \<or> c_rpo_num c ! a = UNDEF \<or> c_rpo_num c ! b = UNDEF")
  case False
  then have b: "reachable_block c b" using rpo_num_undef [OF assms] by auto
  then have ne: "c_blocks c \<noteq> []" and r: "reaches (edge (c_blocks c)) 0 b" by (simp_all add: reachable_block_def)
  from settled_dominators [OF cfg_okD(3) [OF assms ne] r] on_chain_anc [OF assms b] False ne
  show ?thesis by (simp add: dominates_def dominator_def)
next
  case True
  have "\<not> dominator c a b"
  proof
    assume d: "dominator c a b"
    then have ne: "c_blocks c \<noteq> []" and r: "reaches (edge (c_blocks c)) 0 b"
      by (auto simp: dominator_def dest: dom_reaches)
    then have b: "reachable_block c b" by (simp add: reachable_block_def)
    have t: "tree (c_blocks c) (c_rpo_num c) (c_idoms c)" and h: "has_idom (c_blocks c) (c_idoms c) b"
      using cfg_okD(3) [OF assms ne] r unfolding settled_def all_done_def by blast+
    have "anc (c_idoms c) b a"
      using settled_dominators [OF cfg_okD(3) [OF assms ne] r] d by (simp add: dominator_def)
    with anc_num [OF this t h] have "has_idom (c_blocks c) (c_idoms c) a" by blast
    then have "reachable_block c a" using treeD(3) [OF t] ne by (simp add: reachable_block_def)
    with b True reachable_less [OF assms] rpo_num_undef [OF assms] show False by (metis leD)
  qed
  with True show ?thesis by (auto simp: dominates_def)
qed

text \<open>\<open>idom\<close> is the strict dominator that all others dominate.\<close>

theorem idom_immediate:
  assumes "cfg_ok tables c" and "reachable_block c b"
  shows "idom c b = Some d \<longleftrightarrow> d \<noteq> b \<and> dominator c d b \<and> (\<forall>a. a \<noteq> b \<and> dominator c a b \<longrightarrow> dominator c a d)"
proof -
  have ne: "c_blocks c \<noteq> []" and r: "reaches (edge (c_blocks c)) 0 b"
    using assms(2) by (simp_all add: reachable_block_def)
  note set = cfg_okD(3) [OF assms(1) ne]
  have t: "tree (c_blocks c) (c_rpo_num c) (c_idoms c)" and h: "has_idom (c_blocks c) (c_idoms c) b"
    using set r unfolding settled_def all_done_def by blast+
  have dom: "dominator c a x \<longleftrightarrow> anc (c_idoms c) x a" if "reaches (edge (c_blocks c)) 0 x" for a x
    using settled_dominators [OF set that] ne by (simp add: dominator_def)
  show ?thesis
  proof (cases "b = 0")
    case True
    have "\<not> (d \<noteq> b \<and> dominator c d b)" using dom_root [of "edge (c_blocks c)" 0 d] True by (auto simp: dominator_def)
    with True idom_parent [OF assms] show ?thesis by auto
  next
    case False
    let ?p = "c_idoms c ! b"
    note p = treeD(4,5) [OF t h False]
    have rp: "reaches (edge (c_blocks c)) 0 ?p" by (rule treeD(3) [OF t p(1)])
    have strict: "a \<noteq> b \<and> dominator c a b \<longleftrightarrow> anc (c_idoms c) ?p a" for a
    proof
      assume "anc (c_idoms c) ?p a"
      with anc_num [OF this t p(1)] p(2) dom [OF r] anc.up [OF False] show "a \<noteq> b \<and> dominator c a b" by auto
    qed (use dom [OF r] anc_unfold [of "c_idoms c" b a] in auto)
    have "?p = d \<longleftrightarrow> anc (c_idoms c) ?p d \<and> (\<forall>a. anc (c_idoms c) ?p a \<longrightarrow> dominator c a d)"
    proof
      assume "?p = d"
      then show "anc (c_idoms c) ?p d \<and> (\<forall>a. anc (c_idoms c) ?p a \<longrightarrow> dominator c a d)"
        using dom [OF rp] anc.here by auto
    next
      assume d: "anc (c_idoms c) ?p d \<and> (\<forall>a. anc (c_idoms c) ?p a \<longrightarrow> dominator c a d)"
      then have nd: "has_idom (c_blocks c) (c_idoms c) d" "num d \<le> num ?p \<and> (d \<noteq> ?p \<longrightarrow> num d < num ?p)"
        if "num = (\<lambda>x. c_rpo_num c ! x)" for num using anc_num [OF _ t p(1)] that by auto
      have "dominator c ?p d" using d anc.here by blast
      then have "anc (c_idoms c) d ?p" using dom treeD(3) [OF t] nd(1) by blast
      from anc_num [OF this t] nd show "?p = d" by fastforce
    qed
    with strict False idom_parent [OF assms] show ?thesis by auto
  qed
qed

section \<open>Back edges and dead blocks\<close>

lemma edges_dominated_result:
  assumes "cfg_ok tables c"
  shows "edges_dominated c es = Some (filter (\<lambda>(t, h). dominator c h t) es)"
  by (induction es) (auto simp: dominates_dominator [OF assms])

theorem find_back_edges_result:
  assumes "cfg_ok tables c"
  shows "\<exists>es. find_back_edges c = Some es \<and>
     set es = {(t, h). edge (c_blocks c) t h \<and> reachable_block c t \<and> dominator c h t}"
  using reachable_less [OF assms] rpo_num_undef [OF assms]
  by (auto simp: find_back_edges_def edges_dominated_result [OF assms] edge_def)

theorem unreachable_result:
  assumes "cfg_ok tables c"
  shows "set (unreachable c) = {b. b < length (c_blocks c) \<and> \<not> reachable_block c b}"
proof -
  have "length (c_rpo_num c) = length (c_blocks c)" using assms unfolding cfg_ok_def by simp
  with rpo_num_undef [OF assms] show ?thesis by (auto simp: unreachable_def)
qed

section \<open>Building\<close>

lemma obind_Some_Ok: "obind m f = Some (Ok y) \<longleftrightarrow> (\<exists>x. m = Some (Ok x) \<and> f x = Some (Ok y))"
  by (cases "(m, f)" rule: obind.cases) auto

text \<open>Once the blocks are there, nothing fails any more.\<close>

lemma build_blocks:
  assumes "decode_range code f = Ok (insns, ats)" and "partition_blocks insns tables = Ok (blocks, owner)"
    and "blocks_ok insns tables blocks owner"
  shows "\<exists>c. build code f tables = Some (Ok c) \<and> cfg_ok tables c \<and> c_insns c = insns \<and> c_offsets c = ats \<and>
     c_blocks c = blocks \<and> c_owner c = owner \<and> find_back_edges c = Some (c_back_edges c)"
proof -
  have bound: "length blocks \<le> UNDEF"
    using assms(3) decode_range_small(2) [OF assms(1)] by (simp add: blocks_ok_def UNDEF_def)
  have so: "succs_ok blocks" and pr: "\<forall>b<length blocks. set (b_preds (blocks ! b)) = {p. edge blocks p b}"
    using assms(3) unfolding blocks_ok_def by blast+
  have "\<exists>rpo ids. reverse_postorder blocks = Ok rpo \<and>
      dominators blocks rpo (rpo_numbers (length blocks) rpo) = Some (Ok ids) \<and>
      (if blocks = [] then rpo = [] \<and> ids = []
       else rpo_ok blocks rpo \<and> settled blocks (rpo_numbers (length blocks) rpo) ids)"
  proof (cases "blocks = []")
    case True
    then show ?thesis by (simp add: reverse_postorder_def dominators_def)
  next
    case False
    from reverse_postorder_ok [OF so False] obtain rpo where rpo: "reverse_postorder blocks = Ok rpo" "rpo_ok blocks rpo"
      by blast
    with dominators_settled [OF so False bound rpo(2) pr] False show ?thesis by auto
  qed
  then obtain rpo ids where r: "reverse_postorder blocks = Ok rpo"
    "dominators blocks rpo (rpo_numbers (length blocks) rpo) = Some (Ok ids)"
    "if blocks = [] then rpo = [] \<and> ids = []
     else rpo_ok blocks rpo \<and> settled blocks (rpo_numbers (length blocks) rpo) ids" by blast
  let ?c = "\<lparr>c_insns = insns, c_offsets = ats, c_blocks = blocks, c_owner = owner, c_rpo = rpo,
    c_rpo_num = rpo_numbers (length blocks) rpo, c_idoms = ids, c_back_edges = []\<rparr>"
  have ok: "cfg_ok tables (?c\<lparr>c_back_edges := es\<rparr>)" for es
    using assms(3) bound r(3) by (simp add: cfg_ok_def)
  from find_back_edges_result [OF ok [of "[]"]] obtain es where es: "find_back_edges ?c = Some es" by auto
  have "cfg_ok tables ?c" using ok [of "[]"] by simp
  from edges_dominated_result [OF this] edges_dominated_result [OF ok [of es]]
  have "find_back_edges (?c\<lparr>c_back_edges := es\<rparr>) = find_back_edges ?c"
    by (simp add: find_back_edges_def dominator_def cong: if_cong)
  with es assms(1,2) r(1,2) ok [of es] show ?thesis
    by (intro exI [of _ "?c\<lparr>c_back_edges := es\<rparr>"]) (simp add: build_def Let_def)
qed

text \<open>\<open>build\<close> returns, and does not panic.\<close>

theorem build_returns: "\<exists>r. build code f tables = Some r \<and> r \<noteq> Panic \<and> (\<forall>c. r = Ok c \<longrightarrow> cfg_ok tables c)"
proof (cases "decode_range code f")
  case (Ok x)
  obtain insns ats where x: "x = (insns, ats)" by fastforce
  show ?thesis
  proof (cases "leaders insns tables")
    case l: (Ok leader)
    from partition_ok [OF l] obtain blocks owner where p: "partition_blocks insns tables = Ok (blocks, owner)"
      "blocks_ok insns tables blocks owner" by blast
    from build_blocks [OF _ p] Ok x obtain c where "build code f tables = Some (Ok c)" "cfg_ok tables c" by blast
    then show ?thesis by simp
  next
    case (Err e)
    then have "partition_blocks insns tables = Err e" by (simp add: partition_blocks_def)
    with Ok x show ?thesis by (simp add: build_def)
  next
    case Panic
    then have "partition_blocks insns tables = Panic" by (simp add: partition_blocks_def)
    then show ?thesis using partition_no_panic by blast
  qed
next
  case (Err e)
  then show ?thesis by (simp add: build_def)
next
  case Panic
  then show ?thesis using decode_range_no_panic by blast
qed

theorem build_Ok:
  assumes "build code f tables = Some (Ok c)"
  shows "cfg_ok tables c" and "decode_range code f = Ok (c_insns c, c_offsets c)"
    and "find_back_edges c = Some (c_back_edges c)"
proof -
  from assms obtain insns ats blocks owner where d: "decode_range code f = Ok (insns, ats)"
    and p: "partition_blocks insns tables = Ok (blocks, owner)"
    unfolding build_def by (auto simp: obind_Some_Ok)
  from p obtain leader where "leaders insns tables = Ok leader" by (auto simp: partition_blocks_def rbind_eq_Ok)
  from partition_ok [OF this] p have "blocks_ok insns tables blocks owner" by auto
  from build_blocks [OF d p this] assms d show "cfg_ok tables c" "decode_range code f = Ok (c_insns c, c_offsets c)"
    "find_back_edges c = Some (c_back_edges c)" by auto
qed

section \<open>Blocks and instructions\<close>

lemma block_facts:
  assumes "blocks_ok insns tables blocks owner" and "b < length blocks"
  shows "b_start (blocks ! b) < b_end (blocks ! b)" and "b_end (blocks ! b) \<le> length insns"
    and "\<And>j. b_start (blocks ! b) \<le> j \<Longrightarrow> j < b_end (blocks ! b) \<Longrightarrow> owner ! j = b"
    and "\<And>j. b_start (blocks ! b) \<le> j \<Longrightarrow> j + 1 < b_end (blocks ! b) \<Longrightarrow> raw_succs insns tables j = Ok [j + 1]"
    and "\<exists>ss. raw_succs insns tables (b_end (blocks ! b) - 1) = Ok ss \<and>
           set (b_succs (blocks ! b)) = (!) owner ` set ss \<and> (\<forall>s\<in>set ss. b_start (blocks ! (owner ! s)) = s)"
  using assms unfolding blocks_ok_def by blast+

lemma owner_facts:
  assumes "blocks_ok insns tables blocks owner" and "j < length insns"
  shows "owner ! j < length blocks" and "b_start (blocks ! (owner ! j)) \<le> j" and "j < b_end (blocks ! (owner ! j))"
  using assms unfolding blocks_ok_def by blast+

text \<open>Control moves inside a block, or from its last instruction to the first one of a successor.\<close>

theorem flow_blocks:
  assumes "blocks_ok insns tables blocks owner" and "i < length insns" and "j < length insns"
  shows "flow insns tables i j \<longleftrightarrow>
     (if i + 1 < b_end (blocks ! (owner ! i)) then j = i + 1
      else edge blocks (owner ! i) (owner ! j) \<and> j = b_start (blocks ! (owner ! j)))"
proof -
  let ?b = "owner ! i"
  note o = owner_facts [OF assms(1,2)]
  note bf = block_facts [OF assms(1) o(1)]
  show ?thesis
  proof (cases "i + 1 < b_end (blocks ! ?b)")
    case True
    with bf(4) [OF o(2)] show ?thesis by (simp add: flow_def)
  next
    case False
    then have last: "b_end (blocks ! ?b) - 1 = i" using o(3) by simp
    obtain ss where ss: "raw_succs insns tables i = Ok ss" "set (b_succs (blocks ! ?b)) = (!) owner ` set ss"
      "\<forall>s\<in>set ss. b_start (blocks ! (owner ! s)) = s" using bf(5) last by auto
    have "flow insns tables i j \<longleftrightarrow> j \<in> set ss" using ss(1) by (simp add: flow_def)
    moreover have "edge blocks ?b (owner ! j) \<longleftrightarrow> owner ! j \<in> (!) owner ` set ss" using ss(2) o(1) by (simp add: edge_def)
    ultimately show ?thesis using False ss(3) by auto
  qed
qed

lemma flow_in_range: "flow insns tables i j \<Longrightarrow> j < length insns"
  using raw_succs_in_range by (auto simp: flow_def)

lemma reach_in_block:
  assumes "blocks_ok insns tables blocks owner" and "reaches (flow insns tables) 0 (b_start (blocks ! b))"
    and "b < length blocks" and "b_start (blocks ! b) \<le> j" and "j < b_end (blocks ! b)"
  shows "reaches (flow insns tables) 0 j"
  using assms(4,5)
proof (induction "j - b_start (blocks ! b)" arbitrary: j)
  case 0
  then show ?case using assms(2) by simp
next
  case (Suc k)
  then have "reaches (flow insns tables) 0 (j - 1)" by simp
  moreover have "flow insns tables (j - 1) j"
    using block_facts(4) [OF assms(1,3), of "j - 1"] Suc by (simp add: flow_def)
  ultimately show ?case by blast
qed

text \<open>An instruction can be reached exactly when its block can.\<close>

theorem reach_blocks:
  assumes "blocks_ok insns tables blocks owner" and "j < length insns"
  shows "reaches (flow insns tables) 0 j \<longleftrightarrow> reaches (edge blocks) 0 (owner ! j)"
proof
  have ne: "insns \<noteq> []" using assms(2) by (cases insns) auto
  then have b0: "blocks \<noteq> []" "b_start (blocks ! 0) = 0" "succs_ok blocks"
    using assms(1) unfolding blocks_ok_def by blast+
  have own0: "owner ! 0 = 0"
    using block_facts(1,3) [OF assms(1), of 0] b0 by simp
  {
    fix i assume "reaches (flow insns tables) 0 i"
    then have "i < length insns \<and> reaches (edge blocks) 0 (owner ! i)"
    proof (induction rule: reaches_induct)
      case (step i k)
      then have k: "k < length insns" using flow_in_range by blast
      show ?case
      proof (cases "i + 1 < b_end (blocks ! (owner ! i))")
        case True
        with step flow_blocks [OF assms(1) _ k] have "k = i + 1" by auto
        with True step owner_facts [OF assms(1), of i] block_facts(3) [OF assms(1), of "owner ! i" k] k
        show ?thesis by simp
      next
        case False
        with step flow_blocks [OF assms(1) _ k] have "edge blocks (owner ! i) (owner ! k)" by auto
        with step k show ?thesis by blast
      qed
    qed (use ne own0 in auto)
  }
  then show "reaches (flow insns tables) 0 j \<Longrightarrow> reaches (edge blocks) 0 (owner ! j)" by blast
  {
    fix b assume "reaches (edge blocks) 0 b"
    then have "b < length blocks \<and> reaches (flow insns tables) 0 (b_start (blocks ! b))"
    proof (induction rule: reaches_induct)
      case (step b c)
      note bf = block_facts [OF assms(1), of b]
      have c: "c < length blocks" using step b0(3) unfolding succs_ok_def by blast
      have "reaches (flow insns tables) 0 (b_end (blocks ! b) - 1)"
        by (rule reach_in_block [OF assms(1), of b]) (use step bf(1) in auto)
      moreover obtain ss s where ss: "raw_succs insns tables (b_end (blocks ! b) - 1) = Ok ss" "s \<in> set ss"
        "c = owner ! s" "b_start (blocks ! c) = s" using bf(5) step by (auto simp: edge_def)
      then have "flow insns tables (b_end (blocks ! b) - 1) (b_start (blocks ! c))" by (auto simp: flow_def)
      ultimately show ?case using c by blast
    qed (use b0 in auto)
  }
  note from_root = this
  note o = owner_facts [OF assms]
  assume "reaches (edge blocks) 0 (owner ! j)"
  from reach_in_block [OF assms(1) _ o] from_root [OF this] show "reaches (flow insns tables) 0 j" by blast
qed

end
