(* ===== verification/CV_Object.thy ===== *)
theory CV_Object
  imports CV_Machine
begin

text \<open>The unverified output of the assembler, \<open>Object\<close> of \<open>src/src/asm.rs\<close>.\<close>

record obj =
  o_name :: bytes
  o_constants :: "bytes list"
  o_funcs :: "func_meta list"
  o_tools :: "bytes list"
  o_code :: bytes
  o_jump_tables :: "u32 list list"
  o_entry :: "bytes option"

definition obj_default :: obj where
  "obj_default = \<lparr>o_name = [], o_constants = [], o_funcs = [], o_tools = [], o_code = [],
     o_jump_tables = [], o_entry = None\<rparr>"

end
