(* ===== verification/CV_Verify.thy ===== *)
theory CV_Verify
  imports CV_Flow CV_Object "HOL-Library.AList"
begin

text \<open>
  The verifier, \<open>src/src/verify.rs\<close>: \<open>admit\<close> checks every function of an \<open>Object\<close> of
  \<open>src/src/asm.rs\<close> and builds the image. What it calls of \<open>image.rs\<close>, which is not in the
  repository (\<open>seal_decode_check\<close>, \<open>build\<close> and \<open>mark_verified\<close>), are arguments of \<open>admit\<close>.
\<close>

section \<open>The walk over the instructions\<close>

text \<open>The values of the map from function names to indices: a later function of the same name
  replaces an earlier one.\<close>

definition func_index :: "func_meta list \<Rightarrow> (bytes \<times> nat) list" where
  "func_index funcs =
     foldl (\<lambda>m i. AList.update (fm_name (funcs ! i)) i m) [] [0..<length funcs]"

definition check_operand :: "(bytes \<times> nat) list \<Rightarrow> nat \<Rightarrow> nat \<Rightarrow> nat \<Rightarrow> decoded \<Rightarrow> unit result" where
  "check_operand index n_tables n_consts i d =
     (let k = operand (insn (d_op d)); b = unat (d_b d) in
      if k = OprConst \<and> n_consts \<le> b then bad DanglingIndex i
      else if k = OprFunc \<and> b \<notin> snd ` set index then bad DanglingIndex i
      else if k = OprJumpTable \<and> n_tables \<le> b then bad DanglingIndex i
      else Ok ())"

text \<open>The abstract stack is a depth and a list of types, its top at the head.\<close>

fun pop_types :: "nat \<Rightarrow> ty list \<Rightarrow> int \<times> ty list \<Rightarrow> (int \<times> ty list) result" where
  "pop_types i [] s = Ok s"
| "pop_types i (want # ws) (depth, []) = bad StackUnderflow i"
| "pop_types i (want # ws) (depth, got # st) =
     (if satisfies got want then pop_types i ws (depth - 1, st) else bad TypeMismatch i)"

fun push_types :: "u16 \<Rightarrow> nat \<Rightarrow> ty list \<Rightarrow> int \<times> ty list \<Rightarrow> (int \<times> ty list) result" where
  "push_types mx i [] s = Ok s"
| "push_types mx i (t # ts) (depth, st) =
     (if uint mx < depth + 1 then bad MaxstackExceeded i
      else push_types mx i ts (depth + 1, t # st))"

definition stack_effect :: "u16 \<Rightarrow> nat \<Rightarrow> decoded \<Rightarrow> int \<times> ty list \<Rightarrow> (int \<times> ty list) result" where
  "stack_effect mx i d s =
     (let row = insn (d_op d) in
      if variadic row then Ok (0, [])
      else rbind (pop_types i (pops row) s) (push_types mx i (pushes row)))"

definition scan_insn ::
    "(bytes \<times> nat) list \<Rightarrow> nat \<Rightarrow> nat \<Rightarrow> u16 \<Rightarrow> nat \<Rightarrow> decoded \<Rightarrow> int \<times> ty list \<Rightarrow> (int \<times> ty list) result" where
  "scan_insn index n_tables n_consts mx i d s =
     rbind (check_operand index n_tables n_consts i d) (\<lambda>_.
     rbind (stack_effect mx i d s) (\<lambda>(depth, st).
       if d_op d \<in> {OpRet, OpTail} \<and> TyPending \<in> set st then bad PendingEscape i
       else if d_op d \<in> {OpCheckpoint, OpFork, OpCommit} \<and> TyPending \<in> set st then bad LivePending i
       else Ok (depth, st)))"

fun scan ::
    "(bytes \<times> nat) list \<Rightarrow> nat \<Rightarrow> nat \<Rightarrow> u16 \<Rightarrow> nat \<Rightarrow> decoded list \<Rightarrow> int \<times> ty list \<Rightarrow> unit result" where
  "scan index n_tables n_consts mx i [] s = Ok ()"
| "scan index n_tables n_consts mx i (d # ds) s =
     rbind (scan_insn index n_tables n_consts mx i d s) (scan index n_tables n_consts mx (i + 1) ds)"

section \<open>Loops and forks\<close>

definition metering :: "op list" where
  "metering = [OpReserve, OpSpend, OpRelease, OpQueryQ]"

text \<open>\<open>insns[a..=b]\<close> panics when it starts behind its end, or runs past the slice.\<close>

definition window_ops :: "decoded list \<Rightarrow> nat \<Rightarrow> nat \<Rightarrow> op list result" where
  "window_ops insns a b =
     (if b + 1 < a \<or> length insns < b + 1 then Panic
      else Ok (map d_op (take (b + 1 - a) (drop a insns))))"

fun check_loops :: "decoded list \<Rightarrow> (nat \<times> nat) list \<Rightarrow> unit result" where
  "check_loops insns [] = Ok ()"
| "check_loops insns ((a, b) # es) =
     rbind (window_ops insns a b) (\<lambda>win.
       if list_ex (\<lambda>x. x \<in> set metering) win then check_loops insns es else bad UnmeteredLoop a)"

definition fork_balance :: "decoded list \<Rightarrow> int" where
  "fork_balance insns =
     foldl (\<lambda>acc d. acc + (if d_op d = OpFork then 1 else if d_op d \<in> {OpCommit, OpAbort} then -1 else 0)) 0 insns"

section \<open>Functions and objects\<close>

definition check_graph :: "(bytes \<times> nat) list \<Rightarrow> nat \<Rightarrow> nat \<Rightarrow> u16 \<Rightarrow> cfg \<Rightarrow> unit result" where
  "check_graph index n_tables n_consts mx g =
     (let insns = c_insns g in
      rbind (scan index n_tables n_consts mx 0 insns (0, [])) (\<lambda>_.
      rbind (if list_ex (\<lambda>d. d_op d \<in> {OpRet, OpTail, OpHalt, OpTrap}) insns then Ok () else bad BadTarget 0) (\<lambda>_.
      rbind (check_loops insns (c_back_edges g)) (\<lambda>_.
        if fork_balance insns \<noteq> 0 then bad ForkImbalance 0 else Ok ()))))"

definition check_function ::
    "bytes \<Rightarrow> func_meta \<Rightarrow> (bytes \<times> nat) list \<Rightarrow> u32 list list \<Rightarrow> nat \<Rightarrow> unit result option" where
  "check_function code f index tables n_consts =
     (if fm_maxstack f = 0 then Some (bad MissingMaxstack 0)
      else obind (build code f tables) (\<lambda>g.
        Some (check_graph index (length tables) n_consts (fm_maxstack f) g)))"

fun check_functions ::
    "bytes \<Rightarrow> func_meta list \<Rightarrow> (bytes \<times> nat) list \<Rightarrow> u32 list list \<Rightarrow> nat \<Rightarrow> unit result option" where
  "check_functions code [] index tables n_consts = Some (Ok ())"
| "check_functions code (f # fs) index tables n_consts =
     obind (check_function code f index tables n_consts) (\<lambda>_. check_functions code fs index tables n_consts)"

definition admit ::
    "(bytes \<Rightarrow> unit result) \<Rightarrow> (obj \<Rightarrow> 'img) \<Rightarrow> ('img \<Rightarrow> 'img) \<Rightarrow> obj \<Rightarrow> 'img result option" where
  "admit seal_decode_check build_image mark_verified x =
     obind (Some (seal_decode_check (o_code x))) (\<lambda>_.
       if o_funcs x = [] then Some (fail NoEntryPoint)
       else obind (check_functions (o_code x) (o_funcs x) (func_index (o_funcs x)) (o_jump_tables x)
               (length (o_constants x))) (\<lambda>_.
            Some (Ok (mark_verified (build_image x)))))"

section \<open>It returns\<close>

lemma check_function_returns: "\<exists>r. check_function code f index tables n = Some r"
proof (cases "fm_maxstack f = 0")
  case False
  obtain r where "build code f tables = Some r" using build_returns by blast
  with False show ?thesis by (cases r) (simp_all add: check_function_def)
qed (simp add: check_function_def)

lemma check_functions_returns: "\<exists>r. check_functions code fs index tables n = Some r"
proof (induction fs)
  case (Cons f fs)
  obtain r where "check_function code f index tables n = Some r" using check_function_returns by blast
  with Cons show ?case by (cases r) auto
qed simp

theorem admit_returns: "\<exists>r. admit seal mk mark x = Some r"
proof (cases "seal (o_code x)")
  case (Ok u)
  obtain r where "check_functions (o_code x) (o_funcs x) (func_index (o_funcs x)) (o_jump_tables x)
      (length (o_constants x)) = Some r" using check_functions_returns by blast
  with Ok show ?thesis by (cases r) (simp_all add: admit_def)
qed (simp_all add: admit_def)

section \<open>What the walk checks\<close>

lemma pop_types_no_panic [simp]: "pop_types i ws s \<noteq> Panic"
  by (induction i ws s rule: pop_types.induct) auto

lemma push_types_no_panic [simp]: "push_types mx i ts s \<noteq> Panic"
  by (induction mx i ts s rule: push_types.induct) auto

lemma check_operand_no_panic [simp]: "check_operand index nt nc i d \<noteq> Panic"
  by (simp add: check_operand_def Let_def)

lemma stack_effect_no_panic [simp]: "stack_effect mx i d s \<noteq> Panic"
  by (simp add: stack_effect_def Let_def rbind_eq_Panic)

lemma scan_no_panic [simp]: "scan index nt nc mx i ds s \<noteq> Panic"
  by (induction index nt nc mx i ds s rule: scan.induct)
    (auto simp: rbind_eq_Panic scan_insn_def split: prod.splits if_splits)

lemma scan_operands:
  "scan index nt nc mx i ds s = Ok () \<Longrightarrow> d \<in> set ds \<Longrightarrow> \<exists>j. check_operand index nt nc j d = Ok ()"
  by (induction index nt nc mx i ds s rule: scan.induct) (auto simp: rbind_eq_Ok scan_insn_def)

text \<open>After a variadic instruction the abstract stack is empty; \<open>ret\<close> and \<open>tail\<close> are variadic, so
  the check for pendings at a return never fires.\<close>

lemma pops_codes:
  "pop_types i ws s = Err e \<Longrightarrow> dcode e \<in> {StackUnderflow, TypeMismatch}"
  by (induction i ws s rule: pop_types.induct) (auto simp: bad_def at_pc_def diag_new_def split: if_splits)

lemma push_codes:
  "push_types mx i ts s = Err e \<Longrightarrow> dcode e = MaxstackExceeded"
  by (induction mx i ts s rule: push_types.induct) (auto simp: bad_def at_pc_def diag_new_def split: if_splits)

lemma rbind_eq_Err: "rbind m f = Err e \<longleftrightarrow> m = Err e \<or> (\<exists>x. m = Ok x \<and> f x = Err e)"
  by (cases m) auto

lemma scan_insn_codes:
  assumes "scan_insn index nt nc mx i d s = Err e"
  shows "dcode e \<in> {DanglingIndex, StackUnderflow, TypeMismatch, MaxstackExceeded, LivePending}"
proof -
  have var: "variadic (insn OpRet)" "variadic (insn OpTail)" by (simp_all add: insn_eq)
  show ?thesis
    using assms var unfolding scan_insn_def rbind_eq_Err
    by (auto simp: check_operand_def stack_effect_def Let_def bad_def at_pc_def diag_new_def rbind_eq_Err
        dest: pops_codes push_codes split: if_splits)
qed

lemma scan_codes:
  "scan index nt nc mx i ds s = Err e \<Longrightarrow>
     dcode e \<in> {DanglingIndex, StackUnderflow, TypeMismatch, MaxstackExceeded, LivePending}"
  by (induction index nt nc mx i ds s rule: scan.induct)
    (auto simp: rbind_eq_Err simp del: insert_iff dest: scan_insn_codes)

section \<open>What acceptance means\<close>

lemma check_function_Ok:
  assumes "check_function code f index tables n = Some (Ok ())"
  shows "\<exists>g. build code f tables = Some (Ok g) \<and> check_graph index (length tables) n (fm_maxstack f) g = Ok ()"
  using assms by (auto simp: check_function_def obind_Some_Ok split: if_splits)

lemma check_graph_Ok:
  assumes "check_graph index nt n mx g = Ok ()"
  shows "scan index nt n mx 0 (c_insns g) (0, []) = Ok ()"
    and "list_ex (\<lambda>d. d_op d \<in> {OpRet, OpTail, OpHalt, OpTrap}) (c_insns g)"
    and "check_loops (c_insns g) (c_back_edges g) = Ok ()" and "fork_balance (c_insns g) = 0"
  using assms by (auto simp: check_graph_def Let_def rbind_eq_Ok split: if_splits)

text \<open>\<open>insns[a..=b]\<close> is empty for a tail right behind its header and panics for one further behind.\<close>

lemma check_loops_Ok:
  "check_loops insns es = Ok () \<Longrightarrow> (t, h) \<in> set es \<Longrightarrow>
     t \<le> h \<and> (\<exists>i. t \<le> i \<and> i \<le> h \<and> i < length insns \<and> d_op (insns ! i) \<in> set metering)"
proof (induction insns es rule: check_loops.induct)
  case (2 insns a b es)
  then obtain win where w: "window_ops insns a b = Ok win" "list_ex (\<lambda>x. x \<in> set metering) win"
    "check_loops insns es = Ok ()" by (auto simp: rbind_eq_Ok split: if_splits)
  show ?case
  proof (cases "(t, h) = (a, b)")
    case True
    have win: "win = map d_op (take (b + 1 - a) (drop a insns))" "b + 1 \<le> length insns"
      using w(1) by (auto simp: window_ops_def split: if_splits)
    with w(2) obtain k where k: "k < length (take (b + 1 - a) (drop a insns))"
      "d_op (take (b + 1 - a) (drop a insns) ! k) \<in> set metering" by (auto simp: list_ex_length)
    then have "a + k \<le> b" "d_op (insns ! (a + k)) \<in> set metering" by auto
    with True win(2) show ?thesis by (intro conjI exI [of _ "a + k"]) auto
  qed (use 2 w in auto)
qed simp

lemma check_loops_Panic:
  "check_loops insns es = Panic \<Longrightarrow> \<exists>(t, h)\<in>set es. h + 1 < t \<or> length insns \<le> h"
  by (induction insns es rule: check_loops.induct)
    (auto simp: rbind_eq_Panic window_ops_def split: if_splits)

end
