(* ===== verification/CV_Exec.thy ===== *)
theory CV_Exec
  imports CV_Machine
begin

text \<open>
  One instruction, \<open>Vm::exec\<close> of \<open>src/src/interp.rs\<close>: a definition per arm of its \<open>match\<close>
  that does more than one thing, and \<open>exec_op\<close>, the \<open>match\<close>. An arm returns the value of
  \<open>advance\<close>: whether \<open>exec\<close> moves the frame's \<open>pc\<close> to the next instruction.
\<close>

section \<open>Arithmetic of the machine\<close>

text \<open>Rust's \<open>/\<close> and \<open>%\<close> round towards zero.\<close>

definition trunc_div :: "int \<Rightarrow> int \<Rightarrow> int" where
  "trunc_div a b = sgn a * sgn b * (\<bar>a\<bar> div \<bar>b\<bar>)"

definition trunc_rem :: "int \<Rightarrow> int \<Rightarrow> int" where
  "trunc_rem a b = sgn a * (\<bar>a\<bar> mod \<bar>b\<bar>)"

text \<open>\<open>wrapping_div\<close> and \<open>wrapping_rem\<close>; \<open>MIN / -1\<close> wraps to \<open>MIN\<close>.\<close>

definition i64_div :: "i64 \<Rightarrow> i64 \<Rightarrow> i64" where
  "i64_div a b = word_of_int (trunc_div (sint a) (sint b))"

definition i64_rem :: "i64 \<Rightarrow> i64 \<Rightarrow> i64" where
  "i64_rem a b = word_of_int (trunc_rem (sint a) (sint b))"

definition i64_shl :: "i64 \<Rightarrow> i64 \<Rightarrow> i64" where
  "i64_shl a b = push_bit (unat (and b 63)) a"

definition i64_shr :: "i64 \<Rightarrow> i64 \<Rightarrow> i64" where
  "i64_shr a b = signed_drop_bit (unat (and b 63)) a"

definition clamp :: "int \<Rightarrow> nat \<Rightarrow> nat" where
  "clamp n len = nat (max 0 (min n (int len)))"

text \<open>\<open>hay.windows(n).position(|w| w == needle)\<close> for \<open>n > 0\<close>.\<close>

definition window_pos :: "bytes \<Rightarrow> bytes \<Rightarrow> nat option" where
  "window_pos needle hay =
     List.find (\<lambda>i. take (length needle) (drop i hay) = needle)
       [0..<Suc (length hay) - length needle]"

section \<open>Text of a value\<close>

text \<open>The \<open>Debug\<close> forms of \<open>Value\<close>, \<open>Handle\<close> and \<open>EffectId\<close>, \<open>src/src/value.rs\<close>.\<close>

definition debug_handle :: "handle \<Rightarrow> bytes" where
  "debug_handle h = ascii ''@'' @ show_hex (unat (h_off h)) @ ascii ''+'' @ show_nat (unat (h_len h))"

definition debug_val :: "val \<Rightarrow> bytes" where
  "debug_val v = (case v_tag v of
     TagVoid \<Rightarrow> ascii ''void''
   | TagInt \<Rightarrow> show_i64 (v_payload v)
   | TagPending \<Rightarrow> ascii ''pending#'' @ show_nat (unat (v_payload v))
   | t \<Rightarrow> ascii (tag_name t) @ debug_handle (handle_unchecked v))"

definition format_short :: "val \<Rightarrow> arena \<Rightarrow> bytes" where
  "format_short v a = (case v_ty v of
     TyInt \<Rightarrow> (case as_int v of Ok n \<Rightarrow> show_i64 n | _ \<Rightarrow> show_i64 0)
   | TyStr \<Rightarrow>
       (case get_str a (case as_handle v of Ok h \<Rightarrow> h | _ \<Rightarrow> EMPTY) of Ok s \<Rightarrow> s | _ \<Rightarrow> [])
   | _ \<Rightarrow> debug_val v)"

text \<open>The loop of \<open>Op::Fmt\<close> over \<open>template.split("{}")\<close>.\<close>

fun fmt_loop :: "arena \<Rightarrow> val list \<Rightarrow> bytes list \<Rightarrow> nat \<Rightarrow> bool \<Rightarrow> bytes \<Rightarrow> bytes" where
  "fmt_loop a items [] at stop out = out"
| "fmt_loop a items (p # ps) at stop out =
     (let out1 = out @ p;
          more = at < length items \<and> \<not> stop;
          out2 = (if more then out1 @ format_short (items ! at) a else out1);
          at' = (if more then at + 1 else at)
      in fmt_loop a items ps at' (length items \<le> at') out2)"

section \<open>The arms\<close>

definition int_top :: "(vm, diag, i64) sm" where
  "int_top = on_frame (pop_as as_int)"

definition push_val :: "val \<Rightarrow> (vm, diag, unit) sm" where
  "push_val v = on_frame (push v)"

definition binop :: "(i64 \<Rightarrow> i64 \<Rightarrow> i64) \<Rightarrow> (vm, diag, unit) sm" where
  "binop f = sbind int_top (\<lambda>b. sbind int_top (\<lambda>a. push_val (v_int (f a b))))"

definition divop :: "(i64 \<Rightarrow> i64 \<Rightarrow> i64) \<Rightarrow> (vm, diag, unit) sm" where
  "divop f = sbind int_top (\<lambda>b. sbind int_top (\<lambda>a.
     if b = 0 then slift (fail DivideByZero) else push_val (v_int (f a b))))"

definition ex_ldc :: "u32 \<Rightarrow> (vm, diag, unit) sm" where
  "ex_ldc b = sbind (sget (\<lambda>s. constant_at (vm_image s) b)) (\<lambda>bs.
     sbind (on_arena (alloc bs)) (\<lambda>h.
     push_val (if valid_utf8 bs then v_str h else v_bytes h)))"

definition ex_dup :: "nat \<Rightarrow> (vm, diag, unit) sm" where
  "ex_dup n = sbind (on_frame (peek n)) push_val"

definition ex_swap :: "(vm, diag, unit) sm" where
  "ex_swap = sbind (on_frame pop) (\<lambda>a. sbind (on_frame pop) (\<lambda>b.
     sthen (push_val a) (push_val b)))"

definition ex_rot :: "(vm, diag, unit) sm" where
  "ex_rot = sbind (on_frame pop) (\<lambda>a. sbind (on_frame pop) (\<lambda>b. sbind (on_frame pop) (\<lambda>c.
     sthen (push_val a) (sthen (push_val c) (push_val b)))))"

definition ex_ldl :: "nat \<Rightarrow> (vm, diag, unit) sm" where
  "ex_ldl i = sbind (on_frame (load_local i)) push_val"

definition ex_stl :: "nat \<Rightarrow> (vm, diag, unit) sm" where
  "ex_stl i = sbind (on_frame pop) (\<lambda>v. on_frame (store_local i v))"

definition ex_argv :: "(vm, diag, unit) sm" where
  "ex_argv = sbind (on_arena (alloc [0])) (\<lambda>h. push_val (v_str h))"

definition ex_pack :: "nat \<Rightarrow> (vm, diag, unit) sm" where
  "ex_pack n = sbind (on_frame (pop_n n)) (\<lambda>items.
     sbind (on_arena (alloc_list items)) (\<lambda>h. push_val (v_list h)))"

definition ex_unpack :: "(vm, diag, unit) sm" where
  "ex_unpack = sbind (on_frame pop) (\<lambda>list.
     sbind (slift (as_handle_of list TagList)) (\<lambda>h.
     sbind (read_arena (\<lambda>a. get_list a h)) (\<lambda>vs. on_frame (push_all vs))))"

definition ex_idx :: "(vm, diag, unit) sm" where
  "ex_idx = sbind (on_frame pop) (\<lambda>list. sbind int_top (\<lambda>idx.
     sbind (slift (as_handle_of list TagList)) (\<lambda>h.
     sbind (read_arena (\<lambda>a. get_list a h)) (\<lambda>items.
     if sint idx < 0 \<or> int (length items) \<le> sint idx then slift (fail IndexRange)
     else push_val (items ! nat (sint idx))))))"

definition ex_len :: "(vm, diag, unit) sm" where
  "ex_len = sbind (on_frame pop) (\<lambda>v. sbind (slift (as_handle v)) (\<lambda>h.
     sbind (read_arena (\<lambda>a. arena_get a h)) (\<lambda>bs. push_val (v_int (of_nat (length bs))))))"

definition ex_cat :: "(vm, diag, unit) sm" where
  "ex_cat = sbind (on_frame pop) (\<lambda>b. sbind (on_frame pop) (\<lambda>a.
     sbind (slift (as_handle_of a TagStr)) (\<lambda>ha. sbind (slift (as_handle_of b TagStr)) (\<lambda>hb.
     sbind (read_arena (\<lambda>m. arena_get m ha)) (\<lambda>xs. sbind (read_arena (\<lambda>m. arena_get m hb)) (\<lambda>ys.
     sbind (on_arena (alloc (xs @ ys))) (\<lambda>h. push_val (v_str h))))))))"

definition ex_fmt :: "u32 \<Rightarrow> (vm, diag, unit) sm" where
  "ex_fmt b = sbind (on_frame pop) (\<lambda>list.
     sbind (slift (as_handle_of list TagList)) (\<lambda>h.
     sbind (read_arena (\<lambda>a. get_list a h)) (\<lambda>items.
     sbind (sget (\<lambda>s. utf8_lossy (constant_at (vm_image s) b))) (\<lambda>template.
     sbind (sget (\<lambda>s. fmt_loop (arena s) items (split_braces template) 0 False [])) (\<lambda>out.
     sbind (on_arena (alloc out)) (\<lambda>h2. push_val (v_str h2)))))))"

definition ex_slice :: "(vm, diag, unit) sm" where
  "ex_slice = sbind (on_frame pop) (\<lambda>v. sbind int_top (\<lambda>hi. sbind int_top (\<lambda>lo.
     sbind (slift (as_handle v)) (\<lambda>h.
     sbind (read_arena (\<lambda>a. arena_get a h)) (\<lambda>raw.
     let l = clamp (sint lo) (length raw); u = clamp (sint hi) (length raw)
     in sbind (on_arena (alloc (take (max u l - min l u) (drop (min l u) raw)))) (\<lambda>h2.
        push_val (v_bytes h2)))))))"

text \<open>\<open>windows(0)\<close> panics.\<close>

definition ex_find :: "(vm, diag, unit) sm" where
  "ex_find = sbind (on_frame pop) (\<lambda>needle. sbind (on_frame pop) (\<lambda>hay.
     sbind (slift (as_handle hay)) (\<lambda>hh. sbind (read_arena (\<lambda>a. arena_get a hh)) (\<lambda>hs.
     sbind (slift (as_handle needle)) (\<lambda>hn. sbind (read_arena (\<lambda>a. arena_get a hn)) (\<lambda>ns.
     if ns = [] then spanic
     else push_val (v_int (case window_pos ns hs of None \<Rightarrow> -1 | Some p \<Rightarrow> of_nat p))))))))"

definition ex_eq :: "(vm, diag, unit) sm" where
  "ex_eq = sbind (on_frame pop) (\<lambda>b. sbind (on_frame pop) (\<lambda>a.
     if v_ty a = v_ty b \<and> v_ty a \<noteq> TyInt then
       sbind (slift (as_handle a)) (\<lambda>ha. sbind (slift (as_handle b)) (\<lambda>hb.
       sbind (read_arena (\<lambda>m. arena_get m ha)) (\<lambda>xs. sbind (read_arena (\<lambda>m. arena_get m hb)) (\<lambda>ys.
       push_val (v_bool (xs = ys))))))
     else push_val (v_bool (shallow_eq a b))))"

definition ex_lt :: "(vm, diag, unit) sm" where
  "ex_lt = sbind int_top (\<lambda>b. sbind int_top (\<lambda>a. push_val (v_bool (sint a < sint b))))"

definition ex_not :: "(vm, diag, unit) sm" where
  "ex_not = sbind int_top (\<lambda>a. push_val (v_bool (a = 0)))"

definition ex_br :: "u32 \<Rightarrow> (vm, diag, bool) sm" where
  "ex_br b = sthen (on_frame (set_pc b)) (sret False)"

definition ex_branch_if :: "bool \<Rightarrow> u32 \<Rightarrow> (vm, diag, bool) sm" where
  "ex_branch_if on_zero b = sbind (on_frame pop) (\<lambda>v.
     let truthy = is_truthy v; take_it = (if on_zero then \<not> truthy else truthy)
     in if take_it then sthen (on_frame (set_pc b)) (sret False) else sret True)"

definition target_of :: "u32 \<Rightarrow> (vm, diag, func_meta) sm" where
  "target_of b s = (of_opt (diag_new DanglingIndex) (nth_get (img_funcs (vm_image s)) (unat b)), s)"

definition ex_call :: "u32 \<Rightarrow> (vm, diag, bool) sm" where
  "ex_call b = sbind (target_of b) (\<lambda>target.
     sbind (on_frame (pop_n (unat (fm_args target)))) (\<lambda>args.
     sbind (sget (\<lambda>s. max_frames (limits s) \<le> length (frames s))) (\<lambda>full.
     if full then slift (fail BudgetExceeded)
     else sthen (smod (\<lambda>s. s\<lparr>frames := frames s @
              [frame_new b args 0 (fm_maxstack target) (fm_returns target)]\<rparr>)) (sret False))))"

text \<open>\<open>values.first().map(|v| v.as_int().unwrap_or(0)).unwrap_or(0)\<close>.\<close>

definition exit_code :: "val list \<Rightarrow> i64" where
  "exit_code vs = (case vs of [] \<Rightarrow> 0 | v # _ \<Rightarrow> (case as_int v of Ok n \<Rightarrow> n | _ \<Rightarrow> 0))"

definition frame_returns :: "vm \<Rightarrow> nat" where
  "frame_returns s = (if frames s = [] then 0 else unat (returns (last (frames s))))"

definition ex_ret :: "(vm, diag, bool) sm" where
  "ex_ret = sbind (sget frame_returns) (\<lambda>n.
     sbind (on_frame (pop_n n)) (\<lambda>vs.
     sthen (smod (\<lambda>s. s\<lparr>frames := butlast (frames s)\<rparr>))
     (sbind (sget (\<lambda>s. frames s = [])) (\<lambda>empty.
     if empty then sthen (smod (\<lambda>s. s\<lparr>halt := Some (exit_code vs)\<rparr>)) (sret False)
     else sthen (on_frame (push_all vs)) (sret False)))))"

definition ex_tail :: "u32 \<Rightarrow> (vm, diag, bool) sm" where
  "ex_tail b = sbind (target_of b) (\<lambda>target.
     sbind (on_frame (pop_n (unat (fm_args target)))) (\<lambda>args.
     sthen (on_frame (smod (\<lambda>_. frame_new b args 0 (fm_maxstack target) (fm_returns target))))
     (sret False)))"

definition switch_target :: "u32 list \<Rightarrow> i64 \<Rightarrow> u32" where
  "switch_target table v =
     (if 0 \<le> sint v \<and> nat (sint v) < length table - 1 then table ! nat (sint v)
      else if table = [] then 0 else last table)"

definition ex_switch :: "u32 \<Rightarrow> (vm, diag, bool) sm" where
  "ex_switch b = sbind int_top (\<lambda>v.
     sbind (sget (\<lambda>s. case nth_get (img_jump_tables (vm_image s)) (unat b) of
                        None \<Rightarrow> [] | Some t \<Rightarrow> t)) (\<lambda>table.
     sthen (on_frame (set_pc (switch_target table v))) (sret False)))"

text \<open>\<open>frame.pop().map(..).unwrap_or(0)\<close>: a failed pop is exit code 0.\<close>

definition ex_halt :: "(vm, diag, bool) sm" where
  "ex_halt s = (case on_frame pop s of
     (Panic, s') \<Rightarrow> (Panic, s')
   | (Ok v, s') \<Rightarrow> (Ok False, s'\<lparr>frames := [], halt := Some (exit_code [v])\<rparr>)
   | (Err _, s') \<Rightarrow> (Ok False, s'\<lparr>frames := [], halt := Some 0\<rparr>))"

definition raise_trap :: "trap \<Rightarrow> (vm, diag, bool) sm" where
  "raise_trap t = sthen (smod (\<lambda>s. s\<lparr>pending := Some t\<rparr>)) (sret False)"

definition ex_calltool :: "u32 \<Rightarrow> (vm, diag, bool) sm" where
  "ex_calltool b = sbind (on_frame pop) (\<lambda>list.
     sbind (slift (as_handle_of list TagList)) (\<lambda>h.
     sbind (read_arena (\<lambda>a. get_list a h)) (\<lambda>args.
     sbind (sget (\<lambda>s. EffectId (next_effect s))) (\<lambda>id.
     sthen (smod (\<lambda>s. s\<lparr>next_effect := next_effect s + 1,
                          pending := Some (TrapEffect id b args)\<rparr>))
     (sthen (push_val (v_pending id)) (sret False))))))"

definition ex_fork :: "(vm, diag, unit) sm" where
  "ex_fork = sbind (sget (\<lambda>s. 0 < fork_depth s)) (\<lambda>nested.
     if nested then slift (fail ForkImbalance)
     else sthen (smod (\<lambda>s. s\<lparr>fork_depth := 1, staged := Some (arena s)\<rparr>)) (push_val (v_int 0)))"

definition ex_commit :: "(vm, diag, unit) sm" where
  "ex_commit = smod (\<lambda>s. case staged s of
     None \<Rightarrow> s\<lparr>fork_depth := 0\<rparr>
   | Some a \<Rightarrow> s\<lparr>arena := a, staged := None, fork_depth := 0\<rparr>)"

definition ex_abort :: "(vm, diag, unit) sm" where
  "ex_abort = smod (\<lambda>s. s\<lparr>staged := None, fork_depth := 0\<rparr>)"

definition ex_queryq :: "u8 \<Rightarrow> (vm, diag, bool) sm" where
  "ex_queryq a = sbind (sget (\<lambda>s. remaining (budget s) a)) (\<lambda>n.
     sthen (push_val (v_int n)) (raise_trap (TrapOracle OpQueryQ)))"

definition ex_ctxpush :: "u8 \<Rightarrow> (vm, diag, unit) sm" where
  "ex_ctxpush a = sbind (on_frame (pop_as (\<lambda>v. as_handle_of v TagStr))) (\<lambda>h.
     sbind (read_arena (\<lambda>m. arena_get m h)) (\<lambda>bs. on_ctx (ctx_push a bs)))"

definition ctx_window :: "(vm, diag, val list) sm" where
  "ctx_window s = (window (ctx s), s)"

definition ex_ctxwin :: "(vm, diag, unit) sm" where
  "ex_ctxwin = sbind ctx_window (\<lambda>vs.
     sbind (on_arena (alloc_list vs)) (\<lambda>h. push_val (v_list h)))"

section \<open>The match\<close>

definition adv :: "(vm, diag, 'a) sm \<Rightarrow> (vm, diag, bool) sm" where
  "adv m = sthen m (sret True)"

primrec exec_op :: "op \<Rightarrow> decoded \<Rightarrow> (vm, diag, bool) sm" where
  "exec_op OpNop d = sret True"
| "exec_op OpLdc d = adv (ex_ldc (d_b d))"
| "exec_op OpLdi d = adv (push_val (v_int (imm d)))"
| "exec_op OpDup d = adv (ex_dup 0)"
| "exec_op OpDupN d = adv (ex_dup (unat (d_b d)))"
| "exec_op OpDrop d = adv (on_frame pop)"
| "exec_op OpSwap d = adv ex_swap"
| "exec_op OpRot d = adv ex_rot"
| "exec_op OpLdl d = adv (ex_ldl (unat (d_b d)))"
| "exec_op OpStl d = adv (ex_stl (unat (d_b d)))"
| "exec_op OpArgv d = adv ex_argv"
| "exec_op OpPack d = adv (ex_pack (unat (d_b d)))"
| "exec_op OpUnpack d = adv ex_unpack"
| "exec_op OpIdx d = adv ex_idx"
| "exec_op OpLen d = adv ex_len"
| "exec_op OpCat d = adv ex_cat"
| "exec_op OpFmt d = adv (ex_fmt (d_b d))"
| "exec_op OpSlice d = adv ex_slice"
| "exec_op OpFind d = adv ex_find"
| "exec_op OpAdd d = adv (binop (+))"
| "exec_op OpSub d = adv (binop (-))"
| "exec_op OpMul d = adv (binop (*))"
| "exec_op OpDiv d = adv (divop i64_div)"
| "exec_op OpMod d = adv (divop i64_rem)"
| "exec_op OpEq d = adv ex_eq"
| "exec_op OpLt d = adv ex_lt"
| "exec_op OpNot d = adv ex_not"
| "exec_op OpAnd d = adv (binop and)"
| "exec_op OpOr d = adv (binop or)"
| "exec_op OpShl d = adv (binop i64_shl)"
| "exec_op OpShr d = adv (binop i64_shr)"
| "exec_op OpBr d = ex_br (d_b d)"
| "exec_op OpBrz d = ex_branch_if True (d_b d)"
| "exec_op OpBrnz d = ex_branch_if False (d_b d)"
| "exec_op OpCall d = ex_call (d_b d)"
| "exec_op OpRet d = ex_ret"
| "exec_op OpTail d = ex_tail (d_b d)"
| "exec_op OpSwitch d = ex_switch (d_b d)"
| "exec_op OpTrap d = slift (fail Trapped)"
| "exec_op OpHalt d = ex_halt"
| "exec_op OpCallTool d = ex_calltool (d_b d)"
| "exec_op OpAwait d = raise_trap TrapYield"
| "exec_op OpPoll d = raise_trap TrapYield"
| "exec_op OpCancel d = raise_trap TrapYield"
| "exec_op OpSelect d = raise_trap TrapYield"
| "exec_op OpSpawn d = ex_calltool (d_b d)"
| "exec_op OpJoin d = raise_trap TrapYield"
| "exec_op OpFork d = adv ex_fork"
| "exec_op OpCommit d = adv ex_commit"
| "exec_op OpAbort d = adv ex_abort"
| "exec_op OpCheckpoint d = raise_trap TrapYield"
| "exec_op OpYieldCtx d = raise_trap TrapYield"
| "exec_op OpResume d = sret True"
| "exec_op OpReserve d = adv (on_budget (reserve (d_a d) (ucast (d_b d))))"
| "exec_op OpRelease d = adv (sbind int_top (\<lambda>n. on_budget (release (d_a d) n)))"
| "exec_op OpSpend d = adv (sbind int_top (\<lambda>n. on_budget (spend (d_a d) n)))"
| "exec_op OpQueryQ d = ex_queryq (d_a d)"
| "exec_op OpCtxPush d = adv (ex_ctxpush (d_a d))"
| "exec_op OpCtxPop d = adv (on_ctx (pop_oldest (unat (d_b d))))"
| "exec_op OpCtxWin d = adv ex_ctxwin"
| "exec_op OpCtxCost d = adv (sbind (sget (\<lambda>s. cost (ctx s))) (\<lambda>n. push_val (v_int n)))"
| "exec_op OpNow d = raise_trap (TrapOracle OpNow)"
| "exec_op OpRand d = raise_trap (TrapOracle OpRand)"
| "exec_op OpEnv d = raise_trap (TrapOracle OpEnv)"
| "exec_op OpLog d = raise_trap (TrapOracle OpLog)"

text \<open>\<open>self.frames[fi].pc += 1\<close> for the frame that was last when the instruction began.\<close>

definition bump_pc :: "nat \<Rightarrow> (vm, diag, unit) sm" where
  "bump_pc fi s =
     (if frames s = [] then (Ok (), s)
      else if fi < length (frames s)
      then (Ok (), s\<lparr>frames := (frames s)[fi := (frames s ! fi)\<lparr>pc := pc (frames s ! fi) + 1\<rparr>]\<rparr>)
      else (Panic, s))"

definition exec :: "decoded \<Rightarrow> (vm, diag, unit) sm" where
  "exec d = sbind (sget (\<lambda>s. length (frames s) - 1)) (\<lambda>fi.
     sbind (exec_op (d_op d) d) (\<lambda>advance. if advance then bump_pc fi else sret ()))"

end
