(* ===== verification/CV_Safety.thy ===== *)
theory CV_Safety
  imports CV_Exec
begin

text \<open>
  Every instruction keeps the machine well-formed, on success and on error, and no
  instruction panics on a well-formed machine, \<open>find\<close> with an empty needle apart. The proofs
  are one Hoare triple per arm; \<open>vm_at k\<close> says that frame \<open>k\<close> is the one running.
\<close>

section \<open>Composition\<close>

lemma at_sbind [wp]:
  assumes "triple (vm_at k) m (\<lambda>_. vm_at k) (vm_at k)"
    and "\<And>x. triple (vm_at k) (f x) (\<lambda>_. vm_at k) (vm_at k)"
  shows "triple (vm_at k) (sbind m f) (\<lambda>_. vm_at k) (vm_at k)"
  by (rule triple_sbind [OF assms])

lemma at_sthen [wp]:
  assumes "triple (vm_at k) m (\<lambda>_. vm_at k) (vm_at k)"
    and "triple (vm_at k) n (\<lambda>_. vm_at k) (vm_at k)"
  shows "triple (vm_at k) (sthen m n) (\<lambda>_. vm_at k) (vm_at k)"
  by (rule triple_sthen [OF assms])

lemma at_smod:
  assumes "\<And>s. vm_at k s \<Longrightarrow> vm_at k (f s)"
  shows "triple (vm_at k) (smod f) (\<lambda>_. vm_at k) (vm_at k)"
  using assms by (rule triple_smod)

lemma fail_no_panic [simp]: "fail c \<noteq> Panic"
  by (simp add: fail_def)

section \<open>The arms that stay in the frame\<close>

definition frame_safe :: "(vm, diag, 'a) sm \<Rightarrow> bool" where
  "frame_safe m \<longleftrightarrow> (\<forall>k. triple (vm_at k) m (\<lambda>_. vm_at k) (vm_at k))"

lemma frame_safeI: "(\<And>k. triple (vm_at k) m (\<lambda>_. vm_at k) (vm_at k)) \<Longrightarrow> frame_safe m"
  by (simp add: frame_safe_def)

lemma frame_safe_adv: "frame_safe m \<Longrightarrow> frame_safe (adv m)"
  by (auto simp: frame_safe_def adv_def intro: wp)

named_theorems arm_safe \<open>arms that keep the machine well-formed and its frames in number\<close>

lemma safe_push_val [wp]: "triple (vm_at k) (push_val v) (\<lambda>_. vm_at k) (vm_at k)"
  by (simp add: push_val_def wp)

lemma safe_int_top [wp]: "triple (vm_at k) int_top (\<lambda>_. vm_at k) (vm_at k)"
  by (simp add: int_top_def wp)

lemma safe_stack_arms [arm_safe]:
  "frame_safe (push_val v)" "frame_safe (on_frame pop)" "frame_safe (ex_dup n)"
  "frame_safe ex_swap" "frame_safe ex_rot" "frame_safe (ex_ldl n)" "frame_safe (ex_stl n)"
  unfolding ex_dup_def ex_swap_def ex_rot_def ex_ldl_def ex_stl_def
  by (intro frame_safeI wp)+

lemma safe_int_arms [arm_safe]:
  "frame_safe (binop f)" "frame_safe (divop f)" "frame_safe ex_lt" "frame_safe ex_not"
  unfolding binop_def divop_def ex_lt_def ex_not_def
  by (intro frame_safeI wp triple_if fail_no_panic)+

lemma safe_alloc_arms [arm_safe]:
  "frame_safe (ex_ldc b)" "frame_safe ex_argv" "frame_safe (ex_pack n)" "frame_safe (ex_fmt b)"
  "frame_safe ex_cat" "frame_safe ex_slice"
  unfolding ex_ldc_def ex_argv_def ex_pack_def ex_fmt_def ex_cat_def ex_slice_def Let_def
  by (intro frame_safeI wp as_no_panic get_list_no_panic arena_get_no_panic)+

lemma safe_read_arms [arm_safe]:
  "frame_safe ex_unpack" "frame_safe ex_idx" "frame_safe ex_len" "frame_safe ex_eq"
  unfolding ex_unpack_def ex_idx_def ex_len_def ex_eq_def
  by (intro frame_safeI wp triple_if as_no_panic get_list_no_panic arena_get_no_panic fail_no_panic)+

lemma safe_meter_arms [arm_safe]:
  "frame_safe (on_budget (reserve dm n))"
  "frame_safe (sbind int_top (\<lambda>n. on_budget (release dm n)))"
  "frame_safe (sbind int_top (\<lambda>n. on_budget (spend dm n)))"
  "frame_safe (sbind (sget (\<lambda>s. cost (ctx s))) (\<lambda>n. push_val (v_int n)))"
  "frame_safe (on_ctx (pop_oldest i))" "frame_safe (ex_ctxpush a)"
  unfolding ex_ctxpush_def
  by (intro frame_safeI wp as_no_panic arena_get_no_panic)+

lemma safe_ctx_window [wp]: "triple (vm_at k) ctx_window (\<lambda>_. vm_at k) (vm_at k)"
  by (rule tripleI) (auto simp: ctx_window_def vm_at_def vm_wf_def dest: window_no_panic)

lemma safe_ctxwin [arm_safe]: "frame_safe ex_ctxwin"
  unfolding ex_ctxwin_def by (intro frame_safeI wp)

lemma safe_raise [arm_safe]: "frame_safe (raise_trap t)"
  unfolding raise_trap_def
  by (intro frame_safeI wp at_smod) (simp add: vm_at_def vm_wf_def)

lemma wp_raise [wp]: "triple (vm_at k) (raise_trap t) (\<lambda>_. vm_at k) (vm_at k)"
  using safe_raise by (simp add: frame_safe_def)

lemma safe_effect_arms [arm_safe]: "frame_safe (ex_calltool b)" "frame_safe (ex_queryq a)"
  unfolding ex_calltool_def ex_queryq_def
  by (intro frame_safeI wp at_smod as_no_panic get_list_no_panic; simp add: vm_at_def vm_wf_def)+

lemma safe_durable_arms [arm_safe]:
  "frame_safe ex_fork" "frame_safe ex_commit" "frame_safe ex_abort"
proof -
  show "frame_safe ex_fork"
    unfolding ex_fork_def
    by (intro frame_safeI wp triple_if at_smod fail_no_panic) (simp add: vm_at_def vm_wf_def)
  show "frame_safe ex_commit"
    unfolding ex_commit_def
  proof (intro frame_safeI at_smod)
    fix k s assume "vm_at k s"
    then show "vm_at k (case staged s of None \<Rightarrow> s\<lparr>fork_depth := 0\<rparr>
        | Some a \<Rightarrow> s\<lparr>arena := a, staged := None, fork_depth := 0\<rparr>)"
      by (cases "staged s") (simp_all add: vm_at_def vm_wf_def)
  qed
  show "frame_safe ex_abort"
    unfolding ex_abort_def by (intro frame_safeI at_smod) (simp add: vm_at_def vm_wf_def)
qed

lemma safe_branch_arms [arm_safe]:
  "frame_safe (ex_br b)" "frame_safe (ex_branch_if z b)" "frame_safe (ex_switch b)"
  unfolding ex_br_def ex_branch_if_def ex_switch_def Let_def
  by (intro frame_safeI wp triple_if)+

lemma safe_consts [arm_safe]: "frame_safe (sret x)" "frame_safe (slift (fail c))"
  by (intro frame_safeI wp fail_no_panic)+

lemma safe_local_ops:
  "x \<notin> {OpFind, OpCall, OpRet, OpTail, OpHalt} \<Longrightarrow> frame_safe (exec_op x d)"
  by (cases x) (simp_all add: frame_safe_adv arm_safe)

section \<open>The arms that change the frames\<close>

text \<open>What any instruction guarantees: a well-formed machine, in the same frame if it advances.\<close>

definition op_safe :: "(vm, diag, bool) sm \<Rightarrow> bool" where
  "op_safe m \<longleftrightarrow>
     (\<forall>k. triple (vm_at k) m (\<lambda>a s. vm_wf s \<and> (a \<longrightarrow> length (frames s) = Suc k)) vm_wf)"

lemma op_safe_frame_safe: "frame_safe m \<Longrightarrow> op_safe m"
  unfolding op_safe_def
proof
  fix k assume "frame_safe m"
  then have "triple (vm_at k) m (\<lambda>_. vm_at k) (vm_at k)" by (simp add: frame_safe_def)
  then show "triple (vm_at k) m (\<lambda>a s. vm_wf s \<and> (a \<longrightarrow> length (frames s) = Suc k)) vm_wf"
    by (rule triple_weaken) (simp_all add: vm_at_def)
qed

lemma op_safeI:
  assumes "\<And>s fs f. vm_wf s \<Longrightarrow> frames s = fs @ [f] \<Longrightarrow> frame_wf f \<Longrightarrow>
     fst (m s) \<noteq> Panic \<and> vm_wf (snd (m s)) \<and>
     (fst (m s) = Ok True \<longrightarrow> length (frames (snd (m s))) = length (frames s))"
  shows "op_safe m"
  unfolding op_safe_def
proof (intro allI tripleI)
  fix k s assume s: "vm_at k s"
  then obtain fs f where fs: "frames s = fs @ [f]" and "frame_wf f"
    by (cases "frames s" rule: rev_cases) (auto simp: vm_at_def vm_wf_def frame_ok_def)
  with assms [of s fs f] s have step: "fst (m s) \<noteq> Panic \<and> vm_wf (snd (m s)) \<and>
     (fst (m s) = Ok True \<longrightarrow> length (frames (snd (m s))) = Suc k)"
    by (simp add: vm_at_def)
  then show "fst (m s) \<noteq> Panic" ..
  show "vm_wf s' \<and> (x \<longrightarrow> length (frames s') = Suc k)" if "m s = (Ok x, s')" for x s'
    using step that by simp
  show "vm_wf s'" if "m s = (Err e, s')" for e s' using step that by simp
qed

lemma vm_wf_frames:
  "vm_wf s \<Longrightarrow> (\<forall>f \<in> set fs. frame_ok (vm_image s) f) \<Longrightarrow>
     length fs \<le> max 1 (max_frames (limits s)) \<Longrightarrow> vm_wf (s\<lparr>frames := fs\<rparr>)"
  by (simp add: vm_wf_def)

lemma frame_ok_same: "frame_ok im f \<Longrightarrow> frame_wf g \<Longrightarrow> same_frame f g \<Longrightarrow> frame_ok im g"
  by (simp add: frame_ok_def same_frame_def)

lemma vm_wf_snoc:
  assumes "vm_wf s" and "frames s = fs @ [f]"
  shows "frame_ok (vm_image s) f" "\<forall>g \<in> set fs. frame_ok (vm_image s) g"
    "Suc (length fs) \<le> max 1 (max_frames (limits s))"
  using assms by (auto simp: vm_wf_def)

lemma frame_ok_new:
  "unat b < length (img_funcs im) \<Longrightarrow> frame_ok im (frame_new b args 0 mx rets)"
  by (simp add: frame_ok_def frame_new_facts)

lemma safe_call: "op_safe (ex_call b)"
proof (rule op_safeI)
  fix s fs f assume s: "vm_wf s" "frames s = fs @ [f]" "frame_wf f"
  note ok = vm_wf_snoc [OF s(1,2)]
  show "fst (ex_call b s) \<noteq> Panic \<and> vm_wf (snd (ex_call b s)) \<and>
     (fst (ex_call b s) = Ok True \<longrightarrow> length (frames (snd (ex_call b s))) = length (frames s))"
  proof (cases "nth_get (img_funcs (vm_image s)) (unat b)")
    case None
    with s show ?thesis by (simp add: ex_call_def target_of_def)
  next
    case (Some t)
    then have b: "unat b < length (img_funcs (vm_image s))" by (simp add: nth_get_def split: if_splits)
    from s(3) show ?thesis
    proof (cases rule: pop_n_cases [of f "unat (fm_args t)"])
      case short
      with s Some ok show ?thesis
        by (simp add: ex_call_def target_of_def fail_def vm_wf_frames sbind_def)
    next
      case (enough vs f')
      with frame_ok_same [OF ok(1) enough(2,5)] s Some ok b show ?thesis
        by (auto simp: ex_call_def target_of_def sbind_def sget_def slift_def fail_def sthen_def smod_def
            sret_def frame_ok_new intro!: vm_wf_frames)
    qed
  qed
qed

lemma safe_tail: "op_safe (ex_tail b)"
proof (rule op_safeI)
  fix s fs f assume s: "vm_wf s" "frames s = fs @ [f]" "frame_wf f"
  note ok = vm_wf_snoc [OF s(1,2)]
  show "fst (ex_tail b s) \<noteq> Panic \<and> vm_wf (snd (ex_tail b s)) \<and>
     (fst (ex_tail b s) = Ok True \<longrightarrow> length (frames (snd (ex_tail b s))) = length (frames s))"
  proof (cases "nth_get (img_funcs (vm_image s)) (unat b)")
    case None
    with s show ?thesis by (simp add: ex_tail_def target_of_def)
  next
    case (Some t)
    then have b: "unat b < length (img_funcs (vm_image s))" by (simp add: nth_get_def split: if_splits)
    from s(3) show ?thesis
    proof (cases rule: pop_n_cases [of f "unat (fm_args t)"])
      case short
      with s Some ok show ?thesis
        by (simp add: ex_tail_def target_of_def fail_def vm_wf_frames sbind_def)
    next
      case (enough vs f')
      with frame_ok_same [OF ok(1) enough(2,5)] s Some ok b show ?thesis
        by (auto simp: ex_tail_def target_of_def sbind_def sthen_def smod_def
            sret_def frame_ok_new intro!: vm_wf_frames)
    qed
  qed
qed

lemma safe_ret: "op_safe ex_ret"
proof (rule op_safeI)
  fix s fs f assume s: "vm_wf s" "frames s = fs @ [f]" "frame_wf f"
  note ok = vm_wf_snoc [OF s(1,2)]
  show "fst (ex_ret s) \<noteq> Panic \<and> vm_wf (snd (ex_ret s)) \<and>
     (fst (ex_ret s) = Ok True \<longrightarrow> length (frames (snd (ex_ret s))) = length (frames s))"
    using s(3)
  proof (cases rule: pop_n_cases [of f "unat (returns f)"])
    case short
    with s ok show ?thesis
      by (simp add: ex_ret_def frame_returns_def fail_def vm_wf_frames sbind_def sget_def)
  next
    case (enough vs f')
    show ?thesis
    proof (cases fs rule: rev_cases)
      case Nil
      then have "vm_wf (s\<lparr>frames := [], halt := h\<rparr>)" for h using s(1) by (simp add: vm_wf_def)
      with Nil s enough show ?thesis
        by (simp add: ex_ret_def frame_returns_def sbind_def sget_def sthen_def smod_def sret_def)
    next
      case (snoc gs g)
      with ok have g: "frame_ok (vm_image s) g" "frame_wf g" by (auto simp: frame_ok_def)
      obtain r g' where p: "push_all vs g = (r, g')" by fastforce
      with push_all_keeps [OF g(2) p] push_all_no_panic [OF g(2), of vs]
      have g': "r \<noteq> Panic" "frame_ok (vm_image s) g'" using g frame_ok_same by auto
      with ok snoc s have "vm_wf (s\<lparr>frames := gs @ [g']\<rparr>)"
        by (intro vm_wf_frames) auto
      with snoc s enough p g' show ?thesis
        by (cases r) (simp_all add: butlast_append ex_ret_def frame_returns_def sbind_def sget_def sthen_def smod_def sret_def)
    qed
  qed
qed

lemma safe_halt: "op_safe ex_halt"
proof (rule op_safeI)
  fix s fs f assume s: "vm_wf s" "frames s = fs @ [f]" "frame_wf f"
  have "vm_wf (s\<lparr>frames := [], halt := h\<rparr>)" for h using s(1) by (simp add: vm_wf_def)
  with s show "fst (ex_halt s) \<noteq> Panic \<and> vm_wf (snd (ex_halt s)) \<and>
     (fst (ex_halt s) = Ok True \<longrightarrow> length (frames (snd (ex_halt s))) = length (frames s))"
    by (cases rule: pop_cases [OF s(3)]) (simp_all add: ex_halt_def fail_def)
qed

section \<open>The search with an empty needle\<close>

text \<open>The needle \<open>find\<close> would search for is the top operand; it panics on an empty one.\<close>

definition empty_needle :: "vm \<Rightarrow> bool" where
  "empty_needle s \<longleftrightarrow> frames s \<noteq> [] \<and> operands (last (frames s)) \<noteq> [] \<and>
     (case as_handle (last (operands (last (frames s)))) of
        Ok h \<Rightarrow> arena_get (arena s) h = Ok [] | _ \<Rightarrow> False)"

lemma safe_find:
  assumes s: "vm_wf s" "frames s = fs @ [f]" "frame_wf f"
  shows "vm_wf (snd (ex_find s))" "length (frames (snd (ex_find s))) = length (frames s)"
    "fst (ex_find s) = Panic \<Longrightarrow> empty_needle s"
proof -
  note ok = vm_wf_snoc [OF s(1,2)]
  have keep: "vm_wf (s\<lparr>frames := fs @ [g]\<rparr>)" if "frame_wf g" "same_frame f g" for g
    using ok s(1) frame_ok_same [OF ok(1) that] by (intro vm_wf_frames) auto
  let ?goal = "\<lambda>(r, t). vm_wf t \<and> length (frames t) = length (frames s) \<and> (r = Panic \<longrightarrow> empty_needle s)"
  have "?goal (ex_find s)"
    using s(3)
  proof (cases rule: pop_cases [of f])
    case empty
    with s keep [OF s(3)] show ?thesis by (simp add: ex_find_def fail_def sbind_def)
  next
    case (top n f1)
    from top(2) show ?thesis
    proof (cases rule: pop_cases [of f1])
      case empty
      with s top keep [OF top(2,4)] show ?thesis by (simp add: ex_find_def fail_def sbind_def)
    next
      case (top h f2)
      note f1 = \<open>pop f = (Ok n, f1)\<close> \<open>operands f = operands f1 @ [n]\<close> \<open>same_frame f f1\<close>
      have f2: "frame_wf f2" "same_frame f f2" using top f1(3) by (auto intro: same_frame_trans)
      have push: "?goal (on_frame (push v) (s\<lparr>frames := fs @ [f2]\<rparr>))" for v
        using push_keeps [OF f2(1), of v] push_no_panic [OF f2(1), of v] f2(2) keep s(2)
        by (cases "push v f2") (auto intro: same_frame_trans)
      show ?thesis
        using s(2) f1 top push keep [OF f2] as_no_panic
        by (auto simp: ex_find_def sbind_def slift_def read_arena_def spanic_def empty_needle_def
            push_val_def split: res.split)
    qed
  qed
  then show "vm_wf (snd (ex_find s))" "length (frames (snd (ex_find s))) = length (frames s)"
    "fst (ex_find s) = Panic \<Longrightarrow> empty_needle s"
    by (auto split: prod.splits)
qed

section \<open>One instruction\<close>

lemma op_safe_exec_op: "x \<noteq> OpFind \<Longrightarrow> op_safe (exec_op x d)"
  using safe_local_ops [of x d] safe_call safe_tail safe_ret safe_halt
  by (cases "x \<in> {OpCall, OpRet, OpTail, OpHalt}") (auto intro: op_safe_frame_safe)

lemma bump_pc_safe:
  assumes "vm_wf s" and "length (frames s) = Suc k"
  shows "fst (bump_pc k s) = Ok ()" "vm_wf (snd (bump_pc k s))"
proof -
  let ?g = "(frames s ! k)\<lparr>pc := pc (frames s ! k) + 1\<rparr>"
  have "frames s \<noteq> []" "frames s ! k \<in> set (frames s)" using assms(2) by auto
  then have "frame_ok (vm_image s) ?g" using assms(1) by (auto simp: vm_wf_def frame_ok_def)
  with assms have "vm_wf (s\<lparr>frames := (frames s)[k := ?g]\<rparr>)"
    by (intro vm_wf_frames) (auto simp: vm_wf_def dest: subsetD [OF set_update_subset_insert])
  with \<open>frames s \<noteq> []\<close> assms show "fst (bump_pc k s) = Ok ()" "vm_wf (snd (bump_pc k s))"
    by (simp_all add: bump_pc_def)
qed

lemma exec_triple:
  assumes "d_op d \<noteq> OpFind"
  shows "triple (vm_at k) (exec d) (\<lambda>_. vm_wf) vm_wf"
proof -
  have op: "triple (vm_at k) (exec_op (d_op d) d)
      (\<lambda>a s. vm_wf s \<and> (a \<longrightarrow> length (frames s) = Suc k)) vm_wf"
    using op_safe_exec_op [OF assms] by (simp add: op_safe_def)
  have fin: "triple (\<lambda>s. vm_wf s \<and> (a \<longrightarrow> length (frames s) = Suc k))
      (if a then bump_pc k else sret ()) (\<lambda>_. vm_wf) vm_wf" for a
  proof (cases a)
    case True
    have "triple (\<lambda>s. vm_wf s \<and> length (frames s) = Suc k) (bump_pc k) (\<lambda>_. vm_wf) vm_wf"
    proof (rule tripleI)
      fix s assume s: "vm_wf s \<and> length (frames s) = Suc k"
      note b = bump_pc_safe [OF conjunct1 [OF s] conjunct2 [OF s]]
      show "fst (bump_pc k s) \<noteq> Panic" using b(1) by simp
      show "vm_wf s'" if "bump_pc k s = (Ok x, s')" for x s' using b(2) that by simp
      show "vm_wf s'" if "bump_pc k s = (Err e, s')" for e s' using b(2) that by simp
    qed
    with True show ?thesis by simp
  next
    case False
    then show ?thesis by (simp add: triple_def sret_def)
  qed
  show ?thesis
    unfolding exec_def
  proof (rule triple_sbind)
    show "triple (vm_at k) (sget (\<lambda>s. length (frames s) - 1)) (\<lambda>fi s. fi = k \<and> vm_at k s) vm_wf"
      by (rule triple_sget) (simp add: vm_at_def)
    fix fi
    show "triple (\<lambda>s. fi = k \<and> vm_at k s)
       (sbind (exec_op (d_op d) d) (\<lambda>a. if a then bump_pc fi else sret ())) (\<lambda>_. vm_wf) vm_wf"
    proof (cases "fi = k")
      case True
      show ?thesis unfolding True using triple_sbind [OF op fin] by simp
    qed (simp add: triple_def)
  qed
qed

lemma exec_find_wf:
  assumes "vm_live s" and "d_op d = OpFind"
  shows "vm_wf (snd (exec d s))" "fst (exec d s) = Panic \<Longrightarrow> empty_needle s"
proof -
  from assms(1) obtain k where k: "vm_at k s" by (auto simp: vm_live_at)
  then obtain fs f where s: "vm_wf s" "frames s = fs @ [f]" "frame_wf f"
    by (cases "frames s" rule: rev_cases) (auto simp: vm_at_def vm_wf_def frame_ok_def)
  obtain r t where e: "ex_find s = (r, t)" by fastforce
  with safe_find [OF s] have t: "vm_wf t" "length (frames t) = length (frames s)"
    "r = Panic \<Longrightarrow> empty_needle s" by auto
  with bump_pc_safe [of t k] k e assms(2)
  have "vm_wf (snd (exec d s)) \<and> (fst (exec d s) = Panic \<longrightarrow> empty_needle s)"
    by (cases r) (auto simp: exec_def adv_def sthen_def sbind_def sget_def sret_def vm_at_def)
  then show "vm_wf (snd (exec d s))" "fst (exec d s) = Panic \<Longrightarrow> empty_needle s" by auto
qed

lemma exec_wf:
  assumes "vm_live s"
  shows "vm_wf (snd (exec d s))"
proof (cases "d_op d = OpFind")
  case False
  from assms obtain k where k: "vm_at k s" by (auto simp: vm_live_at)
  note t = exec_triple [OF False, of k]
  obtain r s' where e: "exec d s = (r, s')" by fastforce
  with triple_Ok [OF t k] triple_Err [OF t k] triple_no_panic [OF t k] show ?thesis
    by (cases r) auto
qed (rule exec_find_wf [OF assms])

lemma exec_panic:
  assumes "vm_live s" and "fst (exec d s) = Panic"
  shows "d_op d = OpFind \<and> empty_needle s"
proof (cases "d_op d = OpFind")
  case False
  from assms obtain k where "vm_at k s" by (auto simp: vm_live_at)
  with triple_no_panic [OF exec_triple [OF False]] assms(2) show ?thesis by blast
qed (use exec_find_wf [OF assms(1)] assms(2) in blast)

end
