(* ===== verification/CV_Run.thy ===== *)
theory CV_Run
  imports CV_Safety
begin

text \<open>
  The dispatch loop, \<open>Vm::step\<close> of \<open>src/src/interp.rs\<close>: \<open>tick\<close> is one turn of the loop,
  \<open>run_loop\<close> the loop (\<open>None\<close> where it never returns), \<open>vm_step\<close> the method. The locale
  \<open>step_relation\<close> lifts a relation that the parts of the machine respect to instructions and
  to the loop.
\<close>

section \<open>The loop\<close>

definition fetch :: "vm \<Rightarrow> decoded result" where
  "fetch s = (let f = last (frames s) in
     case nth_get (img_funcs (vm_image s)) (unat (func f)) of
       None \<Rightarrow> Panic
     | Some m \<Rightarrow> of_opt (diag_new UnassignedOpcode)
         (decode (img_code (vm_image s)) (unat (fm_code_off m) + unat (pc f) * INSN_LEN)))"

definition tick :: "(vm, diag, step option) sm" where
  "tick s = (case pending s of
     Some t \<Rightarrow> (Ok (Some (StepTrap t)), s\<lparr>pending := None\<rparr>)
   | None \<Rightarrow> (case halt s of
       Some code \<Rightarrow> (Ok (Some (Halted code)), s\<lparr>halt := None\<rparr>)
     | None \<Rightarrow>
         if frames s = [] then (Ok (Some (Halted 0)), s)
         else let s1 = s\<lparr>steps := steps s + 1\<rparr> in
           if max_steps (limits s1) < steps s1 then (fail BudgetExceeded, s1)
           else sbind (slift (fetch s1)) (\<lambda>d. sthen (exec d) (sret None)) s1))"

partial_function (option) run_loop :: "vm \<Rightarrow> (step result \<times> vm) option" where
  "run_loop s = (case tick s of
     (Ok None, s') \<Rightarrow> run_loop s'
   | (Ok (Some x), s') \<Rightarrow> Some (Ok x, s')
   | (Err e, s') \<Rightarrow> Some (Err e, s')
   | (Panic, s') \<Rightarrow> Some (Panic, s'))"

definition vm_step :: "answer option \<Rightarrow> vm \<Rightarrow> (step result \<times> vm) option" where
  "vm_step ans s = (case ans of
     None \<Rightarrow> run_loop s
   | Some AnsShutdown \<Rightarrow> Some (Ok (Halted 1), s)
   | Some a \<Rightarrow> (case on_frame (push (into_value a)) s of
       (Ok _, s') \<Rightarrow> run_loop s'
     | (Err e, s') \<Rightarrow> Some (Err e, s')
     | (Panic, s') \<Rightarrow> Some (Panic, s')))"

section \<open>Relations that every instruction respects\<close>

text \<open>The instructions that stop for the host.\<close>

definition trap_ops :: "op list" where
  "trap_ops = [OpCallTool, OpSpawn, OpAwait, OpPoll, OpCancel, OpSelect, OpJoin, OpCheckpoint, OpYieldCtx, OpQueryQ,
     OpNow, OpRand, OpEnv, OpLog]"

definition follows :: "(vm \<Rightarrow> vm \<Rightarrow> bool) \<Rightarrow> (vm, diag, 'a) sm \<Rightarrow> bool" where
  "follows R m \<longleftrightarrow> (\<forall>s. R s (snd (m s)))"

text \<open>First the instructions that neither stop for the host nor halt.\<close>

locale frame_relation =
  fixes R :: "vm \<Rightarrow> vm \<Rightarrow> bool"
  assumes refl: "R s s"
    and trans: "R s t \<Longrightarrow> R t u \<Longrightarrow> R s u"
    and new_frames: "R s (s\<lparr>frames := fs\<rparr>)"
    and new_arena: "alloc bs (arena s) = (r, a) \<Longrightarrow> R s (s\<lparr>arena := a\<rparr>)"
    and new_budget: "R s (s\<lparr>budget := b\<rparr>)"
    and new_ctx: "R s (s\<lparr>ctx := c\<rparr>)"
begin

lemma f_sbind: "follows R m \<Longrightarrow> (\<And>x. follows R (f x)) \<Longrightarrow> follows R (sbind m f)"
  unfolding follows_def
proof
  fix s
  assume m: "\<forall>s. R s (snd (m s))" and f: "\<And>x. \<forall>s. R s (snd (f x s))"
  obtain r t where e: "m s = (r, t)" by fastforce
  with m have "R s t" by (metis snd_conv)
  with f e show "R s (snd (sbind m f s))" by (cases r) (auto intro: trans)
qed

lemma f_sthen: "follows R m \<Longrightarrow> follows R n \<Longrightarrow> follows R (sthen m n)"
  by (simp add: sthen_def f_sbind)

lemma f_if: "follows R m \<Longrightarrow> follows R n \<Longrightarrow> follows R (if b then m else n)"
  by simp

lemma f_pure: "follows R (sret x)" "follows R (slift y)" "follows R (sget g)"
  "follows R (read_arena q)" "follows R (target_of b)" "follows R spanic" "follows R ctx_window"
  by (simp_all add: follows_def sret_def slift_def sget_def read_arena_def target_of_def
      spanic_def ctx_window_def refl)

lemma f_on_frame: "follows R (on_frame m)"
  by (auto simp: follows_def on_frame_def refl new_frames split: prod.split)

lemma f_on_parts: "follows R (on_arena (alloc bs))" "follows R (on_budget mb)" "follows R (on_ctx mc)"
  by (auto simp: follows_def on_arena_def on_budget_def on_ctx_def new_budget new_ctx
      split: prod.split intro: new_arena)

lemma f_alloc_list: "follows R (on_arena (alloc_list vs))"
  using f_on_parts(1) by (simp add: alloc_list_def [abs_def])

lemma f_smod: "(\<And>s. R s (f s)) \<Longrightarrow> follows R (smod f)"
  by (simp add: follows_def smod_def)

lemma f_smod_frames: "follows R (smod (\<lambda>s. s\<lparr>frames := g s\<rparr>))"
  by (intro f_smod new_frames)

lemmas follow_rules = f_sbind f_sthen f_if f_pure f_on_frame f_on_parts f_alloc_list f_smod_frames

lemma f_push_int: "follows R (push_val v)" "follows R int_top"
  by (simp_all add: push_val_def int_top_def f_on_frame)

lemma f_stack_arms: "follows R (ex_dup n)" "follows R ex_swap" "follows R ex_rot"
  "follows R (ex_ldl n)" "follows R (ex_stl n)" "follows R (binop g)" "follows R (divop g)"
  "follows R ex_lt" "follows R ex_not"
  unfolding ex_dup_def ex_swap_def ex_rot_def ex_ldl_def ex_stl_def binop_def divop_def
    ex_lt_def ex_not_def
  by (intro follow_rules f_push_int)+

lemma f_data_arms: "follows R (ex_ldc b)" "follows R ex_argv" "follows R (ex_pack n)"
  "follows R (ex_fmt b)" "follows R ex_cat" "follows R ex_slice" "follows R ex_unpack"
  "follows R ex_idx" "follows R ex_len" "follows R ex_eq" "follows R ex_find"
  unfolding ex_ldc_def ex_argv_def ex_pack_def ex_fmt_def ex_cat_def ex_slice_def Let_def
    ex_unpack_def ex_idx_def ex_len_def ex_eq_def ex_find_def
  by (intro follow_rules f_push_int)+

lemma f_control_arms: "follows R (ex_br b)" "follows R (ex_branch_if z b)"
  "follows R (ex_switch b)" "follows R (ex_call b)" "follows R (ex_tail b)"
  unfolding ex_br_def ex_branch_if_def ex_switch_def ex_call_def ex_tail_def Let_def
  by (intro follow_rules f_push_int)+

lemma f_ctx_arms: "follows R (ex_ctxpush a)" "follows R ex_ctxwin"
  unfolding ex_ctxpush_def ex_ctxwin_def
  by (intro follow_rules f_push_int)+

lemma f_adv: "follows R m \<Longrightarrow> follows R (adv m)"
  by (simp add: adv_def f_sthen f_pure)

lemma f_plain_op:
  "x \<notin> {OpFork, OpCommit, OpAbort, OpRet, OpHalt} \<union> set trap_ops \<Longrightarrow> follows R (exec_op x d)"
  by (cases x)
    (simp_all add: trap_ops_def f_adv f_push_int f_stack_arms f_data_arms f_control_arms f_ctx_arms
      f_pure f_on_frame f_on_parts f_sbind)

lemma f_bump: "follows R (bump_pc k)"
  by (simp add: follows_def bump_pc_def refl new_frames)

lemma f_exec: "follows R (exec_op (d_op d) d) \<Longrightarrow> follows R (exec d)"
  unfolding exec_def by (intro follow_rules f_bump)

end

text \<open>With the traps, with the exit code, and with both.\<close>

locale quiet_relation = frame_relation +
  assumes new_pending: "R s (s\<lparr>next_effect := i, pending := p\<rparr>)"
begin

lemma f_trap: "follows R (raise_trap t)"
proof -
  have "R s (s\<lparr>pending := Some t\<rparr>)" for s
    using new_pending [where s = s and i = "next_effect s" and p = "Some t"] by simp
  then have "follows R (smod (\<lambda>s. s\<lparr>pending := Some t\<rparr>))" by (intro f_smod)
  then show ?thesis unfolding raise_trap_def by (intro follow_rules)
qed

lemma f_host_arms: "follows R (ex_calltool b)" "follows R (ex_queryq a)"
  unfolding ex_calltool_def ex_queryq_def
  by (intro follow_rules f_push_int f_trap f_smod new_pending)+

lemma f_quiet_op: "x \<notin> {OpFork, OpCommit, OpAbort, OpRet, OpHalt} \<Longrightarrow> follows R (exec_op x d)"
  by (cases "x \<in> set trap_ops") (auto simp: trap_ops_def f_trap f_host_arms f_plain_op)

end

locale ending_relation = frame_relation +
  assumes new_halt: "R s (s\<lparr>halt := h\<rparr>)"
begin

lemma f_halt: "follows R ex_halt"
  unfolding follows_def
proof
  fix s
  obtain r t where p: "on_frame pop s = (r, t)" by fastforce
  then have st: "R s t" using f_on_frame [of pop] by (auto simp: follows_def dest: spec [of _ s])
  have "R t (t\<lparr>frames := [], halt := h\<rparr>)" for h
    using trans [OF new_frames [of t "[]"] new_halt [of "t\<lparr>frames := []\<rparr>" h]] by simp
  with st p show "R s (snd (ex_halt s))" by (cases r) (auto simp: ex_halt_def intro: trans)
qed

lemma f_smod_halt: "follows R (smod (\<lambda>s. s\<lparr>halt := h s\<rparr>))"
  by (intro f_smod new_halt)

lemma f_ret: "follows R ex_ret"
  unfolding ex_ret_def by (intro follow_rules f_smod_halt)

lemma f_ending_op: "x \<notin> {OpFork, OpCommit, OpAbort} \<union> set trap_ops \<Longrightarrow> follows R (exec_op x d)"
  using f_plain_op [of x d] f_halt f_ret by (cases "x \<in> {OpRet, OpHalt}") auto

end

locale step_relation = quiet_relation R + ending_relation R for R
begin

lemma f_exec_op: "x \<notin> {OpFork, OpCommit, OpAbort} \<Longrightarrow> follows R (exec_op x d)"
  using f_quiet_op [of x d] f_halt f_ret by (cases "x \<in> {OpRet, OpHalt}") auto

lemma exec_related: "d_op d \<notin> {OpFork, OpCommit, OpAbort} \<Longrightarrow> R s (snd (exec d s))"
  using f_exec [OF f_exec_op [of "d_op d" d]] by (simp add: follows_def)

end

section \<open>What never changes, and what only grows\<close>

definition same_program :: "vm \<Rightarrow> vm \<Rightarrow> bool" where
  "same_program s t \<longleftrightarrow> vm_image t = vm_image s \<and> limits t = limits s \<and> steps t = steps s"

definition arena_grows :: "vm \<Rightarrow> vm \<Rightarrow> bool" where
  "arena_grows s t \<longleftrightarrow> (\<exists>ext. a_data (arena t) = a_data (arena s) @ ext)"

definition same_fork :: "vm \<Rightarrow> vm \<Rightarrow> bool" where
  "same_fork s t \<longleftrightarrow> staged t = staged s \<and> fork_depth t = fork_depth s"

interpretation program: step_relation same_program
  by unfold_locales (auto simp: same_program_def)

interpretation growth: step_relation arena_grows
proof unfold_locales
  show "arena_grows s (s\<lparr>arena := a\<rparr>)" if "alloc bs (arena s) = (r, a)" for bs s r a
    using alloc_extends [OF that] by (auto simp: arena_grows_def)
qed (auto simp: arena_grows_def)

interpretation fork_state: step_relation same_fork
  by unfold_locales (auto simp: same_fork_def)

lemma durable_same_program:
  "follows same_program ex_fork" "follows same_program ex_commit" "follows same_program ex_abort"
proof -
  have "follows same_program (smod (\<lambda>s. s\<lparr>fork_depth := 1, staged := Some (arena s)\<rparr>))"
    by (rule program.f_smod) (simp add: same_program_def)
  then show "follows same_program ex_fork"
    unfolding ex_fork_def by (intro program.follow_rules program.f_push_int)
  show "follows same_program ex_commit"
    unfolding ex_commit_def
  proof (rule program.f_smod)
    fix s show "same_program s (case staged s of None \<Rightarrow> s\<lparr>fork_depth := 0\<rparr>
        | Some a \<Rightarrow> s\<lparr>arena := a, staged := None, fork_depth := 0\<rparr>)"
      by (cases "staged s") (simp_all add: same_program_def)
  qed
  show "follows same_program ex_abort"
    unfolding ex_abort_def by (rule program.f_smod) (simp add: same_program_def)
qed

lemma exec_same_program: "same_program s (snd (exec d s))"
proof -
  have "follows same_program (exec_op (d_op d) d)"
    using program.f_exec_op [of "d_op d" d] program.f_adv durable_same_program
    by (cases "d_op d \<in> {OpFork, OpCommit, OpAbort}") auto
  from program.f_exec [OF this] show ?thesis by (simp add: follows_def)
qed

lemma durable_arena_grows: "follows arena_grows ex_fork" "follows arena_grows ex_abort"
proof -
  have "follows arena_grows (smod (\<lambda>s. s\<lparr>fork_depth := 1, staged := Some (arena s)\<rparr>))"
    by (rule growth.f_smod) (simp add: arena_grows_def)
  then show "follows arena_grows ex_fork"
    unfolding ex_fork_def by (intro growth.follow_rules growth.f_push_int)
  show "follows arena_grows ex_abort"
    unfolding ex_abort_def by (rule growth.f_smod) (simp add: arena_grows_def)
qed

lemma exec_arena_grows:
  assumes "d_op d \<noteq> OpCommit"
  shows "arena_grows s (snd (exec d s))"
proof -
  have "follows arena_grows (exec_op (d_op d) d)"
    using growth.f_exec_op [of "d_op d" d] growth.f_adv durable_arena_grows assms
    by (cases "d_op d \<in> {OpFork, OpCommit, OpAbort}") auto
  from growth.f_exec [OF this] show ?thesis by (simp add: follows_def)
qed

section \<open>One turn of the loop\<close>

lemma tick_continues:
  assumes "tick s = (Ok None, s')"
  shows "pending s = None" "halt s = None" "frames s \<noteq> []" "\<not> max_steps (limits s) < steps s + 1"
    "\<exists>d. fetch (s\<lparr>steps := steps s + 1\<rparr>) = Ok d \<and> exec d (s\<lparr>steps := steps s + 1\<rparr>) = (Ok (), s')"
  using assms
  by (auto simp: tick_def sbind_def slift_def sthen_def sret_def Let_def fail_def
      split: option.splits if_splits prod.splits res.splits)

lemma tick_program:
  assumes "tick s = (Ok None, s')"
  shows "vm_image s' = vm_image s" "limits s' = limits s" "steps s' = steps s + 1"
proof -
  from tick_continues(5) [OF assms] obtain d where
    "exec d (s\<lparr>steps := steps s + 1\<rparr>) = (Ok (), s')" by blast
  then show "vm_image s' = vm_image s" "limits s' = limits s" "steps s' = steps s + 1"
    using exec_same_program [of "s\<lparr>steps := steps s + 1\<rparr>" d] by (auto simp: same_program_def)
qed

lemma vm_wf_unread [simp]:
  "vm_wf (s\<lparr>steps := k\<rparr>) = vm_wf s" "vm_wf (s\<lparr>pending := p\<rparr>) = vm_wf s"
  "vm_wf (s\<lparr>halt := h\<rparr>) = vm_wf s"
  by (simp_all add: vm_wf_def)

lemma fetch_no_panic: "vm_live s \<Longrightarrow> fetch s \<noteq> Panic"
  by (auto simp: fetch_def vm_live_def vm_wf_def frame_ok_def Let_def nth_get_def of_opt_def
      split: option.splits)

lemma fetch_decodes: "fetch s = Ok d \<Longrightarrow> \<exists>off. decode (img_code (vm_image s)) off = Some d"
  by (auto simp: fetch_def Let_def of_opt_def split: option.splits)

lemma tick_cases:
  assumes "vm_wf s"
  obtains (stop) x where "fst (tick s) = Ok (Some x)" "vm_wf (snd (tick s))"
  | (over) e where "fst (tick s) = Err e" "vm_wf (snd (tick s))"
  | (ran) d where "vm_live (s\<lparr>steps := steps s + 1\<rparr>)" "fetch (s\<lparr>steps := steps s + 1\<rparr>) = Ok d"
      "tick s = sthen (exec d) (sret None) (s\<lparr>steps := steps s + 1\<rparr>)"
proof (cases "pending s = None \<and> halt s = None \<and> frames s \<noteq> [] \<and>
    \<not> max_steps (limits s) < steps s + 1")
  case True
  let ?s1 = "s\<lparr>steps := steps s + 1\<rparr>"
  from True assms have live: "vm_live ?s1" by (simp add: vm_live_def)
  show ?thesis
  proof (cases "fetch ?s1")
    case (Ok d)
    with True live show ?thesis
      by (intro ran [of d]) (simp_all add: tick_def slift_def sbind_def)
  next
    case (Err e)
    with True live show ?thesis
      by (intro over [of e]) (simp_all add: tick_def slift_def sbind_def vm_live_def)
  next
    case Panic
    with fetch_no_panic [OF live] show ?thesis by simp
  qed
next
  case False
  have unread: "vm_wf (s\<lparr>steps := steps s + 1\<rparr>)" using assms by simp
  from False consider (p) t where "pending s = Some t" | (h) c where "pending s = None" "halt s = Some c"
    | (n) "pending s = None" "halt s = None" "frames s = []"
    | (m) "pending s = None" "halt s = None" "frames s \<noteq> []" "max_steps (limits s) < steps s + 1"
    by (cases "pending s"; cases "halt s") auto
  then show ?thesis
  proof cases
    case p
    with assms show ?thesis by (intro stop [of "StepTrap t"]) (simp_all add: tick_def)
  next
    case h
    with assms show ?thesis by (intro stop [of "Halted c"]) (simp_all add: tick_def)
  next
    case n
    with assms show ?thesis by (intro stop [of "Halted 0"]) (simp_all add: tick_def)
  next
    case m
    with unread show ?thesis by (intro over) (simp_all add: tick_def fail_def)
  qed
qed

lemma tick_wf:
  assumes "vm_wf s"
  shows "vm_wf (snd (tick s))"
  using assms
proof (cases rule: tick_cases)
  case (ran d)
  let ?s1 = "s\<lparr>steps := steps s + 1\<rparr>"
  obtain r t where e: "exec d ?s1 = (r, t)" by fastforce
  with exec_wf [OF ran(1), of d] have "vm_wf t" by simp
  with ran(3) e show ?thesis by (cases r) (simp_all add: sthen_def sret_def)
qed simp_all

definition no_find :: "bytes \<Rightarrow> bool" where
  "no_find code \<longleftrightarrow> list_all (\<lambda>off. case decode code off of None \<Rightarrow> True | Some d \<Rightarrow> d_op d \<noteq> OpFind)
     [0..<length code]"

lemma decode_beyond: "length code \<le> off \<Longrightarrow> decode code off = None"
  by (simp add: decode_def slice_get_def INSN_LEN_def)

lemma no_findD: "no_find code \<Longrightarrow> decode code off = Some d \<Longrightarrow> d_op d \<noteq> OpFind"
  using decode_beyond [of code off]
  by (cases "off < length code") (fastforce simp: no_find_def list_all_iff split: option.splits)+

lemma tick_no_panic:
  assumes "vm_wf s" and nf: "no_find (img_code (vm_image s))"
  shows "fst (tick s) \<noteq> Panic"
  using assms(1)
proof (cases rule: tick_cases)
  case (ran d)
  from fetch_decodes [OF ran(2)] obtain off where "decode (img_code (vm_image s)) off = Some d"
    by auto
  with no_findD [OF nf] exec_panic [OF ran(1), of d]
  have "fst (exec d (s\<lparr>steps := steps s + 1\<rparr>)) \<noteq> Panic" by blast
  with ran(3) show ?thesis by (auto simp: sthen_def fst_sbind_Panic sret_def)
qed simp_all

section \<open>The loop returns\<close>

lemma run_loop_some:
  assumes "unat (steps s) + n = unat (max_steps (limits s))" and "unat (max_steps (limits s)) < 2 ^ 64 - 1"
  shows "\<exists>y. run_loop s = Some y"
  using assms
proof (induction n arbitrary: s)
  case (0 s)
  then have "steps s = max_steps (limits s)" by (simp add: word_unat_eq_iff)
  moreover have "max_steps (limits s) < max_steps (limits s) + 1"
    using 0(2) by (simp add: word_less_nat_alt unat_word_ariths)
  ultimately have "fst (tick s) \<noteq> Ok None"
    using tick_continues(4) [of s] by (cases "tick s") auto
  then show ?case
    by (subst run_loop.simps) (auto split: prod.split res.split option.split)
next
  case (Suc n s)
  show ?case
  proof (cases "fst (tick s) = Ok None")
    case True
    then obtain s' where t: "tick s = (Ok None, s')" by (cases "tick s") auto
    have "unat (steps s + 1) = unat (steps s) + 1"
      using Suc.prems by (simp add: unat_word_ariths)
    with Suc.prems tick_program [OF t] Suc.IH [of s'] have "\<exists>y. run_loop s' = Some y" by simp
    with t show ?thesis by (subst run_loop.simps) simp
  next
    case False
    then show ?thesis by (subst run_loop.simps) (auto split: prod.split res.split option.split)
  qed
qed

lemma run_loop_returns:
  assumes "max_steps (limits s) < 0xFFFFFFFFFFFFFFFF"
  shows "\<exists>y. run_loop s = Some y"
proof -
  have b: "unat (max_steps (limits s)) < 2 ^ 64 - 1"
    using assms by (simp add: word_less_nat_alt)
  have from_le: "\<exists>y. run_loop t = Some y"
    if "limits t = limits s" "unat (steps t) \<le> unat (max_steps (limits s))" for t
    using run_loop_some [of t "unat (max_steps (limits s)) - unat (steps t)"] that b by simp
  show ?thesis
  proof (cases "fst (tick s) = Ok None")
    case True
    then obtain s' where t: "tick s = (Ok None, s')" by (cases "tick s") auto
    have "unat (steps s + 1) \<le> unat (max_steps (limits s))"
      using tick_continues(4) [OF t] by (simp add: word_less_nat_alt)
    with from_le tick_program [OF t] have "\<exists>y. run_loop s' = Some y" by simp
    with t show ?thesis by (subst run_loop.simps) simp
  next
    case False
    then show ?thesis by (subst run_loop.simps) (auto split: prod.split res.split option.split)
  qed
qed

section \<open>The loop is safe\<close>

text \<open>What holds of every result that one turn yields, or that the next turns do, holds of the loop.\<close>

lemma run_loop_induct [consumes 1, case_names step]:
  assumes "run_loop s = Some (r, s')"
    and "\<And>f s r s'. (\<And>t r t'. f t = Some (r, t') \<Longrightarrow> P t r t') \<Longrightarrow>
       (case tick s of (Ok None, t) \<Rightarrow> f t | (Ok (Some x), t) \<Rightarrow> Some (Ok x, t)
        | (Err e, t) \<Rightarrow> Some (Err e, t) | (Panic, t) \<Rightarrow> Some (Panic, t)) = Some (r, s') \<Longrightarrow> P s r s'"
  shows "P s r s'"
proof -
  have "(\<lambda>s y. P s (fst y) (snd y)) s (r, s')"
  proof (rule run_loop.raw_induct [OF _ assms(1)])
    fix f s y
    assume "\<And>x y. f x = Some y \<Longrightarrow> P x (fst y) (snd y)"
      and "(case tick s of (Ok None, s') \<Rightarrow> f s' | (Ok (Some x), s') \<Rightarrow> Some (Ok x, s')
        | (Err e, s') \<Rightarrow> Some (Err e, s') | (Panic, s') \<Rightarrow> Some (Panic, s')) = Some y"
    with assms(2) [of f s "fst y" "snd y"] show "P s (fst y) (snd y)" by force
  qed
  then show ?thesis by simp
qed

lemma run_loop_safe:
  assumes "run_loop s = Some (r, s')" and "vm_wf s" and "no_find (img_code (vm_image s))"
  shows "vm_wf s' \<and> r \<noteq> Panic"
proof -
  have "vm_wf s \<longrightarrow> no_find (img_code (vm_image s)) \<longrightarrow> vm_wf s' \<and> r \<noteq> Panic"
    using assms(1)
  proof (induction rule: run_loop_induct)
    case (step f s r s')
    show ?case
    proof (intro impI)
      assume s: "vm_wf s" "no_find (img_code (vm_image s))"
      obtain q t where e: "tick s = (q, t)" by fastforce
      with tick_wf [OF s(1)] tick_no_panic [OF s] have t: "vm_wf t" "q \<noteq> Panic" by auto
      show "vm_wf s' \<and> r \<noteq> Panic"
      proof (cases "q = Ok None")
        case True
        with e have "tick s = (Ok None, t)" by simp
        from tick_program(1) [OF this] s t step e True show ?thesis by auto
      next
        case False
        with step(2) e t show ?thesis by (auto split: res.splits option.splits)
      qed
    qed
  qed
  with assms(2,3) show ?thesis by blast
qed

lemma on_frame_push_kept:
  assumes "vm_wf s" and "frames s \<noteq> []" and "on_frame (push v) s = (r, t)"
  shows "vm_wf t \<and> r \<noteq> Panic \<and> vm_image t = vm_image s \<and> limits t = limits s"
proof -
  from assms obtain k where k: "vm_at k s" by (cases "frames s") (auto simp: vm_at_def)
  have "same_program s t"
    using program.f_on_frame [of "push v"] assms(3) by (auto simp: follows_def dest: spec [of _ s])
  moreover have "vm_wf t \<and> r \<noteq> Panic"
    using triple_Ok [OF wp_push k] triple_Err [OF wp_push k] triple_no_panic [OF wp_push [of k v] k] assms(3)
    by (cases r) (auto simp: vm_at_def)
  ultimately show ?thesis by (simp add: same_program_def)
qed

text \<open>Whatever the host answers, \<open>step\<close> returns, without a panic, a well-formed machine.\<close>

lemma vm_step_safe:
  assumes wf: "vm_wf s" and lim: "max_steps (limits s) < 0xFFFFFFFFFFFFFFFF"
    and nf: "no_find (img_code (vm_image s))" and ans: "ans = None \<or> frames s \<noteq> []"
  shows "\<exists>r s'. vm_step ans s = Some (r, s') \<and> r \<noteq> Panic \<and> vm_wf s'"
proof -
  have loop: "\<exists>r s'. run_loop t = Some (r, s') \<and> r \<noteq> Panic \<and> vm_wf s'"
    if "vm_wf t" "limits t = limits s" "vm_image t = vm_image s" for t
  proof -
    have "max_steps (limits t) < 0xFFFFFFFFFFFFFFFF" using lim that(2) by simp
    from run_loop_returns [OF this] obtain r s' where "run_loop t = Some (r, s')" by fastforce
    with run_loop_safe [OF this] that nf show ?thesis by auto
  qed
  have answered: "\<exists>r s'. (case on_frame (push v) s of (Ok _, s') \<Rightarrow> run_loop s'
      | (Err e, s') \<Rightarrow> Some (Err e, s') | (Panic, s') \<Rightarrow> Some (Panic, s')) = Some (r, s') \<and> r \<noteq> Panic \<and> vm_wf s'"
    if "frames s \<noteq> []" for v
  proof -
    obtain r t where p: "on_frame (push v) s = (r, t)" by fastforce
    from on_frame_push_kept [OF wf that p] loop [of t] p show ?thesis by (cases r) auto
  qed
  consider "ans = None" | v where "ans = Some (AnsValue v)" "frames s \<noteq> []"
    | v where "ans = Some (AnsFail v)" "frames s \<noteq> []" | "ans = Some AnsShutdown"
    using ans by (cases ans rule: option.exhaust) (auto, metis answer.exhaust)
  then show ?thesis
    by cases (use loop [of s] answered wf in \<open>auto simp: vm_step_def\<close>)
qed

end
