(* ===== verification/CV_Behaviour.thy ===== *)
theory CV_Behaviour
  imports CV_Run
begin

text \<open>
  What instructions compute, on the abstract view of the running frame (its operands): the
  arithmetic against integer arithmetic, stack shuffles, lists and strings, forks, calls and
  traps. The definitions here are specifications; the code's are in \<open>CV_Exec\<close>.
\<close>

section \<open>Views of the running frame\<close>

text \<open>The machine runs frame \<open>f\<close>, above the frames \<open>fs\<close>, with these operands.\<close>

definition runs :: "vm \<Rightarrow> frame list \<Rightarrow> frame \<Rightarrow> val list \<Rightarrow> bool" where
  "runs s fs f vs \<longleftrightarrow> frames s = fs @ [f] \<and> frame_wf f \<and> operands f = vs"

text \<open>\<open>s'\<close> is \<open>s\<close> with the operands of the running frame replaced and its \<open>pc\<close> advanced by \<open>k\<close>.\<close>

definition became :: "vm \<Rightarrow> frame list \<Rightarrow> frame \<Rightarrow> val list \<Rightarrow> u32 \<Rightarrow> vm \<Rightarrow> bool" where
  "became s fs f vs k s' \<longleftrightarrow> (\<exists>f'. s' = s\<lparr>frames := fs @ [f']\<rparr> \<and> frame_wf f' \<and> operands f' = vs \<and>
     func f' = func f \<and> pc f' = pc f + k \<and> maxstack f' = maxstack f \<and> returns f' = returns f)"

lemma becameI:
  "frame_wf f' \<Longrightarrow> operands f' = vs \<Longrightarrow> same_frame f f' \<Longrightarrow> became s fs f vs 0 (s\<lparr>frames := fs @ [f']\<rparr>)"
  by (auto simp: became_def same_frame_def)

lemma pop_view:
  assumes "runs s fs f (vs @ [v])"
  obtains f' where "on_frame pop s = (Ok v, s\<lparr>frames := fs @ [f']\<rparr>)"
    "runs (s\<lparr>frames := fs @ [f']\<rparr>) fs f' vs" "same_frame f f'"
proof -
  from assms have f: "frames s = fs @ [f]" "frame_wf f" "operands f = vs @ [v]"
    by (simp_all add: runs_def)
  from f(2) show ?thesis
  proof (cases rule: pop_cases)
    case (top w f')
    with f that [of f'] show ?thesis by (simp add: runs_def)
  qed (use f in simp)
qed

lemma push_view:
  assumes "runs s fs f vs" and "length vs < unat (maxstack f)"
  obtains f' where "push_val v s = (Ok (), s\<lparr>frames := fs @ [f']\<rparr>)"
    "runs (s\<lparr>frames := fs @ [f']\<rparr>) fs f' (vs @ [v])" "same_frame f f'"
proof -
  from assms have f: "frames s = fs @ [f]" "frame_wf f" "operands f = vs" "sp f < unat (maxstack f)"
    using length_operands [of f] by (simp_all add: runs_def)
  from f(2) show ?thesis
  proof (cases rule: push_cases [of f v])
    case (room f')
    with f that [of f'] show ?thesis by (simp add: runs_def push_val_def)
  qed (use f in simp)
qed

lemma runs_room: "runs s fs f vs \<Longrightarrow> length vs \<le> unat (maxstack f)"
  by (auto simp: runs_def length_operands frame_wf_def)

lemma same_frame_maxstack: "same_frame f g \<Longrightarrow> maxstack g = maxstack f"
  by (simp add: same_frame_def)

lemma int_view:
  assumes "runs s fs f (vs @ [v_int n])"
  obtains f' where "int_top s = (Ok n, s\<lparr>frames := fs @ [f']\<rparr>)"
    "runs (s\<lparr>frames := fs @ [f']\<rparr>) fs f' vs" "same_frame f f'"
proof -
  from assms have f: "frames s = fs @ [f]" "frame_wf f" "operands f = vs @ [v_int n]"
    by (simp_all add: runs_def)
  from f(2) show ?thesis
  proof (cases rule: pop_cases)
    case (top w f')
    with f have "pop_as as_int f = (Ok n, f')" by (simp add: pop_as_def slift_def)
    with top f that [of f'] show ?thesis by (simp add: runs_def int_top_def)
  qed (use f in simp)
qed

section \<open>From an arm to the instruction\<close>

lemma exec_adv:
  assumes "exec_op (d_op d) d = adv m" and "m s = (Ok x, s')"
    and "frames s = fs @ [f]" and "frames s' = fs @ [f']"
  shows "exec d s = (Ok (), s'\<lparr>frames := fs @ [f'\<lparr>pc := pc f' + 1\<rparr>]\<rparr>)"
  using assms by (simp add: exec_def adv_def sthen_def sbind_def sget_def sret_def bump_pc_def)

lemma exec_adv_Err:
  assumes "exec_op (d_op d) d = adv m" and "m s = (Err e, s')"
  shows "exec d s = (Err e, s')"
  using assms by (simp add: exec_def adv_def sthen_def sbind_def sget_def)

lemma exec_became:
  assumes "exec_op (d_op d) d = adv m" and "m s = (Ok x, s')" and "frames s = fs @ [f]"
    and "became s fs f vs 0 s'"
  shows "\<exists>t. exec d s = (Ok (), t) \<and> became s fs f vs 1 t"
proof -
  from assms(4) obtain f' where f': "s' = s\<lparr>frames := fs @ [f']\<rparr>" "frame_wf f'" "operands f' = vs"
    "func f' = func f" "pc f' = pc f" "maxstack f' = maxstack f" "returns f' = returns f"
    by (auto simp: became_def)
  then have "frames s' = fs @ [f']" by simp
  from exec_adv [OF assms(1-3) this] f' show ?thesis
    by (auto simp: became_def intro!: exI [of _ "f'\<lparr>pc := pc f' + 1\<rparr>"])
qed

section \<open>Arithmetic\<close>

text \<open>The integer operation behind each binary instruction; the result is taken modulo \<open>2 ^ 64\<close>.\<close>

fun int_arith :: "op \<Rightarrow> (int \<Rightarrow> int \<Rightarrow> int) option" where
  "int_arith OpAdd = Some (+)"
| "int_arith OpSub = Some (-)"
| "int_arith OpMul = Some (*)"
| "int_arith OpDiv = Some trunc_div"
| "int_arith OpMod = Some trunc_rem"
| "int_arith OpAnd = Some and"
| "int_arith OpOr = Some or"
| "int_arith OpShl = Some (\<lambda>a b. a * 2 ^ nat (b mod 64))"
| "int_arith OpShr = Some (\<lambda>a b. a div 2 ^ nat (b mod 64))"
| "int_arith OpLt = Some (\<lambda>a b. of_bool (a < b))"
| "int_arith _ = None"

lemma binop_view:
  assumes "runs s fs f (vs @ [v_int a, v_int b])"
  shows "\<exists>s'. binop g s = (Ok (), s') \<and> became s fs f (vs @ [v_int (g a b)]) 0 s'"
proof -
  have len: "length vs < unat (maxstack f)" using runs_room [OF assms] by simp
  from assms have "runs s fs f ((vs @ [v_int a]) @ [v_int b])" by simp
  then obtain f1 where f1: "int_top s = (Ok b, s\<lparr>frames := fs @ [f1]\<rparr>)"
    "runs (s\<lparr>frames := fs @ [f1]\<rparr>) fs f1 (vs @ [v_int a])" "same_frame f f1" by (rule int_view)
  from f1(2) obtain f2 where f2: "int_top (s\<lparr>frames := fs @ [f1]\<rparr>) = (Ok a, s\<lparr>frames := fs @ [f2]\<rparr>)"
    "runs (s\<lparr>frames := fs @ [f2]\<rparr>) fs f2 vs" "same_frame f1 f2" by (rule int_view) simp
  have "length vs < unat (maxstack f2)"
    using len f1(3) f2(3) by (simp add: same_frame_maxstack)
  with f2(2) obtain f3 where f3: "push_val (v_int (g a b)) (s\<lparr>frames := fs @ [f2]\<rparr>) =
      (Ok (), s\<lparr>frames := fs @ [f3]\<rparr>)"
    "runs (s\<lparr>frames := fs @ [f3]\<rparr>) fs f3 (vs @ [v_int (g a b)])" "same_frame f2 f3"
    by (rule push_view) simp
  from f1(3) f2(3) f3(3) have "same_frame f f3" by (blast intro: same_frame_trans)
  with f1 f2 f3 show ?thesis
    by (auto simp: binop_def runs_def intro: becameI)
qed

lemma two_ints:
  assumes "runs s fs f (vs @ [v_int a, v_int b])"
  obtains f1 f2 where "int_top s = (Ok b, s\<lparr>frames := fs @ [f1]\<rparr>)"
    "int_top (s\<lparr>frames := fs @ [f1]\<rparr>) = (Ok a, s\<lparr>frames := fs @ [f2]\<rparr>)"
proof -
  from assms have "runs s fs f ((vs @ [v_int a]) @ [v_int b])" by simp
  then obtain f1 where f1: "int_top s = (Ok b, s\<lparr>frames := fs @ [f1]\<rparr>)"
    "runs (s\<lparr>frames := fs @ [f1]\<rparr>) fs f1 (vs @ [v_int a])" by (rule int_view)
  from f1(2) obtain f2 where "int_top (s\<lparr>frames := fs @ [f1]\<rparr>) = (Ok a, s\<lparr>frames := fs @ [f2]\<rparr>)"
    by (rule int_view) simp
  with f1 that show ?thesis by blast
qed

lemma divop_binop:
  assumes "runs s fs f (vs @ [v_int a, v_int b])" and "b \<noteq> 0"
  shows "divop g s = binop g s"
  using assms by (elim two_ints) (simp add: divop_def binop_def)

lemma divop_zero:
  assumes "runs s fs f (vs @ [v_int a, v_int 0])"
  shows "fst (divop g s) = fail DivideByZero"
  using assms by (elim two_ints) (simp add: divop_def slift_def)

lemma lt_binop: "ex_lt = binop (\<lambda>a b. of_bool (sint a < sint b))"
  by (simp add: ex_lt_def binop_def v_bool_def)

lemma shift_amount: "unat (and b 63) = nat (sint (b :: i64) mod 64)"
proof -
  have "and b 63 = take_bit 6 b" by (simp add: take_bit_eq_mask mask_numeral)
  then have "int (unat (and b 63)) = uint b mod 64"
    by (simp add: take_bit_eq_mod uint_mod)
  also have "uint b mod 64 = sint b mod 64"
  proof -
    have "take_bit 6 (signed_take_bit 63 (uint b)) = take_bit 6 (uint b)"
      by (rule bit_eqI) (auto simp: bit_simps)
    then show ?thesis by (simp add: sint_uint take_bit_eq_mod)
  qed
  finally show ?thesis by (metis nat_int)
qed

lemma word_int_arith:
  "a + b = word_of_int (sint a + sint b)" "a - b = word_of_int (sint a - sint b)"
  "a * b = word_of_int (sint a * sint b)"
  "and a b = word_of_int (and (sint a) (sint b))" "or a b = word_of_int (or (sint a) (sint b))"
  for a b :: i64
proof -
  show "a + b = word_of_int (sint a + sint b)" "a - b = word_of_int (sint a - sint b)"
    "a * b = word_of_int (sint a * sint b)" by simp_all
  show "and a b = word_of_int (and (sint a) (sint b))" "or a b = word_of_int (or (sint a) (sint b))"
    by (rule bit_word_eqI; auto simp: bit_simps)+
qed

lemma word_int_shift:
  "i64_shl a b = word_of_int (sint a * 2 ^ nat (sint b mod 64))"
  "i64_shr a b = word_of_int (sint a div 2 ^ nat (sint b mod 64))"
proof -
  show "i64_shl a b = word_of_int (sint a * 2 ^ nat (sint b mod 64))"
    by (simp add: i64_shl_def shift_amount push_bit_eq_mult)
  have "i64_shr a b = word_of_int (sint (signed_drop_bit (nat (sint b mod 64)) a))"
    by (simp add: i64_shr_def shift_amount)
  also have "sint (signed_drop_bit k a) = sint a div 2 ^ k" for k
    by (simp add: sint_signed_drop_bit_eq drop_bit_eq_div)
  finally show "i64_shr a b = word_of_int (sint a div 2 ^ nat (sint b mod 64))" .
qed

lemma arith_arm:
  assumes "int_arith x = Some g" and "runs s fs f (vs @ [v_int a, v_int b])"
    and "x \<in> {OpDiv, OpMod} \<longrightarrow> b \<noteq> 0"
  shows "\<exists>m h. exec_op x d = adv m \<and> m s = binop h s \<and> h a b = word_of_int (g (sint a) (sint b))"
proof -
  have arm: "\<exists>m h. adv (binop k) = adv m \<and> m s = binop h s \<and> h a b = w" if "k a b = w" for k w
    using that by blast
  have div: "\<exists>m h. adv (divop k) = adv m \<and> m s = binop h s \<and> h a b = w" if "k a b = w" "b \<noteq> 0" for k w
    using that divop_binop [OF assms(2)] by blast
  have divs: "i64_div a b = word_of_int (trunc_div (sint a) (sint b))"
    "i64_rem a b = word_of_int (trunc_rem (sint a) (sint b))"
    by (simp_all add: i64_div_def i64_rem_def)
  have lt: "\<exists>m h. adv ex_lt = adv m \<and> m s = binop h s \<and> h a b = word_of_int (of_bool (sint a < sint b))"
    unfolding lt_binop by (rule arm) simp
  show ?thesis
    using assms(1,3) lt
      arm [where k = "(+)", OF word_int_arith(1)] arm [where k = "(-)", OF word_int_arith(2)]
      arm [where k = "(*)", OF word_int_arith(3)] arm [where k = "and", OF word_int_arith(4)]
      arm [where k = "or", OF word_int_arith(5)] arm [where k = i64_shl, OF word_int_shift(1)]
      arm [where k = i64_shr, OF word_int_shift(2)] div [where k = i64_div, OF divs(1)]
      div [where k = i64_rem, OF divs(2)]
    by (cases x) (simp_all only: int_arith.simps exec_op.simps option.simps HOL.simp_thms insert_iff
      empty_iff, blast+)
qed

lemma exec_int_arith:
  assumes "int_arith (d_op d) = Some g" and "runs s fs f (vs @ [v_int a, v_int b])"
    and "d_op d \<in> {OpDiv, OpMod} \<longrightarrow> b \<noteq> 0"
  shows "\<exists>s'. exec d s = (Ok (), s') \<and>
     became s fs f (vs @ [v_int (word_of_int (g (sint a) (sint b)))]) 1 s'"
proof -
  have fr: "frames s = fs @ [f]" using assms(2) by (simp add: runs_def)
  from arith_arm [OF assms, of d] obtain m h where m: "exec_op (d_op d) d = adv m" "m s = binop h s"
    and h: "h a b = word_of_int (g (sint a) (sint b))" by blast
  from binop_view [OF assms(2), of h] obtain s' where "m s = (Ok (), s')"
    "became s fs f (vs @ [v_int (h a b)]) 0 s'" by (auto simp: m(2))
  from exec_became [OF m(1) this(1) fr this(2)] show ?thesis by (simp only: h)
qed

lemma exec_div_zero:
  assumes "d_op d \<in> {OpDiv, OpMod}" and "runs s fs f (vs @ [v_int a, v_int 0])"
  shows "fst (exec d s) = fail DivideByZero"
proof -
  obtain h where h: "exec_op (d_op d) d = adv (divop h)" using assms(1) by auto
  obtain s' where "divop h s = (fail DivideByZero, s')"
    using divop_zero [OF assms(2)] by (metis prod.collapse)
  with exec_adv_Err [OF h] show ?thesis by (simp add: fail_def)
qed

section \<open>Lists and tools\<close>

lemma pop_n_view:
  assumes "runs s fs f (vs @ ws)"
  obtains f' where "on_frame (pop_n (length ws)) s = (Ok ws, s\<lparr>frames := fs @ [f']\<rparr>)"
    "runs (s\<lparr>frames := fs @ [f']\<rparr>) fs f' vs" "same_frame f f'"
proof -
  from assms have f: "frames s = fs @ [f]" "frame_wf f" "operands f = vs @ ws"
    by (simp_all add: runs_def)
  from f(2) show ?thesis
  proof (cases rule: pop_n_cases [of f "length ws"])
    case (enough us f')
    with f that [of f'] show ?thesis by (simp add: runs_def)
  qed (use f in simp)
qed

lemma push_all_view:
  assumes "runs s fs f vs" and "length vs + length ws \<le> unat (maxstack f)"
  obtains f' where "on_frame (push_all ws) s = (Ok (), s\<lparr>frames := fs @ [f']\<rparr>)"
    "runs (s\<lparr>frames := fs @ [f']\<rparr>) fs f' (vs @ ws)" "same_frame f f'"
proof -
  from assms have f: "frames s = fs @ [f]" "frame_wf f" "operands f = vs"
    by (simp_all add: runs_def)
  with assms(2) have "length ws \<le> stack_room f" by (simp add: stack_room_def length_operands [symmetric])
  with frame_stack.put_list_ok [OF f(2)] f(3) obtain f' where
    "push_all ws f = (Ok (), f')" "frame_wf f'" "operands f' = vs @ ws"
    by (auto simp: push_all_stack)
  with f push_all_keeps [OF f(2)] that [of f'] show ?thesis by (simp add: runs_def)
qed

text \<open>The operands, the frame and the arena after a \<open>pack\<close> that had room.\<close>

lemma pack_view:
  assumes "runs s fs f (vs @ ws)" and "ex_pack (length ws) s = (Ok (), s1)"
  obtains h f1 where "runs s1 fs f1 (vs @ [v_list h])" "get_list (arena s1) h = Ok ws" "same_frame f f1"
proof -
  from assms(1) obtain f' where f': "on_frame (pop_n (length ws)) s = (Ok ws, s\<lparr>frames := fs @ [f']\<rparr>)"
    "runs (s\<lparr>frames := fs @ [f']\<rparr>) fs f' vs" "same_frame f f'" by (rule pop_n_view)
  let ?s = "s\<lparr>frames := fs @ [f']\<rparr>"
  obtain r a where al: "alloc_list ws (arena s) = (r, a)" by fastforce
  with assms(2) f'(1) obtain h where r: "r = Ok h"
    by (cases r) (auto simp: ex_pack_def on_arena_def)
  have rest: "push_val (v_list h) (?s\<lparr>arena := a\<rparr>) = (Ok (), s1)"
    using assms(2) f'(1) al r by (simp add: ex_pack_def on_arena_def)
  have run: "runs (?s\<lparr>arena := a\<rparr>) fs f' vs" using f'(2) by (simp add: runs_def)
  have room: "length vs < unat (maxstack f')"
  proof (rule ccontr)
    assume "\<not> length vs < unat (maxstack f')"
    then have "push (v_list h) f' = (fail MaxstackExceeded, f')"
      using run by (simp add: runs_def push_def length_operands [symmetric])
    with rest run show False by (simp add: push_val_def runs_def fail_def)
  qed
  from run room obtain f1 where
    f1: "push_val (v_list h) (?s\<lparr>arena := a\<rparr>) = (Ok (), ?s\<lparr>arena := a, frames := fs @ [f1]\<rparr>)"
    "runs (?s\<lparr>arena := a, frames := fs @ [f1]\<rparr>) fs f1 (vs @ [v_list h])" "same_frame f' f1"
    by (rule push_view)
  have s1: "s1 = ?s\<lparr>arena := a, frames := fs @ [f1]\<rparr>" using rest f1(1) by simp
  have "runs s1 fs f1 (vs @ [v_list h])" using f1(2) by (simp add: s1)
  moreover have "get_list (arena s1) h = Ok ws"
    using get_list_alloc_list al r by (simp add: s1)
  ultimately show ?thesis using that f'(3) f1(3) by (blast intro: same_frame_trans)
qed

lemma unpack_view:
  assumes "runs s fs f (vs @ [v_list h])" and "get_list (arena s) h = Ok ws"
    and "length vs + length ws \<le> unat (maxstack f)"
  shows "\<exists>s'. ex_unpack s = (Ok (), s') \<and> became s fs f (vs @ ws) 0 s'"
proof -
  from assms(1) obtain f1 where f1: "on_frame pop s = (Ok (v_list h), s\<lparr>frames := fs @ [f1]\<rparr>)"
    "runs (s\<lparr>frames := fs @ [f1]\<rparr>) fs f1 vs" "same_frame f f1" by (rule pop_view)
  have "length vs + length ws \<le> unat (maxstack f1)"
    using assms(3) f1(3) by (simp add: same_frame_maxstack)
  from push_all_view [OF f1(2) this] obtain f2 where
    f2: "on_frame (push_all ws) (s\<lparr>frames := fs @ [f1]\<rparr>) = (Ok (), s\<lparr>frames := fs @ [f2]\<rparr>)"
    "runs (s\<lparr>frames := fs @ [f2]\<rparr>) fs f2 (vs @ ws)" "same_frame f1 f2" by auto
  have "same_frame f f2" using f1(3) f2(3) by (rule same_frame_trans)
  with f1 f2 assms(2) show ?thesis
    by (auto simp: ex_unpack_def slift_def read_arena_def runs_def intro: becameI)
qed

lemma pack_unpack:
  assumes "runs s fs f (vs @ ws)" and "ex_pack (length ws) s = (Ok (), s1)"
  shows "\<exists>f1 s2. ex_unpack s1 = (Ok (), s2) \<and> same_frame f f1 \<and> became s1 fs f1 (vs @ ws) 0 s2"
proof -
  from assms obtain h f1 where p: "runs s1 fs f1 (vs @ [v_list h])" "get_list (arena s1) h = Ok ws"
    "same_frame f f1" by (rule pack_view)
  have "length vs + length ws \<le> unat (maxstack f1)"
    using runs_room [OF assms(1)] p(3) by (simp add: same_frame_maxstack)
  with unpack_view [OF p(1,2)] p(3) show ?thesis by blast
qed

lemma calltool_traps:
  assumes "runs s fs f (vs @ [v_list h])" and "get_list (arena s) h = Ok args"
  shows "\<exists>f'. ex_calltool b s = (Ok False, s\<lparr>frames := fs @ [f'], next_effect := next_effect s + 1,
     pending := Some (TrapEffect (EffectId (next_effect s)) b args)\<rparr>) \<and> frame_wf f' \<and> same_frame f f' \<and>
     operands f' = vs @ [v_pending (EffectId (next_effect s))]"
proof -
  from assms(1) obtain f1 where f1: "on_frame pop s = (Ok (v_list h), s\<lparr>frames := fs @ [f1]\<rparr>)"
    "runs (s\<lparr>frames := fs @ [f1]\<rparr>) fs f1 vs" "same_frame f f1" by (rule pop_view)
  let ?t = "s\<lparr>frames := fs @ [f1], next_effect := next_effect s + 1,
     pending := Some (TrapEffect (EffectId (next_effect s)) b args)\<rparr>"
  have run: "runs ?t fs f1 vs" using f1(2) by (simp add: runs_def)
  have "length vs < unat (maxstack f1)"
    using runs_room [OF assms(1)] f1(3) by (simp add: same_frame_maxstack)
  from push_view [OF run this] obtain f2 where
    f2: "push_val (v_pending (EffectId (next_effect s))) ?t = (Ok (), ?t\<lparr>frames := fs @ [f2]\<rparr>)"
    "runs (?t\<lparr>frames := fs @ [f2]\<rparr>) fs f2 (vs @ [v_pending (EffectId (next_effect s))])"
    "same_frame f1 f2" by metis
  have "same_frame f f2" using f1(3) f2(3) by (rule same_frame_trans)
  with f1 f2 assms(2) show ?thesis
    by (auto simp: ex_calltool_def slift_def read_arena_def sget_def sthen_def smod_def sbind_def
        sret_def runs_def intro!: exI [of _ f2])
qed

section \<open>Search\<close>

lemma find_upt_first:
  "(case List.find P [0..<n] of None \<Rightarrow> \<forall>i<n. \<not> P i | Some i \<Rightarrow> i < n \<and> P i \<and> (\<forall>j<i. \<not> P j))"
proof (cases "List.find P [0..<n]")
  case None
  then have "\<forall>i<n. \<not> P i" by (simp add: find_None_iff)
  with None show ?thesis by simp
next
  case (Some i)
  then have "i < n \<and> P i \<and> (\<forall>j<i. \<not> P j)" by (auto simp: find_Some_iff)
  with Some show ?thesis by simp
qed

text \<open>An occurrence of the needle that begins at \<open>i\<close>.\<close>

definition occurs_at :: "bytes \<Rightarrow> bytes \<Rightarrow> nat \<Rightarrow> bool" where
  "occurs_at needle hay i \<longleftrightarrow> (\<exists>pre post. hay = pre @ needle @ post \<and> length pre = i)"

lemma occurs_at_iff:
  "occurs_at needle hay i \<longleftrightarrow> i < Suc (length hay) - length needle \<and> take (length needle) (drop i hay) = needle"
proof
  assume "occurs_at needle hay i"
  then show "i < Suc (length hay) - length needle \<and> take (length needle) (drop i hay) = needle"
    by (auto simp: occurs_at_def)
next
  assume r: "i < Suc (length hay) - length needle \<and> take (length needle) (drop i hay) = needle"
  then have "hay = take i hay @ needle @ drop (length needle) (drop i hay)"
    by (metis append_take_drop_id)
  moreover from r have "i \<le> length hay" by linarith
  then have "length (take i hay) = i" by simp
  ultimately show "occurs_at needle hay i" unfolding occurs_at_def by blast
qed

lemma window_pos_first:
  "(case window_pos needle hay of None \<Rightarrow> \<forall>i. \<not> occurs_at needle hay i
    | Some i \<Rightarrow> occurs_at needle hay i \<and> (\<forall>j<i. \<not> occurs_at needle hay j))"
  using find_upt_first [where P = "\<lambda>i. take (length needle) (drop i hay) = needle"
      and n = "Suc (length hay) - length needle"]
  by (auto simp: window_pos_def occurs_at_iff split: option.splits)

lemma find_view:
  assumes "runs s fs f (vs @ [v_str hay, v_str needle])"
    and "arena_get (arena s) hay = Ok hs" and "arena_get (arena s) needle = Ok ns"
  shows "ns = [] \<Longrightarrow> fst (ex_find s) = Panic"
    and "ns \<noteq> [] \<Longrightarrow> \<exists>t. ex_find s = (Ok (), t) \<and>
      became s fs f (vs @ [v_int (case window_pos ns hs of None \<Rightarrow> -1 | Some p \<Rightarrow> of_nat p)]) 0 t"
proof -
  from assms(1) have "runs s fs f ((vs @ [v_str hay]) @ [v_str needle])" by simp
  then obtain f1 where f1: "on_frame pop s = (Ok (v_str needle), s\<lparr>frames := fs @ [f1]\<rparr>)"
    "runs (s\<lparr>frames := fs @ [f1]\<rparr>) fs f1 (vs @ [v_str hay])" "same_frame f f1" by (rule pop_view)
  from f1(2) obtain f2 where
    f2: "on_frame pop (s\<lparr>frames := fs @ [f1]\<rparr>) = (Ok (v_str hay), s\<lparr>frames := fs @ [f2]\<rparr>)"
    "runs (s\<lparr>frames := fs @ [f2]\<rparr>) fs f2 vs" "same_frame f1 f2" by (rule pop_view) simp
  let ?r = "v_int (case window_pos ns hs of None \<Rightarrow> -1 | Some p \<Rightarrow> of_nat p)"
  let ?s = "s\<lparr>frames := fs @ [f2]\<rparr>"
  have head: "ex_find s = (if ns = [] then (Panic, ?s) else push_val ?r ?s)"
    using f1(1) f2(1) assms(2,3)
    by (simp add: ex_find_def slift_def read_arena_def sbind_def spanic_def)
  then show "ns = [] \<Longrightarrow> fst (ex_find s) = Panic" by simp
  have "length vs < unat (maxstack f2)"
    using runs_room [OF assms(1)] f1(3) f2(3) by (simp add: same_frame_maxstack)
  with f2(2) obtain f3 where f3: "push_val ?r ?s = (Ok (), s\<lparr>frames := fs @ [f3]\<rparr>)"
    "runs (s\<lparr>frames := fs @ [f3]\<rparr>) fs f3 (vs @ [?r])" "same_frame f2 f3" by (rule push_view) simp
  have "same_frame f f3" using f1(3) f2(3) f3(3) by (blast intro: same_frame_trans)
  with head f3 show "ns \<noteq> [] \<Longrightarrow> \<exists>t. ex_find s = (Ok (), t) \<and> became s fs f (vs @ [?r]) 0 t"
    by (auto simp: runs_def intro: becameI)
qed

end
