(* ===== verification/CV_Control.thy ===== *)
theory CV_Control
  imports CV_Behaviour
begin

text \<open>
  Behaviour across instructions: forks, calls and returns, traps and the host's answers,
  frame-local slots, and a whole program run from its bytes.
\<close>

section \<open>Forks\<close>

fun exec_seq :: "decoded list \<Rightarrow> (vm, diag, unit) sm" where
  "exec_seq [] = sret ()"
| "exec_seq (d # ds) = sthen (exec d) (exec_seq ds)"

lemma bump_pc_rest:
  "bump_pc k s = (r, t) \<Longrightarrow> arena t = arena s \<and> staged t = staged s \<and> fork_depth t = fork_depth s"
  by (auto simp: bump_pc_def split: if_splits)

lemma exec_adv_Ok:
  assumes "exec d s = (Ok (), t)" and "exec_op (d_op d) d = adv m"
  obtains x u where "m s = (Ok x, u)" "arena t = arena u" "staged t = staged u" "fork_depth t = fork_depth u"
proof -
  obtain r u where m: "m s = (r, u)" by fastforce
  with assms have "\<exists>x. r = Ok x"
    by (cases r) (auto simp: exec_def adv_def sthen_def sbind_def sget_def)
  with m assms have "bump_pc (length (frames s) - 1) u = (Ok (), t)"
    by (auto simp: exec_def adv_def sthen_def sbind_def sget_def sret_def)
  from bump_pc_rest [OF this] m \<open>\<exists>x. r = Ok x\<close> that show ?thesis by blast
qed

lemma fork_stages:
  assumes "exec d s = (Ok (), t)" and "d_op d = OpFork"
  shows "staged t = Some (arena s)" "fork_depth t = 1" "arena t = arena s"
proof -
  from assms(2) have "exec_op (d_op d) d = adv ex_fork" by simp
  from exec_adv_Ok [OF assms(1) this] obtain x u where u: "ex_fork s = (Ok x, u)"
    "arena t = arena u" "staged t = staged u" "fork_depth t = fork_depth u" by blast
  then have p: "push_val (v_int 0) (s\<lparr>fork_depth := 1, staged := Some (arena s)\<rparr>) = (Ok x, u)"
    by (auto simp: ex_fork_def sthen_def sbind_def sget_def smod_def slift_def fail_def split: if_splits)
  then have "arena u = arena s"
    by (auto simp: push_val_def on_frame_def split: if_splits prod.splits)
  moreover from p have "same_fork (s\<lparr>fork_depth := 1, staged := Some (arena s)\<rparr>) u"
    using fork_state.f_push_int(1) [of "v_int 0", unfolded follows_def,
      THEN spec, of "s\<lparr>fork_depth := 1, staged := Some (arena s)\<rparr>"] by simp
  ultimately show "staged t = Some (arena s)" "fork_depth t = 1" "arena t = arena s"
    using u by (simp_all add: same_fork_def)
qed

lemma commit_restores:
  assumes "exec d s = (Ok (), t)" and "d_op d = OpCommit" and "staged s = Some a"
  shows "arena t = a" "staged t = None" "fork_depth t = 0"
proof -
  from assms(2) have "exec_op (d_op d) d = adv ex_commit" by simp
  from exec_adv_Ok [OF assms(1) this] obtain x u where "ex_commit s = (Ok x, u)"
    "arena t = arena u" "staged t = staged u" "fork_depth t = fork_depth u" by blast
  with assms(3) show "arena t = a" "staged t = None" "fork_depth t = 0"
    by (auto simp: ex_commit_def smod_def)
qed

lemma abort_keeps:
  assumes "exec d s = (Ok (), t)" and "d_op d = OpAbort"
  shows "arena t = arena s" "staged t = None" "fork_depth t = 0"
proof -
  from assms(2) have "exec_op (d_op d) d = adv ex_abort" by simp
  from exec_adv_Ok [OF assms(1) this] obtain x u where "ex_abort s = (Ok x, u)"
    "arena t = arena u" "staged t = staged u" "fork_depth t = fork_depth u" by blast
  then show "arena t = arena s" "staged t = None" "fork_depth t = 0"
    by (auto simp: ex_abort_def smod_def)
qed

lemma exec_seq_staged:
  "exec_seq ds s = (Ok (), t) \<Longrightarrow> list_all (\<lambda>d. d_op d \<notin> {OpFork, OpCommit, OpAbort}) ds \<Longrightarrow>
     staged t = staged s"
proof (induction ds arbitrary: s)
  case (Cons d ds)
  from Cons.prems(1) obtain u where u: "exec d s = (Ok (), u)" "exec_seq ds u = (Ok (), t)"
    by (auto simp: sthen_def sbind_def split: prod.splits res.splits)
  have "same_fork s u" using fork_state.exec_related [of d s] Cons.prems(2) u(1) by simp
  moreover have "staged t = staged u" using Cons.IH [OF u(2)] Cons.prems(2) by simp
  ultimately show ?case by (simp add: same_fork_def)
qed (simp add: sret_def)

lemma exec_seq_append: "exec_seq (ds @ es) s = sthen (exec_seq ds) (exec_seq es) s"
proof (induction ds arbitrary: s)
  case (Cons d ds)
  show ?case
    by (cases "exec d s"; cases "fst (exec d s)") (simp_all add: sthen_def sbind_def Cons [unfolded sthen_def sbind_def])
qed (simp add: sthen_def sbind_def sret_def)

lemma fork_then_commit:
  assumes "d_op df = OpFork" and "d_op dc = OpCommit"
    and "list_all (\<lambda>d. d_op d \<notin> {OpFork, OpCommit, OpAbort}) ds"
    and "exec_seq (df # ds @ [dc]) s = (Ok (), t)"
  shows "arena t = arena s \<and> staged t = None \<and> fork_depth t = 0"
proof -
  from assms(4) obtain s1 s2 where s1: "exec df s = (Ok (), s1)" and s2: "exec_seq ds s1 = (Ok (), s2)"
    and t: "exec dc s2 = (Ok (), t)"
    by (auto simp: exec_seq_append sthen_def sbind_def sret_def split: prod.splits res.splits)
  have "staged s2 = Some (arena s)"
    using exec_seq_staged [OF s2 assms(3)] fork_stages(1) [OF s1 assms(1)] by simp
  from commit_restores [OF t assms(2) this] show ?thesis by blast
qed

lemma exec_seq_grows:
  "exec_seq ds s = (Ok (), t) \<Longrightarrow> list_all (\<lambda>d. d_op d \<noteq> OpCommit) ds \<Longrightarrow> arena_grows s t"
proof (induction ds arbitrary: s)
  case (Cons d ds)
  from Cons.prems(1) obtain u where u: "exec d s = (Ok (), u)" "exec_seq ds u = (Ok (), t)"
    by (auto simp: sthen_def sbind_def split: prod.splits res.splits)
  have "arena_grows s u" using exec_arena_grows [of d s] Cons.prems(2) u(1) by simp
  moreover have "arena_grows u t" using Cons.IH [OF u(2)] Cons.prems(2) by simp
  ultimately show ?case by (rule growth.trans)
qed (simp add: sret_def growth.refl)

lemma fork_then_abort:
  assumes "d_op df = OpFork" and "d_op da = OpAbort" and "list_all (\<lambda>d. d_op d \<noteq> OpCommit) ds"
    and "exec_seq (df # ds) s = (Ok (), u)" and "exec da u = (Ok (), t)"
  shows "arena t = arena u \<and> arena_grows s t \<and> staged t = None \<and> fork_depth t = 0"
proof -
  have "arena_grows s u" using exec_seq_grows [OF assms(4)] assms(1,3) by simp
  with abort_keeps [OF assms(5,2)] show ?thesis by (simp add: arena_grows_def)
qed

section \<open>Calls and returns\<close>

lemma call_frames:
  assumes "exec d s = (Ok (), t)" and "d_op d = OpCall" and "frames s = fs @ [f]" and "frame_wf f"
  shows "\<exists>f1 g. frames t = fs @ [f1, g] \<and> same_frame f f1 \<and> frame_wf f1 \<and>
     func g = d_b d \<and> pc g = 0 \<and> vm_image t = vm_image s"
proof -
  from assms(1,2) obtain a u where c: "ex_call (d_b d) s = (Ok a, u)"
    by (cases "ex_call (d_b d) s"; cases "fst (ex_call (d_b d) s)")
      (auto simp: exec_def sbind_def sget_def)
  show ?thesis
  proof (cases "nth_get (img_funcs (vm_image s)) (unat (d_b d))")
    case None
    with c show ?thesis by (simp add: ex_call_def target_of_def)
  next
    case (Some m)
    from assms(4) show ?thesis
    proof (cases rule: pop_n_cases [of f "unat (fm_args m)"])
      case short
      with c Some assms(3) show ?thesis by (simp add: ex_call_def target_of_def fail_def sbind_def)
    next
      case (enough vs f')
      with c Some assms(3) have "a = False"
        "u = s\<lparr>frames := (fs @ [f']) @ [frame_new (d_b d) vs 0 (fm_maxstack m) (fm_returns m)]\<rparr>"
        by (auto simp: ex_call_def target_of_def sbind_def sget_def slift_def fail_def sthen_def
            smod_def sret_def split: if_splits)
      moreover from this c assms(1,2) have "t = u"
        by (simp add: exec_def sbind_def sget_def sret_def)
      ultimately show ?thesis using enough by (auto simp: frame_new_facts)
    qed
  qed
qed

lemma ret_frames:
  assumes "exec d s = (Ok (), t)" and "d_op d = OpRet" and "frames s = fs @ [f, g]"
    and "frame_wf f" and "frame_wf g"
  shows "\<exists>f2. frames t = fs @ [f2] \<and> same_frame f f2 \<and> frame_wf f2 \<and> vm_image t = vm_image s"
proof -
  from assms(1,2) obtain a u where c: "ex_ret s = (Ok a, u)"
    by (cases "ex_ret s"; cases "fst (ex_ret s)") (auto simp: exec_def sbind_def sget_def)
  have fr: "frames s = (fs @ [f]) @ [g]" using assms(3) by simp
  from assms(5) show ?thesis
  proof (cases rule: pop_n_cases [of g "unat (returns g)"])
    case short
    with c fr show ?thesis by (simp add: ex_ret_def frame_returns_def sget_def fail_def sbind_def)
  next
    case (enough vs g')
    obtain r f2 where p: "push_all vs f = (r, f2)" by fastforce
    with push_all_keeps [OF assms(4) p] have f2: "frame_wf f2" "same_frame f f2" by auto
    from c fr enough p have "r = Ok ()" "a = False" "u = s\<lparr>frames := fs @ [f2]\<rparr>"
      by (cases r; auto simp: butlast_append ex_ret_def frame_returns_def sbind_def sget_def sthen_def
          smod_def sret_def)+
    moreover from this c assms(1,2) have "t = u" by (simp add: exec_def sbind_def sget_def sret_def)
    ultimately show ?thesis using f2 by auto
  qed
qed

lemma fetch_same:
  assumes "frames s = fs @ [f]" and "frames t = fs @ [g]" and "same_frame f g" and "vm_image t = vm_image s"
  shows "fetch t = fetch s"
  using assms by (simp add: fetch_def same_frame_def split: option.split)

lemma fetch_steps [simp]: "fetch (s\<lparr>steps := k\<rparr>) = fetch s"
  by (simp add: fetch_def Let_def split: option.split)

lemma call_ret_fetch:
  assumes "frames s = fs @ [f]" and "frame_wf f" and "fetch s = Ok d" and "d_op d = OpCall"
    and "exec d s = (Ok (), s1)"
    and "frames s2 = butlast (frames s1) @ [g]" and "vm_image s2 = vm_image s1" and "frame_wf g"
    and "d_op d' = OpRet" and "exec d' s2 = (Ok (), s3)"
  shows "fetch s3 = Ok d \<and> length (frames s3) = length (frames s)"
proof -
  from call_frames [OF assms(5,4,1,2)] obtain f1 h where f1: "frames s1 = fs @ [f1, h]"
    "same_frame f f1" "frame_wf f1" "vm_image s1 = vm_image s" by blast
  then have "frames s2 = fs @ [f1, g]" using assms(6) by (simp add: butlast_append)
  from ret_frames [OF assms(10,9) this f1(3) assms(8)] obtain f2 where f2: "frames s3 = fs @ [f2]"
    "same_frame f1 f2" "vm_image s3 = vm_image s2" by blast
  have "same_frame f f2" using f1(2) f2(2) by (rule same_frame_trans)
  with fetch_same [OF assms(1) f2(1) this] f1(4) f2 assms(1,3,7) show ?thesis by simp
qed

section \<open>Frame-local slots\<close>

lemma local_slots_absent:
  assumes "vm_live s" and "d_op d \<in> {OpLdl, OpStl}"
  shows "fst (exec d s) = fail StackUnderflow"
proof -
  from assms(1) obtain fs f where f: "frames s = fs @ [f]" "frame_wf f" "locals f = []"
    by (cases "frames s" rule: rev_cases) (auto simp: vm_live_def vm_wf_def frame_ok_def)
  have ldl: "ex_ldl i s = (fail StackUnderflow, s\<lparr>frames := fs @ [f]\<rparr>)" for i
    using f by (simp add: ex_ldl_def load_local_eq fail_def)
  have stl: "fst (ex_stl i s) = fail StackUnderflow" for i
    using f(2)
  proof (cases rule: pop_cases)
    case empty
    with f show ?thesis by (simp add: ex_stl_def fail_def)
  next
    case (top v f')
    then have "locals f' = []" using f(3) by (simp add: same_frame_def)
    with top(2) have "fst (store_local i v f') = fail StackUnderflow"
      by (cases rule: store_local_cases [of f' i v]) auto
    with top f show ?thesis by (simp add: ex_stl_def)
  qed
  show ?thesis
    using assms(2) ldl [of "unat (d_b d)"] stl [of "unat (d_b d)"]
      exec_adv_Err [of d "ex_ldl (unat (d_b d))" s] exec_adv_Err [of d "ex_stl (unat (d_b d))" s]
    by (cases "ex_stl (unat (d_b d)) s") (auto simp: fail_def)
qed

section \<open>Traps and answers\<close>

text \<open>The trap with which an instruction asks for the host and does nothing else.\<close>

fun asks :: "op \<Rightarrow> trap option" where
  "asks OpAwait = Some TrapYield"
| "asks OpPoll = Some TrapYield"
| "asks OpCancel = Some TrapYield"
| "asks OpSelect = Some TrapYield"
| "asks OpJoin = Some TrapYield"
| "asks OpCheckpoint = Some TrapYield"
| "asks OpYieldCtx = Some TrapYield"
| "asks OpNow = Some (TrapOracle OpNow)"
| "asks OpRand = Some (TrapOracle OpRand)"
| "asks OpEnv = Some (TrapOracle OpEnv)"
| "asks OpLog = Some (TrapOracle OpLog)"
| "asks _ = None"

lemma asks_raise: "asks x = Some t \<Longrightarrow> exec_op x d = raise_trap t"
  by (cases x) simp_all

text \<open>A machine at such an instruction, with steps left.\<close>

definition asking :: "vm \<Rightarrow> frame list \<Rightarrow> frame \<Rightarrow> trap \<Rightarrow> nat \<Rightarrow> bool" where
  "asking s fs f t n \<longleftrightarrow> pending s = None \<and> halt s = None \<and> frames s = fs @ [f] \<and> frame_wf f \<and>
     (\<exists>d. fetch s = Ok d \<and> asks (d_op d) = Some t) \<and>
     unat (steps s) + n \<le> unat (max_steps (limits s))"

lemma asking_runs:
  assumes "asking s fs f t (Suc n)"
  shows "run_loop s = Some (Ok (StepTrap t), s\<lparr>steps := steps s + 1\<rparr>)"
proof -
  let ?s1 = "s\<lparr>steps := steps s + 1\<rparr>"
  from assms obtain d where d: "fetch s = Ok d" "asks (d_op d) = Some t"
    and s: "pending s = None" "halt s = None" "frames s = fs @ [f]"
    and le: "unat (steps s) + Suc n \<le> unat (max_steps (limits s))" by (auto simp: asking_def)
  have "unat (steps s + 1) = unat (steps s) + 1"
    using le unat_bound [of "max_steps (limits s)"] by (simp add: unat_word_ariths)
  with le have "\<not> max_steps (limits s) < steps s + 1" by (simp add: word_less_nat_alt)
  moreover have "fetch ?s1 = Ok d" using d(1) by simp
  moreover have "exec d ?s1 = (Ok (), ?s1\<lparr>pending := Some t\<rparr>)"
    using asks_raise [OF d(2)]
    by (simp add: exec_def raise_trap_def sbind_def sget_def sthen_def smod_def sret_def)
  ultimately have t1: "tick s = (Ok None, ?s1\<lparr>pending := Some t\<rparr>)"
    using s by (simp add: tick_def slift_def sthen_def sret_def sbind_def)
  have eta: "?s1\<lparr>pending := None\<rparr> = ?s1" using s by simp
  have t2: "tick (?s1\<lparr>pending := Some t\<rparr>) = (Ok (Some (StepTrap t)), ?s1)"
    using eta by (simp add: tick_def)
  show ?thesis
    by (subst run_loop.simps, simp only: t1 prod.case res.case option.case)
      (subst run_loop.simps, simp only: t2 prod.case res.case option.case)
qed

lemma asking_answered:
  assumes "asking s fs f t (Suc (Suc n))"
  shows "\<exists>s1. vm_step None s = Some (Ok (StepTrap t), s1) \<and>
     (if length (operands f) < unat (maxstack f)
      then \<exists>s2 f2. vm_step (Some (AnsValue v)) s1 = Some (Ok (StepTrap t), s2) \<and>
        frames s2 = fs @ [f2] \<and> operands f2 = operands f @ [v] \<and> pc f2 = pc f
      else vm_step (Some (AnsValue v)) s1 = Some (fail MaxstackExceeded, s1))"
proof -
  let ?s1 = "s\<lparr>steps := steps s + 1\<rparr>"
  have first: "vm_step None s = Some (Ok (StepTrap t), ?s1)"
    using asking_runs [OF assms] by (simp add: vm_step_def)
  have f: "runs ?s1 fs f (operands f)" using assms by (simp add: runs_def asking_def)
  show ?thesis
  proof (cases "length (operands f) < unat (maxstack f)")
    case True
    from push_view [OF f this, of v] obtain f2 where
      p: "push_val v ?s1 = (Ok (), ?s1\<lparr>frames := fs @ [f2]\<rparr>)"
      and f2: "runs (?s1\<lparr>frames := fs @ [f2]\<rparr>) fs f2 (operands f @ [v])" "same_frame f f2" by blast
    let ?s2 = "?s1\<lparr>frames := fs @ [f2]\<rparr>"
    have "unat (steps s + 1) = unat (steps s) + 1"
      using assms unat_bound [of "max_steps (limits s)"] by (auto simp: asking_def unat_word_ariths)
    moreover have "fetch ?s2 = fetch s"
      using assms f2(2) by (intro fetch_same [of s fs f]) (auto simp: asking_def)
    ultimately have "asking ?s2 fs f2 t (Suc n)"
      using assms f2(1) by (auto simp: asking_def runs_def)
    from asking_runs [OF this] p have
      "vm_step (Some (AnsValue v)) ?s1 = Some (Ok (StepTrap t), ?s2\<lparr>steps := steps ?s2 + 1\<rparr>)"
      by (simp add: vm_step_def push_val_def)
    with True first f2 show ?thesis by (auto simp: runs_def same_frame_def)
  next
    case False
    have "push v f = (fail MaxstackExceeded, f)"
      using False length_operands [of f] f by (simp add: push_def runs_def)
    with f have "vm_step (Some (AnsValue v)) ?s1 = Some (fail MaxstackExceeded, ?s1)"
      by (simp add: vm_step_def push_val_def runs_def fail_def)
    with False first show ?thesis by auto
  qed
qed

end
