(* ===== verification/CV_Programs.thy ===== *)
theory CV_Programs
  imports CV_Control
begin

text \<open>
  A whole program run from its bytes: instructions encoded by \<open>encode\<close> are fetched back by the
  loop, and the program of the test \<open>arithmetic_program_halts_with_sum\<close> of
  \<open>src/src/interp.rs\<close>, over any two sixteen-bit immediates, halts with their sum.
\<close>

section \<open>A whole program\<close>

definition assemble_ops :: "(op \<times> u8 \<times> u32) list \<Rightarrow> bytes" where
  "assemble_ops xs = concat (map (\<lambda>(x, a, b). fst (encode [] x a b)) xs)"

definition sum_image :: "u16 \<Rightarrow> u16 \<Rightarrow> image" where
  "sum_image m n =
     \<lparr>img_constants = [],
      img_funcs = [\<lparr>fm_name = ascii ''main'', fm_code_off = 0, fm_code_len = 16, fm_maxstack = 2,
                    fm_args = 0, fm_returns = 1\<rparr>],
      img_tools = [],
      img_code = assemble_ops [(OpLdi, 0, ucast m), (OpLdi, 0, ucast n), (OpAdd, 0, 0), (OpHalt, 0, 0)],
      img_jump_tables = []\<rparr>"

lemma encode_appends: "fst (encode out x a b) = out @ fst (encode [] x a b)"
  by (simp add: encode_def Let_def)

lemma length_encode: "\<not> 0xFFFF < b \<Longrightarrow> length (fst (encode [] x a b)) = 4"
  by (simp add: encode_def)

lemma length_assemble: "list_all (\<lambda>(x, a, b). \<not> 0xFFFF < b) xs \<Longrightarrow> length (assemble_ops xs) = 4 * length xs"
  by (induction xs) (auto simp: assemble_ops_def length_encode)

lemma decode_assembled:
  assumes "list_all (\<lambda>(x, a, b). \<not> 0xFFFF < b) xs" and "i < length xs" and "xs ! i = (x, a, b)"
  shows "decode (assemble_ops xs) (4 * i) = Some \<lparr>d_op = x, d_a = a, d_b = b, d_len = 4\<rparr>"
proof -
  let ?pre = "take i xs" and ?post = "drop (Suc i) xs"
  have xs: "xs = ?pre @ (x, a, b) # ?post"
    using assms(2,3) by (metis id_take_nth_drop)
  have "list_all (\<lambda>(x, a, b). \<not> 0xFFFF < b) ?pre"
    using assms(1) by (auto simp: list_all_iff dest: in_set_takeD)
  from length_assemble [OF this] have len: "length (assemble_ops ?pre) = 4 * i"
    using assms(2) by simp
  have "assemble_ops xs = fst (encode (assemble_ops ?pre) x a b) @ assemble_ops ?post"
    by (subst xs, subst encode_appends) (simp add: assemble_ops_def)
  moreover have "\<not> 0xFFFF < b" using assms by (auto simp: list_all_length)
  ultimately show ?thesis
    using decode_encode [of "assemble_ops ?pre" x a b "assemble_ops ?post"]
    by (simp add: len encoded_len_def)
qed

lemma ucast_narrow: "\<not> (0xFFFF :: u32) < ucast (m :: u16)"
  using unat_bound [of m]
  by (simp add: word_less_nat_alt unsigned_ucast_eq unsigned_take_bit_eq take_bit_nat_eq_self)

lemma sum_fetch:
  assumes "i < 4"
  shows "decode (img_code (sum_image m n)) (4 * i) = Some (
     [\<lparr>d_op = OpLdi, d_a = 0, d_b = ucast m, d_len = 4\<rparr>, \<lparr>d_op = OpLdi, d_a = 0, d_b = ucast n, d_len = 4\<rparr>,
      \<lparr>d_op = OpAdd, d_a = 0, d_b = 0, d_len = 4\<rparr>, \<lparr>d_op = OpHalt, d_a = 0, d_b = 0, d_len = 4\<rparr>] ! i)"
proof -
  let ?xs = "[(OpLdi, 0, ucast m), (OpLdi, 0, ucast n), (OpAdd, 0, 0), (OpHalt, 0, 0)] :: (op \<times> u8 \<times> u32) list"
  have ok: "list_all (\<lambda>(x, a, b). \<not> 0xFFFF < b) ?xs" by (simp add: ucast_narrow)
  have "i \<in> {0, 1, 2, 3}" using assms by auto
  then show ?thesis
    using decode_assembled [OF ok, of 0] decode_assembled [OF ok, of 1] decode_assembled [OF ok, of 2]
      decode_assembled [OF ok, of 3]
    by (auto simp: sum_image_def)
qed

lemma run_loop_tick: "tick s = (Ok None, t) \<Longrightarrow> run_loop s = run_loop t"
  by (subst run_loop.simps) simp

lemma run_loop_stop: "tick s = (Ok (Some x), t) \<Longrightarrow> run_loop s = Some (Ok x, t)"
  by (subst run_loop.simps) simp

text \<open>The machine is about to run instruction \<open>k\<close> of its only function, \<open>k\<close> steps into the run.\<close>

definition at_insn :: "image \<Rightarrow> limits \<Rightarrow> vm \<Rightarrow> nat \<Rightarrow> val list \<Rightarrow> bool" where
  "at_insn im lim s k vs \<longleftrightarrow> (\<exists>f. runs s [] f vs \<and> func f = 0 \<and> pc f = of_nat k \<and> maxstack f = 2) \<and>
     vm_image s = im \<and> limits s = lim \<and> steps s = of_nat k \<and> pending s = None \<and> halt s = None"

lemma at_insn_tick:
  assumes "at_insn im lim s k vs" and "k < 4" and "4 \<le> max_steps lim"
    and "img_funcs im = [m]" and "fm_code_off m = 0" and "decode (img_code im) (4 * k) = Some d"
    and "exec d (s\<lparr>steps := steps s + 1\<rparr>) = (Ok (), t)"
  shows "tick s = (Ok None, t)"
proof -
  from assms(1) obtain f where f: "frames s = [f]" "func f = 0" "pc f = of_nat k"
    and s: "vm_image s = im" "limits s = lim" "steps s = of_nat k" "pending s = None" "halt s = None"
    by (auto simp: at_insn_def runs_def)
  have "unat (of_nat k :: u32) = k" using assms(2) by (simp add: unat_of_nat)
  then have "fetch s = Ok d"
    using f s assms(4-6) by (simp add: fetch_def nth_get_def INSN_LEN_def mult.commute)
  moreover have "\<not> max_steps lim < of_nat k + 1"
  proof -
    have "unat (of_nat k + 1 :: u64) = k + 1" using assms(2) by (simp add: unat_word_ariths unat_of_nat)
    then show ?thesis using assms(2,3) by (simp add: word_less_nat_alt word_le_nat_alt)
  qed
  ultimately show ?thesis
    using f s assms(7) by (simp add: tick_def slift_def sbind_def sthen_def sret_def)
qed

lemma at_insn_next:
  assumes "at_insn im lim s k vs" and "k < 4" and "4 \<le> max_steps lim"
    and "img_funcs im = [m]" and "fm_code_off m = 0" and "decode (img_code im) (4 * k) = Some d"
    and "\<And>s f. runs s [] f vs \<Longrightarrow> maxstack f = 2 \<Longrightarrow> \<exists>t. exec d s = (Ok (), t) \<and> became s [] f ws 1 t"
  shows "\<exists>t. tick s = (Ok None, t) \<and> at_insn im lim t (Suc k) ws"
proof -
  let ?s = "s\<lparr>steps := steps s + 1\<rparr>"
  from assms(1) obtain f where f: "runs s [] f vs" "func f = 0" "pc f = of_nat k" "maxstack f = 2"
    and s: "vm_image s = im" "limits s = lim" "steps s = of_nat k" "pending s = None" "halt s = None"
    by (auto simp: at_insn_def)
  from f(1) have "runs ?s [] f vs" by (simp add: runs_def)
  from assms(7) [OF this f(4)] obtain t where t: "exec d ?s = (Ok (), t)" "became ?s [] f ws 1 t" by blast
  from t(2) f s have "at_insn im lim t (Suc k) ws"
    by (auto simp: at_insn_def became_def runs_def)
  with at_insn_tick [OF assms(1-6) t(1)] show ?thesis by blast
qed

lemma ldi_became:
  assumes "d_op d = OpLdi" and "runs s fs f vs" and "length vs < unat (maxstack f)"
  shows "\<exists>t. exec d s = (Ok (), t) \<and> became s fs f (vs @ [v_int (imm d)]) 1 t"
proof -
  from assms(2,3) obtain f' where "push_val (v_int (imm d)) s = (Ok (), s\<lparr>frames := fs @ [f']\<rparr>)"
    "runs (s\<lparr>frames := fs @ [f']\<rparr>) fs f' (vs @ [v_int (imm d)])" "same_frame f f'" by (rule push_view)
  with assms(1,2) show ?thesis
    by (intro exec_became [where m = "push_val (v_int (imm d))"]) (auto simp: runs_def intro: becameI)
qed

lemma halt_runs:
  assumes "at_insn im lim s k (vs @ [v_int n])" and "k < 4" and "4 \<le> max_steps lim"
    and "img_funcs im = [m]" and "fm_code_off m = 0"
    and "decode (img_code im) (4 * k) = Some d" and "d_op d = OpHalt"
  shows "\<exists>t. run_loop s = Some (Ok (Halted n), t) \<and> frames t = []"
proof -
  let ?s = "s\<lparr>steps := steps s + 1\<rparr>"
  from assms(1) obtain f where run: "runs ?s [] f (vs @ [v_int n])" and p: "pending s = None"
    by (auto simp: at_insn_def runs_def)
  from run obtain f' where "on_frame pop ?s = (Ok (v_int n), ?s\<lparr>frames := [] @ [f']\<rparr>)" by (rule pop_view)
  then have "exec d ?s = (Ok (), ?s\<lparr>frames := [], halt := Some n\<rparr>)"
    using assms(7) by (simp add: exec_def ex_halt_def exit_code_def sbind_def sget_def sret_def)
  from at_insn_tick [OF assms(1-6) this] have
    "run_loop s = run_loop (?s\<lparr>frames := [], halt := Some n\<rparr>)" by (rule run_loop_tick)
  moreover have "tick (?s\<lparr>frames := [], halt := Some n\<rparr>) =
      (Ok (Some (Halted n)), ?s\<lparr>frames := [], halt := None\<rparr>)"
    using p by (simp add: tick_def)
  ultimately show ?thesis using run_loop_stop by fastforce
qed

lemma sum_program_runs:
  assumes "4 \<le> max_steps lim"
  shows "\<exists>s t. vm_new (sum_image m n) lim = Ok s \<and>
     vm_step None s = Some (Ok (Halted (scast m + scast n)), t) \<and> frames t = []"
proof -
  let ?im = "sum_image m n"
  obtain fm where fm: "img_funcs ?im = [fm]" "fm_code_off fm = 0" "fm_maxstack fm = 2"
    "fm_name fm = ascii ''main''" by (simp add: sum_image_def)
  then obtain s where s: "vm_new ?im lim = Ok s" and at: "at_insn ?im lim s 0 []"
    by (simp add: vm_new_def nth_get_def at_insn_def runs_def frame_new_facts)
  have imm: "imm \<lparr>d_op = OpLdi, d_a = 0, d_b = ucast k, d_len = 4\<rparr> = scast (k :: u16)" for k
  proof -
    have "(ucast (ucast k :: u32) :: u16) = k" by (rule bit_word_eqI) (auto simp: bit_simps)
    then show ?thesis by (simp add: imm_def)
  qed
  let ?ldi = "\<lambda>k. \<lparr>d_op = OpLdi, d_a = 0, d_b = ucast (k :: u16), d_len = 4\<rparr>"
  let ?nul = "\<lambda>x. \<lparr>d_op = x, d_a = 0, d_b = 0, d_len = 4\<rparr>"
  have code: "decode (img_code ?im) (4 * 0) = Some (?ldi m)" "decode (img_code ?im) (4 * 1) = Some (?ldi n)"
    "decode (img_code ?im) (4 * 2) = Some (?nul OpAdd)" "decode (img_code ?im) (4 * 3) = Some (?nul OpHalt)"
    using sum_fetch [of 0 m n] sum_fetch [of 1 m n] sum_fetch [of 2 m n] sum_fetch [of 3 m n] by simp_all
  have ldi: "\<exists>t. exec (?ldi k) s = (Ok (), t) \<and> became s [] f (vs @ [v_int (scast k)]) 1 t"
    if "runs s [] f vs" "maxstack f = 2" "length vs < 2" for k s f vs
    using ldi_became [of "?ldi k", OF _ that(1)] that(2,3) by (simp add: imm)
  have add: "\<exists>t. exec (?nul OpAdd) s = (Ok (), t) \<and> became s [] f [v_int (a + b)] 1 t"
    if "runs s [] f [v_int a, v_int b]" for a b s f
    using exec_int_arith [of "?nul OpAdd" "(+)" s "[]" f "[]" a b] that by simp
  from at_insn_next [OF at _ assms fm(1,2) code(1), of "[v_int (scast m)]"] ldi [of _ _ "[]" m]
  obtain s1 where s1: "tick s = (Ok None, s1)" "at_insn ?im lim s1 1 [v_int (scast m)]" by auto
  from at_insn_next [OF s1(2) _ assms fm(1,2) code(2), of "[v_int (scast m), v_int (scast n)]"]
    ldi [of _ _ "[v_int (scast m)]" n]
  obtain s2 where s2: "tick s1 = (Ok None, s2)" "at_insn ?im lim s2 2 [v_int (scast m), v_int (scast n)]"
    by (auto simp: numeral_2_eq_2)
  from at_insn_next [OF s2(2) _ assms fm(1,2) code(3), of "[v_int (scast m + scast n)]"] add
  obtain s3 where s3: "tick s2 = (Ok None, s3)" "at_insn ?im lim s3 3 [v_int (scast m + scast n)]"
    by (auto simp: numeral_3_eq_3)
  from halt_runs [of ?im lim s3 3 "[]", OF _ _ assms fm(1,2) code(4)] s3(2)
  obtain t where t: "run_loop s3 = Some (Ok (Halted (scast m + scast n)), t)" "frames t = []" by auto
  have "run_loop s = run_loop s3"
    using run_loop_tick [OF s1(1)] run_loop_tick [OF s2(1)] run_loop_tick [OF s3(1)] by simp
  with s t show ?thesis by (auto simp: vm_step_def)
qed

section \<open>Machines to run single instructions on\<close>

text \<open>A machine in one frame with the given operands, room for more, and arena contents.\<close>

definition demo_frame :: "val list \<Rightarrow> nat \<Rightarrow> frame" where
  "demo_frame vs k = \<lparr>func = 0, pc = 0, slots = vs @ replicate k VOID, sp = length vs,
     maxstack = of_nat (length vs + k), returns = 1\<rparr>"

definition demo_vm :: "image \<Rightarrow> bytes \<Rightarrow> val list \<Rightarrow> nat \<Rightarrow> vm" where
  "demo_vm im data vs k =
     \<lparr>vm_image = im, frames = [demo_frame vs k], arena = arena_from_bytes data,
      budget = budget_default, ctx = ctx_new 64, steps = 0, limits = limits_default,
      next_effect = 1, fork_depth = 0, staged = None, pending = None, halt = None\<rparr>"

lemma demo_maxstack: "n < 2 ^ 16 \<Longrightarrow> unat (of_nat n :: u16) = n"
  by (simp add: unat_of_nat)

lemma demo_runs:
  "length vs + k < 2 ^ 16 \<Longrightarrow> runs (demo_vm im data vs k) [] (demo_frame vs k) vs"
  using demo_maxstack [of "length vs + k"]
  by (simp add: runs_def demo_vm_def demo_frame_def frame_wf_def operands_def del: of_nat_add)

lemma demo_wf:
  assumes "length vs + k < 2 ^ 16" and "img_funcs im \<noteq> []" and "8 dvd length data" "length data \<le> u32_max"
  shows "vm_live (demo_vm im data vs k)"
  using assms demo_maxstack [of "length vs + k"]
  by (simp add: vm_live_def vm_wf_def frame_ok_def demo_vm_def demo_frame_def frame_wf_def locals_def
      arena_wf_def arena_from_bytes_def budget_default_wf ctx_new_wf del: of_nat_add)

lemma demo_sel [simp]:
  "arena (demo_vm im data vs k) = arena_from_bytes data" "vm_image (demo_vm im data vs k) = im"
  "limits (demo_vm im data vs k) = limits_default" "frames (demo_vm im data vs k) = [demo_frame vs k]"
  "pending (demo_vm im data vs k) = None" "halt (demo_vm im data vs k) = None"
  "steps (demo_vm im data vs k) = 0" "maxstack (demo_frame vs k) = of_nat (length vs + k)"
  by (simp_all add: demo_vm_def demo_frame_def)

end
