(* ===== verification/CV_Types.thy ===== *)
theory CV_Types
  imports CV_Programs
begin

text \<open>
  The types of \<open>src/src/isa.rs\<close> against the interpreter of \<open>src/src/interp.rs\<close>: for the opcodes
  in \<open>sound_ops\<close> an instruction whose operands have the types of its row finds the operands it
  pops and leaves results of the types of the row; the opcodes in \<open>plain_ops\<close> never fail.
\<close>

section \<open>Types of values\<close>

fun typed :: "val \<Rightarrow> ty \<Rightarrow> bool" where
  "typed v TyTop = True"
| "typed v TyBottom = False"
| "typed v TyHandle = is_arena (v_tag v)"
| "typed v t = (v_ty v = t)"

text \<open>A handle satisfies the three types of handles, so only these types may be asked for.\<close>

lemma typed_satisfies:
  "satisfies got want \<Longrightarrow> want \<in> {TyTop, TyInt, TyHandle} \<Longrightarrow> typed v got \<Longrightarrow> typed v want"
  by (cases got) auto

lemma typed_int: "typed v TyInt \<longleftrightarrow> (\<exists>n. v = v_int n)"
proof
  assume "typed v TyInt"
  then have "v_tag v = TagInt" by (cases "v_tag v") (simp_all add: v_ty_def)
  then have "v = v_int (v_payload v)" by (simp add: v_int_def)
  then show "\<exists>n. v = v_int n" by blast
qed (auto simp: v_ty_def)

definition plain_ops :: "op list" where
  "plain_ops = [OpNop, OpLdi, OpDup, OpDrop, OpSwap, OpRot, OpAdd, OpSub, OpMul, OpLt, OpNot, OpAnd,
     OpOr, OpShl, OpShr]"

definition sound_ops :: "op list" where
  "sound_ops = plain_ops @ [OpLdc, OpArgv, OpLen, OpDiv, OpMod, OpCommit, OpFork, OpResume, OpRelease,
     OpSpend, OpCtxPop, OpCtxCost]"

definition stack_codes :: "code list" where
  "stack_codes = [StackUnderflow, MaxstackExceeded, TagMismatch]"

section \<open>Computations on the running frame\<close>

text \<open>What the arms of these opcodes leave alone.\<close>

definition same_run :: "vm \<Rightarrow> vm \<Rightarrow> bool" where
  "same_run s t \<longleftrightarrow> vm_image t = vm_image s \<and> limits t = limits s \<and> steps t = steps s \<and>
     pending t = pending s \<and> halt t = halt s"

text \<open>From operands \<open>vs\<close> the computation does not panic; a value it returns satisfies \<open>Q\<close> with
  the operands it leaves, a code it fails with satisfies \<open>E\<close>.\<close>

definition yields ::
    "(code \<Rightarrow> bool) \<Rightarrow> frame list \<Rightarrow> frame \<Rightarrow> val list \<Rightarrow> (vm, diag, 'a) sm \<Rightarrow> ('a \<Rightarrow> val list \<Rightarrow> bool) \<Rightarrow> bool" where
  "yields E fs f vs m Q \<longleftrightarrow> (\<forall>s g. runs s fs g vs \<longrightarrow> same_frame f g \<longrightarrow>
     (case m s of
        (Ok x, t) \<Rightarrow> (\<exists>h ws. runs t fs h ws \<and> same_frame f h \<and> same_run s t \<and> Q x ws)
      | (Err e, t) \<Rightarrow> E (dcode e)
      | (Panic, t) \<Rightarrow> False))"

lemma yieldsI:
  assumes "\<And>s g. runs s fs g vs \<Longrightarrow> same_frame f g \<Longrightarrow>
     (\<exists>x t h ws. m s = (Ok x, t) \<and> runs t fs h ws \<and> same_frame g h \<and> same_run s t \<and> Q x ws) \<or>
     (\<exists>e t. m s = (Err e, t) \<and> E (dcode e))"
  shows "yields E fs f vs m Q"
  unfolding yields_def using assms by (fastforce intro: same_frame_trans)

lemma yieldsD:
  assumes "yields E fs f vs m Q" and "runs s fs g vs" and "same_frame f g"
  shows "case m s of
        (Ok x, t) \<Rightarrow> (\<exists>h ws. runs t fs h ws \<and> same_frame f h \<and> same_run s t \<and> Q x ws)
      | (Err e, t) \<Rightarrow> E (dcode e)
      | (Panic, t) \<Rightarrow> False"
  using assms(1) [unfolded yields_def, rule_format, OF assms(2,3)] .

lemma yields_bind:
  assumes "yields E fs f vs m R" and "\<And>x ws. R x ws \<Longrightarrow> yields E fs f ws (k x) Q"
  shows "yields E fs f vs (sbind m k) Q"
  unfolding yields_def
proof (intro allI impI)
  fix s g assume s: "runs s fs g vs" "same_frame f g"
  obtain r t where m: "m s = (r, t)" by fastforce
  show "case sbind m k s of (Ok x, t) \<Rightarrow> (\<exists>h ws. runs t fs h ws \<and> same_frame f h \<and> same_run s t \<and> Q x ws)
      | (Err e, t) \<Rightarrow> E (dcode e) | (Panic, t) \<Rightarrow> False"
  proof (cases r)
    case (Ok x)
    with assms(1) s m obtain h ws where h: "runs t fs h ws" "same_frame f h" "same_run s t" "R x ws"
      unfolding yields_def by fastforce
    have same: "same_run s u" if "same_run t u" for u using that h(3) by (simp add: same_run_def)
    note yieldsD [OF assms(2) [OF h(4)] h(1,2)]
    with m Ok same show ?thesis by (auto split: res.splits prod.splits) blast
  qed (use assms(1) s m in \<open>fastforce simp: yields_def\<close>)+
qed

lemma yields_then: "yields E fs f vs m (\<lambda>_ ws. ws = us) \<Longrightarrow> yields E fs f us k Q \<Longrightarrow> yields E fs f vs (sthen m k) Q"
  unfolding sthen_def by (erule yields_bind) simp

lemma same_run_refl [simp]: "same_run s s" "same_run s (s\<lparr>frames := x\<rparr>)" "same_run s (s\<lparr>arena := a\<rparr>)"
  "same_run s (s\<lparr>budget := b\<rparr>)" "same_run s (s\<lparr>ctx := c\<rparr>)"
  by (simp_all add: same_run_def)

lemma yields_ret: "Q x vs \<Longrightarrow> yields E fs f vs (sret x) Q"
  by (auto simp: yields_def sret_def)

lemma yields_get: "yields E fs f vs (sget q) (\<lambda>_ ws. ws = vs)"
  by (auto simp: yields_def sget_def)

lemma yields_lift:
  "r \<noteq> Panic \<Longrightarrow> (\<And>e. r = Err e \<Longrightarrow> E (dcode e)) \<Longrightarrow> yields E fs f vs (slift r) (\<lambda>x ws. ws = vs \<and> r = Ok x)"
  by (auto simp: yields_def slift_def split: res.splits)

lemma yields_fail: "E c \<Longrightarrow> yields E fs f vs (slift (fail c)) Q"
  by (simp add: yields_def slift_def fail_def)

lemma yields_mod:
  "(\<And>s. frames (h s) = frames s \<and> same_run s (h s)) \<Longrightarrow> yields E fs f vs (smod h) (\<lambda>_ ws. ws = vs)"
  by (auto simp: yields_def smod_def runs_def)

lemma yields_pop: "yields E fs f (vs @ [v]) (on_frame pop) (\<lambda>x ws. x = v \<and> ws = vs)"
proof (rule yieldsI)
  fix s g assume "runs s fs g (vs @ [v])"
  then obtain f' where "on_frame pop s = (Ok v, s\<lparr>frames := fs @ [f']\<rparr>)"
    "runs (s\<lparr>frames := fs @ [f']\<rparr>) fs f' vs" "same_frame g f'" by (rule pop_view)
  then show "(\<exists>x t h ws. on_frame pop s = (Ok x, t) \<and> runs t fs h ws \<and> same_frame g h \<and> same_run s t \<and>
      x = v \<and> ws = vs) \<or> (\<exists>e t. on_frame pop s = (Err e, t) \<and> E (dcode e))" by auto
qed

lemma yields_int: "yields E fs f (vs @ [v_int n]) int_top (\<lambda>x ws. x = n \<and> ws = vs)"
proof (rule yieldsI)
  fix s g assume "runs s fs g (vs @ [v_int n])"
  then obtain f' where "int_top s = (Ok n, s\<lparr>frames := fs @ [f']\<rparr>)"
    "runs (s\<lparr>frames := fs @ [f']\<rparr>) fs f' vs" "same_frame g f'" by (rule int_view)
  then show "(\<exists>x t h ws. int_top s = (Ok x, t) \<and> runs t fs h ws \<and> same_frame g h \<and> same_run s t \<and>
      x = n \<and> ws = vs) \<or> (\<exists>e t. int_top s = (Err e, t) \<and> E (dcode e))" by auto
qed

lemma yields_push:
  assumes "length vs < unat (maxstack f)"
  shows "yields E fs f vs (push_val v) (\<lambda>_ ws. ws = vs @ [v])"
proof (rule yieldsI)
  fix s g assume s: "runs s fs g vs" "same_frame f g"
  with assms have "length vs < unat (maxstack g)" by (simp add: same_frame_maxstack)
  with s(1) obtain f' where "push_val v s = (Ok (), s\<lparr>frames := fs @ [f']\<rparr>)"
    "runs (s\<lparr>frames := fs @ [f']\<rparr>) fs f' (vs @ [v])" "same_frame g f'" by (rule push_view)
  then show "(\<exists>x t h ws. push_val v s = (Ok x, t) \<and> runs t fs h ws \<and> same_frame g h \<and> same_run s t \<and>
      ws = vs @ [v]) \<or> (\<exists>e t. push_val v s = (Err e, t) \<and> E (dcode e))" by auto
qed

lemma yields_peek: "yields E fs f (vs @ [v]) (on_frame (peek 0)) (\<lambda>x ws. x = v \<and> ws = vs @ [v])"
  by (rule yieldsI) (auto simp: runs_def peek_eq)

lemma yields_alloc: "E ArenaExhausted \<Longrightarrow> yields E fs f vs (on_arena (alloc bs)) (\<lambda>_ ws. ws = vs)"
  by (rule yieldsI) (auto simp: on_arena_def alloc_def Let_def runs_def fail_def)

lemma yields_read: "E BadHandle \<Longrightarrow> yields E fs f vs (read_arena (\<lambda>a. arena_get a h)) (\<lambda>_ ws. ws = vs)"
  by (rule yieldsI) (auto simp: read_arena_def arena_get_def of_opt_def split: option.splits)

lemma yields_budget:
  assumes "E BudgetExceeded"
  shows "yields E fs f vs (on_budget (release dm n)) (\<lambda>_ ws. ws = vs)"
    and "yields E fs f vs (on_budget (spend dm n)) (\<lambda>_ ws. ws = vs)"
  by (rule yieldsI; cases rule: dim_cases [of dm];
      use assms in \<open>auto simp: on_budget_def release_def spend_def runs_def fail_def\<close>)+

lemma yields_ctx: "E IndexRange \<Longrightarrow> yields E fs f vs (on_ctx (pop_oldest n)) (\<lambda>_ ws. ws = vs)"
  by (rule yieldsI) (auto simp: on_ctx_def pop_oldest_def runs_def fail_def)


section \<open>The arms\<close>

lemma yields_weaken: "yields E fs f vs m R \<Longrightarrow> (\<And>x ws. R x ws \<Longrightarrow> Q x ws) \<Longrightarrow> yields E fs f vs m Q"
  unfolding yields_def by (fastforce split: res.splits prod.splits)

lemma pop_bind: "yields E fs f vs (k v) Q \<Longrightarrow> yields E fs f (vs @ [v]) (sbind (on_frame pop) k) Q"
  by (rule yields_bind [OF yields_pop]) simp

text \<open>An arm of this kind leaves the operands \<open>us\<close>.\<close>

abbreviation leaves ::
    "(code \<Rightarrow> bool) \<Rightarrow> frame list \<Rightarrow> frame \<Rightarrow> val list \<Rightarrow> (vm, diag, 'a) sm \<Rightarrow> (val list \<Rightarrow> bool) \<Rightarrow> bool" where
  "leaves E fs f vs m P \<equiv> yields E fs f vs m (\<lambda>_. P)"

lemma yields_int2:
  assumes "\<And>a b. x = v_int a \<Longrightarrow> y = v_int b \<Longrightarrow> yields E fs f vs (k b a) Q" and "typed x TyInt" and "typed y TyInt"
  shows "yields E fs f (vs @ [x, y]) (sbind int_top (\<lambda>b. sbind int_top (k b))) Q"
proof -
  from assms(2,3) obtain a b where v: "x = v_int a" "y = v_int b" unfolding typed_int by blast
  have "yields E fs f ((vs @ [v_int a]) @ [v_int b]) (sbind int_top (\<lambda>b. sbind int_top (k b))) Q"
    by (rule yields_bind [OF yields_int], elim conjE, hypsubst, rule yields_bind [OF yields_int], elim conjE, hypsubst,
        rule assms(1) [OF v])
  with v show ?thesis by simp
qed

lemma int_bind: "yields E fs f vs (k n) Q \<Longrightarrow> yields E fs f (vs @ [v_int n]) (sbind int_top k) Q"
  by (rule yields_bind [OF yields_int]) simp

lemma leaves_binop_int:
  assumes "length vs < unat (maxstack f)"
  shows "leaves E fs f ((vs @ [v_int a]) @ [v_int b]) (binop g) (\<lambda>us. us = vs @ [v_int (g a b)])"
  unfolding binop_def by (intro int_bind yields_push assms)

lemma leaves_binop:
  assumes "typed x TyInt" and "typed y TyInt" and "length vs < unat (maxstack f)"
  shows "leaves E fs f (vs @ [x, y]) (binop g) (\<lambda>us. \<exists>n. us = vs @ [v_int n])"
proof -
  from assms(1,2) obtain a b where v: "x = v_int a" "y = v_int b" unfolding typed_int by blast
  have "leaves E fs f ((vs @ [v_int a]) @ [v_int b]) (binop g) (\<lambda>us. \<exists>n. us = vs @ [v_int n])"
    by (rule yields_weaken [OF leaves_binop_int [OF assms(3)]]) blast
  then show ?thesis by (simp add: v)
qed

lemma leaves_divop:
  assumes "typed x TyInt" and "typed y TyInt" and "length vs < unat (maxstack f)" and "E DivideByZero"
  shows "leaves E fs f (vs @ [x, y]) (divop g) (\<lambda>us. \<exists>n. us = vs @ [v_int n])"
  unfolding divop_def using assms
  by (intro yields_int2) (auto intro: yields_weaken [OF yields_push] yields_weaken [OF yields_lift] simp: fail_def)

lemma leaves_not_int:
  assumes "length vs < unat (maxstack f)"
  shows "leaves E fs f (vs @ [v_int n]) ex_not (\<lambda>us. us = vs @ [v_int (of_bool (n = 0))])"
  unfolding ex_not_def v_bool_def by (intro int_bind yields_push assms)

lemma leaves_not:
  assumes "typed x TyInt" and "length vs < unat (maxstack f)"
  shows "leaves E fs f (vs @ [x]) ex_not (\<lambda>us. \<exists>n. us = vs @ [v_int n])"
proof -
  from assms(1) obtain n where v: "x = v_int n" unfolding typed_int by blast
  show ?thesis unfolding v by (rule yields_weaken [OF leaves_not_int [OF assms(2)]]) blast
qed

lemma leaves_stack:
  assumes "length vs + 2 \<le> unat (maxstack f)"
  shows "leaves E fs f (vs @ [x]) (ex_dup 0) (\<lambda>us. us = vs @ [x, x])"
    and "leaves E fs f (vs @ [x, y]) ex_swap (\<lambda>us. us = vs @ [y, x])"
proof -
  have "leaves E fs f (vs @ [x]) (push_val x) (\<lambda>us. us = (vs @ [x]) @ [x])"
    by (rule yields_push) (use assms in simp)
  then show "leaves E fs f (vs @ [x]) (ex_dup 0) (\<lambda>us. us = vs @ [x, x])"
    unfolding ex_dup_def by (intro yields_bind [OF yields_peek]) auto
  have "leaves E fs f vs (sthen (push_val y) (push_val x)) (\<lambda>us. us = (vs @ [y]) @ [x])"
    by (rule yields_then; rule yields_push) (use assms in simp_all)
  then have "leaves E fs f ((vs @ [x]) @ [y]) ex_swap (\<lambda>us. us = vs @ [y, x])"
    unfolding ex_swap_def by (intro pop_bind) simp
  then show "leaves E fs f (vs @ [x, y]) ex_swap (\<lambda>us. us = vs @ [y, x])" by simp
qed

lemma leaves_rot:
  assumes "length vs + 3 \<le> unat (maxstack f)"
  shows "leaves E fs f (vs @ [x, y, z]) ex_rot (\<lambda>us. us = vs @ [z, x, y])"
proof -
  have "leaves E fs f vs (sthen (push_val z) (sthen (push_val x) (push_val y)))
      (\<lambda>us. us = ((vs @ [z]) @ [x]) @ [y])"
    by (rule yields_then [OF yields_push yields_then [OF yields_push yields_push]]) (use assms in simp_all)
  then have "leaves E fs f (((vs @ [x]) @ [y]) @ [z]) ex_rot (\<lambda>us. us = vs @ [z, x, y])"
    unfolding ex_rot_def by (intro pop_bind) simp
  then show ?thesis by simp
qed

lemma leaves_alloc:
  assumes "length vs < unat (maxstack f)" and "E ArenaExhausted" and "E BadHandle"
  shows "leaves E fs f vs (ex_ldc b) (\<lambda>us. \<exists>v. us = vs @ [v] \<and> typed v TyHandle)"
    and "leaves E fs f vs ex_argv (\<lambda>us. \<exists>v. us = vs @ [v] \<and> typed v TyStr)"
proof -
  show "leaves E fs f vs (ex_ldc b) (\<lambda>us. \<exists>v. us = vs @ [v] \<and> typed v TyHandle)"
    unfolding ex_ldc_def using assms
    by (auto intro!: yields_bind [OF yields_get] yields_bind [OF yields_alloc] intro: yields_weaken [OF yields_push])
  show "leaves E fs f vs ex_argv (\<lambda>us. \<exists>v. us = vs @ [v] \<and> typed v TyStr)"
    unfolding ex_argv_def using assms
    by (auto intro!: yields_bind [OF yields_alloc] intro: yields_weaken [OF yields_push] simp: v_ty_def)
qed

lemma leaves_len:
  assumes "length vs < unat (maxstack f)" and "E BadHandle" and "typed v TyHandle"
  shows "leaves E fs f (vs @ [v]) ex_len (\<lambda>us. \<exists>n. us = vs @ [v_int n])"
proof -
  have "as_handle v = Ok (handle_from_bits (v_payload v))" using assms(3) by (simp add: as_handle_def)
  with assms(1,2) show ?thesis
    unfolding ex_len_def
    by (auto intro!: yields_bind [OF yields_pop] yields_bind [OF yields_lift] yields_bind [OF yields_read]
        intro: yields_weaken [OF yields_push])
qed


section \<open>Instructions\<close>

lemma yields_adv: "leaves E fs f vs m P \<Longrightarrow> yields E fs f vs (adv m) (\<lambda>a us. a \<and> P us)"
  unfolding adv_def sthen_def by (rule yields_bind [where R = "\<lambda>_. P"]) (auto intro: yields_ret)

lemma popped:
  "list_all2 typed (rev ws) [] \<longleftrightarrow> ws = []"
  "list_all2 typed (rev ws) [t] \<longleftrightarrow> (\<exists>v. ws = [v] \<and> typed v t)"
  "list_all2 typed (rev ws) [t, u] \<longleftrightarrow> (\<exists>v w. ws = [w, v] \<and> typed v t \<and> typed w u)"
  "list_all2 typed (rev ws) [t, u, y] \<longleftrightarrow> (\<exists>v w z. ws = [z, w, v] \<and> typed v t \<and> typed w u \<and> typed z y)"
  unfolding list_all2_rev1 by (auto simp: list_all2_Cons2)

definition typed_result :: "op \<Rightarrow> val list \<Rightarrow> val list \<Rightarrow> bool" where
  "typed_result x vs us \<longleftrightarrow> (\<exists>zs. us = vs @ zs \<and> list_all2 typed zs (pushes (insn x)))"

lemma v_ty_int [simp]: "v_ty (v_int n) = TyInt"
  by (simp add: v_ty_def)

lemma typed_resultI: "us = vs @ zs \<Longrightarrow> list_all2 typed zs (pushes (insn x)) \<Longrightarrow> typed_result x vs us"
  by (auto simp: typed_result_def)

text \<open>From what an arm leaves to the types of the row.\<close>

lemma typed_arm:
  assumes "exec_op x d = adv m" and "leaves E fs f vs m P" and "\<And>us. P us \<Longrightarrow> typed_result x ws us"
  shows "yields E fs f vs (exec_op x d) (\<lambda>a us. a \<and> typed_result x ws us)"
  unfolding assms(1) by (rule yields_weaken [OF yields_adv [OF assms(2)]]) (use assms(3) in blast)

lemma typed_stack_arms:
  assumes "x \<in> {OpNop, OpLdi, OpDup, OpDrop, OpSwap, OpRot, OpNot, OpResume, OpCommit}"
    and "list_all2 typed (rev ws) (pops (insn x))"
    and "length vs + length (pushes (insn x)) \<le> unat (maxstack f)"
  shows "yields E fs f (vs @ ws) (exec_op x d) (\<lambda>a us. a \<and> typed_result x vs us)"
proof -
  have commit: "leaves E fs f vs ex_commit (\<lambda>us. us = vs)"
    unfolding ex_commit_def by (rule yields_mod) (auto simp: same_run_def split: option.splits)
  have drop: "leaves E fs f (vs @ [v]) (on_frame pop) (\<lambda>us. us = vs)" for v
    by (rule yields_weaken [OF yields_pop]) simp
  note row = insn_eq mk_row_def popped
  consider "x = OpNop \<or> x = OpResume" | "x = OpLdi" | "x = OpDup" | "x = OpDrop" | "x = OpSwap" | "x = OpRot"
    | "x = OpNot" | "x = OpCommit" using assms(1) by blast
  then show ?thesis
  proof cases
    case 1
    with assms(2) show ?thesis by (auto simp: row typed_result_def intro!: yields_ret)
  next
    case 2
    with assms(2,3) show ?thesis
      by (auto simp: row simp del: exec_op.simps intro!: typed_arm [OF exec_op.simps(3) yields_push])
        (auto simp: row typed_result_def)
  next
    case 3
    with assms(2,3) show ?thesis
      by (auto simp: row simp del: exec_op.simps intro!: typed_arm [OF exec_op.simps(4) leaves_stack(1)])
        (auto simp: row typed_result_def)
  next
    case 4
    with assms(2,3) show ?thesis
      by (auto simp: row simp del: exec_op.simps intro!: typed_arm [OF exec_op.simps(6) drop])
        (auto simp: row typed_result_def)
  next
    case 5
    with assms(2,3) show ?thesis
      by (auto simp: row simp del: exec_op.simps intro!: typed_arm [OF exec_op.simps(7) leaves_stack(2)])
        (auto simp: row typed_result_def)
  next
    case 6
    with assms(2,3) show ?thesis
      by (auto simp: row simp del: exec_op.simps intro!: typed_arm [OF exec_op.simps(8) leaves_rot])
        (auto simp: row typed_result_def)
  next
    case 7
    with assms(2,3) show ?thesis
      by (auto simp: row simp del: exec_op.simps intro!: typed_arm [OF exec_op.simps(27) leaves_not])
        (auto simp: row typed_result_def)
  next
    case 8
    with assms(2) show ?thesis
      by (auto simp: row simp del: exec_op.simps intro!: typed_arm [OF exec_op.simps(49) commit])
        (auto simp: row typed_result_def)
  qed
qed

lemma typed_int_arms:
  assumes "x \<in> {OpAdd, OpSub, OpMul, OpAnd, OpOr, OpShl, OpShr, OpLt} \<or> x \<in> {OpDiv, OpMod} \<and> E DivideByZero"
    and "list_all2 typed (rev ws) (pops (insn x))"
    and "length vs + length (pushes (insn x)) \<le> unat (maxstack f)"
  shows "yields E fs f (vs @ ws) (exec_op x d) (\<lambda>a us. a \<and> typed_result x vs us)"
proof -
  have row: "pops (insn x) = [TyInt, TyInt]" "pushes (insn x) = [TyInt]"
    using assms(1) by (auto simp: insn_eq mk_row_def)
  with assms(2) obtain a b where ws: "ws = [a, b]" "typed a TyInt" "typed b TyInt" by (auto simp: popped)
  have room: "length vs < unat (maxstack f)" using assms(3) row by simp
  have "(\<exists>g. exec_op x d = adv (binop g)) \<or> (\<exists>g. exec_op x d = adv (divop g)) \<and> E DivideByZero"
    using assms(1) by (auto simp: lt_binop)
  then consider g where "exec_op x d = adv (binop g)" | g where "exec_op x d = adv (divop g)" "E DivideByZero"
    by blast
  then have "yields E fs f (vs @ ws) (exec_op x d) (\<lambda>a us. a \<and> (\<exists>n. us = vs @ [v_int n]))"
    unfolding ws(1)
    by cases (simp_all only: yields_adv [OF leaves_binop [OF ws(2,3) room]] yields_adv [OF leaves_divop [OF ws(2,3) room]])
  then show ?thesis by (rule yields_weaken) (auto simp: typed_result_def row)
qed

lemma typed_part_arms:
  assumes "x \<in> {OpLdc, OpArgv, OpLen, OpFork, OpRelease, OpSpend, OpCtxPop, OpCtxCost}"
    and "\<forall>c. c \<notin> set stack_codes \<longrightarrow> E c"
    and "list_all2 typed (rev ws) (pops (insn x))"
    and "length vs + length (pushes (insn x)) \<le> unat (maxstack f)"
  shows "yields E fs f (vs @ ws) (exec_op x d) (\<lambda>a us. a \<and> typed_result x vs us)"
proof -
  have E: "E ArenaExhausted" "E BadHandle" "E BudgetExceeded" "E IndexRange" "E ForkImbalance"
    using assms(2) by (simp_all add: stack_codes_def)
  have fork: "leaves E fs f vs ex_fork (\<lambda>us. us = vs @ [v_int 0])" if "length vs < unat (maxstack f)"
    unfolding ex_fork_def using that E(5)
    by (auto intro!: yields_bind [OF yields_get] yields_then [OF yields_mod] yields_push
        yields_fail simp: same_run_def)
  have budget: "leaves E fs f (vs @ [v_int n]) (sbind int_top (\<lambda>n. on_budget (release dm n))) (\<lambda>us. us = vs)"
    "leaves E fs f (vs @ [v_int n]) (sbind int_top (\<lambda>n. on_budget (spend dm n))) (\<lambda>us. us = vs)" for n dm
    by (auto intro!: yields_bind [OF yields_int] yields_budget E(3))
  have cost: "leaves E fs f vs (sbind (sget (\<lambda>s. cost (ctx s))) (\<lambda>n. push_val (v_int n))) (\<lambda>us. \<exists>n. us = vs @ [v_int n])"
    if "length vs < unat (maxstack f)"
    using that by (auto intro!: yields_bind [OF yields_get] intro: yields_weaken [OF yields_push])
  note row = insn_eq mk_row_def popped
  consider "x = OpLdc" | "x = OpArgv" | "x = OpLen" | "x = OpFork" | "x = OpRelease" | "x = OpSpend" | "x = OpCtxPop"
    | "x = OpCtxCost" using assms(1) by blast
  then show ?thesis
  proof cases
    case 1
    with assms(3,4) show ?thesis
      by (auto simp: row simp del: exec_op.simps intro!: typed_arm [OF exec_op.simps(2) leaves_alloc(1) [OF _ E(1,2)]])
        (auto simp: row typed_result_def)
  next
    case 2
    with assms(3,4) show ?thesis
      by (auto simp: row simp del: exec_op.simps intro!: typed_arm [OF exec_op.simps(11) leaves_alloc(2) [OF _ E(1,2)]])
        (auto simp: row typed_result_def)
  next
    case 3
    with assms(3,4) show ?thesis
      by (auto simp: row simp del: exec_op.simps intro!: typed_arm [OF exec_op.simps(15) leaves_len [of _ f E, OF _ E(2)]])
        (auto simp: row typed_result_def)
  next
    case 4
    with assms(3,4) show ?thesis
      by (auto simp: row simp del: exec_op.simps intro!: typed_arm [OF exec_op.simps(48) fork])
        (auto simp: row typed_result_def)
  next
    case 5
    then obtain n where "ws = [v_int n]" using assms(3) by (auto simp: row typed_int [simplified])
    with 5 show ?thesis
      by (auto simp: row simp del: exec_op.simps intro!: typed_arm [OF exec_op.simps(55) budget(1)])
        (auto simp: row typed_result_def)
  next
    case 6
    then obtain n where "ws = [v_int n]" using assms(3) by (auto simp: row typed_int [simplified])
    with 6 show ?thesis
      by (auto simp: row simp del: exec_op.simps intro!: typed_arm [OF exec_op.simps(56) budget(2)])
        (auto simp: row typed_result_def)
  next
    case 7
    with assms(3,4) show ?thesis
      by (auto simp: row simp del: exec_op.simps intro!: typed_arm [OF exec_op.simps(59) yields_ctx [of E, OF E(4)]])
        (auto simp: row typed_result_def)
  next
    case 8
    with assms(3,4) show ?thesis
      by (auto simp: row simp del: exec_op.simps intro!: typed_arm [OF exec_op.simps(61) cost])
        (auto simp: row typed_result_def)
  qed
qed


theorem typed_exec_op:
  assumes "x \<in> set sound_ops" and "x \<in> set plain_ops \<or> (\<forall>c. c \<notin> set stack_codes \<longrightarrow> E c)"
    and "list_all2 typed (rev ws) (pops (insn x))"
    and "length vs + length (pushes (insn x)) \<le> unat (maxstack f)"
  shows "yields E fs f (vs @ ws) (exec_op x d) (\<lambda>a us. a \<and> typed_result x vs us)"
proof -
  have E: "E DivideByZero" if "\<forall>c. c \<notin> set stack_codes \<longrightarrow> E c" using that by (simp add: stack_codes_def)
  from assms(1) consider "x \<in> {OpNop, OpLdi, OpDup, OpDrop, OpSwap, OpRot, OpNot, OpResume, OpCommit}"
    | "x \<in> {OpAdd, OpSub, OpMul, OpAnd, OpOr, OpShl, OpShr, OpLt}" | "x \<in> {OpDiv, OpMod}"
    | "x \<in> {OpLdc, OpArgv, OpLen, OpFork, OpRelease, OpSpend, OpCtxPop, OpCtxCost}"
    by (auto simp: sound_ops_def plain_ops_def)
  then show ?thesis
  proof cases
    case 1
    then show ?thesis by (rule typed_stack_arms [OF _ assms(3,4)])
  next
    case 2
    then show ?thesis by (intro typed_int_arms [OF _ assms(3,4)]) simp
  next
    case 3
    with assms(2) E show ?thesis by (intro typed_int_arms [OF _ assms(3,4)]) (auto simp: plain_ops_def)
  next
    case 4
    with assms(2) show ?thesis by (intro typed_part_arms [OF _ _ assms(3,4)]) (auto simp: plain_ops_def)
  qed
qed

text \<open>The running frame after an instruction: the same but for its operands, and one further.\<close>

definition moved_on :: "frame \<Rightarrow> frame \<Rightarrow> bool" where
  "moved_on f g \<longleftrightarrow> func g = func f \<and> pc g = pc f + 1 \<and> maxstack g = maxstack f \<and> returns g = returns f"

lemma exec_yields:
  assumes "runs s fs f vs" and "yields E fs f vs (exec_op (d_op d) d) (\<lambda>a us. a \<and> P us)"
  shows "case exec d s of
     (Ok u, t) \<Rightarrow> \<exists>g us. runs t fs g us \<and> P us \<and> moved_on f g \<and> same_run s t
   | (Err e, t) \<Rightarrow> E (dcode e)
   | (Panic, t) \<Rightarrow> False"
proof -
  have fr: "frames s = fs @ [f]" using assms(1) by (simp add: runs_def)
  note y = yieldsD [OF assms(2,1) same_frame_refl]
  obtain r t where m: "exec_op (d_op d) d s = (r, t)" by fastforce
  show ?thesis
  proof (cases r)
    case (Ok a)
    with y m obtain h us where h: "runs t fs h us" "same_frame f h" "same_run s t" "a" "P us" by auto
    let ?g = "h\<lparr>pc := pc h + 1\<rparr>"
    have t: "frames t = fs @ [h]" using h(1) by (simp add: runs_def)
    then have "exec d s = (Ok (), t\<lparr>frames := fs @ [?g]\<rparr>)"
      using m Ok h(4) fr by (simp add: exec_def sbind_def sget_def bump_pc_def)
    moreover have "runs (t\<lparr>frames := fs @ [?g]\<rparr>) fs ?g us" using h(1) by (simp add: runs_def)
    moreover have "moved_on f ?g" using h(2) by (simp add: moved_on_def same_frame_def)
    moreover have "same_run s (t\<lparr>frames := fs @ [?g]\<rparr>)" using h(3) by (simp add: same_run_def)
    ultimately show ?thesis using h(5) by auto
  qed (use y m fr in \<open>auto simp: exec_def sbind_def sget_def\<close>)
qed

theorem typed_exec:
  assumes "d_op d \<in> set sound_ops" and "runs s fs f (vs @ ws)"
    and "list_all2 typed (rev ws) (pops (insn (d_op d)))"
    and "length vs + length (pushes (insn (d_op d))) \<le> unat (maxstack f)"
  shows "case exec d s of
     (Ok u, t) \<Rightarrow> \<exists>g zs. runs t fs g (vs @ zs) \<and> list_all2 typed zs (pushes (insn (d_op d))) \<and>
       moved_on f g \<and> same_run s t
   | (Err e, t) \<Rightarrow> d_op d \<notin> set plain_ops \<and> dcode e \<notin> set stack_codes
   | (Panic, t) \<Rightarrow> False"
proof -
  let ?E = "\<lambda>c. d_op d \<notin> set plain_ops \<and> c \<notin> set stack_codes"
  have "yields ?E fs f (vs @ ws) (exec_op (d_op d) d) (\<lambda>a us. a \<and> typed_result (d_op d) vs us)"
    using assms(1,3,4) by (intro typed_exec_op) auto
  from exec_yields [OF assms(2) this] show ?thesis
    by (fastforce simp: typed_result_def split: res.splits prod.splits)
qed

end
