(* ===== verification/CV_Accept.thy ===== *)
theory CV_Accept
  imports CV_Verify CV_Types
begin

text \<open>
  The abstract stack of \<open>src/src/verify.rs\<close> follows the operands of the machine through the
  opcodes in \<open>sound_ops\<close>.
\<close>

section \<open>The abstract stack follows the operands\<close>

lemma pop_types_Ok:
  "pop_types i ws (int (length st), st) = Ok (dp, st') \<Longrightarrow>
     \<exists>got. st = got @ st' \<and> list_all2 satisfies got ws \<and> dp = int (length st')"
proof (induction ws arbitrary: st)
  case (Cons w ws)
  show ?case
  proof (cases st)
    case Nil
    with Cons.prems show ?thesis by simp
  next
    case st: (Cons g rest)
    with Cons.prems have ok: "satisfies g w" "pop_types i ws (int (length rest), rest) = Ok (dp, st')"
      by (auto split: if_splits)
    from Cons.IH [OF ok(2)] obtain got where "rest = got @ st'" "list_all2 satisfies got ws" "dp = int (length st')"
      by blast
    with st ok(1) show ?thesis by (intro exI [of _ "g # got"]) simp
  qed
qed simp

lemma push_types_Ok:
  "push_types mx i ts (int (length st), st) = Ok (dp, st') \<Longrightarrow>
     st' = rev ts @ st \<and> dp = int (length st') \<and> (ts \<noteq> [] \<longrightarrow> length st' \<le> unat mx)"
proof (induction ts arbitrary: st)
  case (Cons t ts)
  have e: "int (length (t # st)) = int (length st) + 1" by simp
  have fits: "\<not> uint mx < int (length st) + 1" using Cons.prems by auto
  then have "push_types mx i ts (int (length (t # st)), t # st) = Ok (dp, st')"
    using Cons.prems unfolding e by simp
  note tail = Cons.IH [OF this]
  have "uint mx = int (unat mx)" by simp
  with fits have "Suc (length st) \<le> unat mx" by linarith
  with tail show ?case by (cases ts) auto
qed simp

lemma sound_rows:
  assumes "x \<in> set sound_ops"
  shows "\<not> variadic (insn x)" and "set (pops (insn x)) \<subseteq> {TyTop, TyInt, TyHandle}"
    and "x \<notin> {OpRet, OpTail}"
  using assms by (auto simp: sound_ops_def plain_ops_def insn_eq mk_row_def)

lemma scan_insn_Ok:
  assumes "scan_insn index nt nc mx i d (int (length st), st) = Ok (dp, st')" and "d_op d \<in> set sound_ops"
  shows "\<exists>got rest. st = got @ rest \<and> list_all2 satisfies got (pops (insn (d_op d))) \<and>
     st' = rev (pushes (insn (d_op d))) @ rest \<and> dp = int (length st') \<and>
     (pushes (insn (d_op d)) \<noteq> [] \<longrightarrow> length st' \<le> unat mx)"
proof -
  have "stack_effect mx i d (int (length st), st) = Ok (dp, st')"
    using assms(1) by (auto simp: scan_insn_def rbind_eq_Ok split: if_splits)
  then obtain dp1 st1 where p: "pop_types i (pops (insn (d_op d))) (int (length st), st) = Ok (dp1, st1)"
    and q: "push_types mx i (pushes (insn (d_op d))) (dp1, st1) = Ok (dp, st')"
    using sound_rows(1) [OF assms(2)] by (auto simp: stack_effect_def Let_def rbind_eq_Ok)
  from pop_types_Ok [OF p] obtain got where g: "st = got @ st1" "list_all2 satisfies got (pops (insn (d_op d)))"
    "dp1 = int (length st1)" by blast
  from push_types_Ok [OF q [unfolded g(3)]] g show ?thesis by blast
qed

lemma typed_all_satisfies:
  "list_all2 typed vs got \<Longrightarrow> list_all2 satisfies got ws \<Longrightarrow> set ws \<subseteq> {TyTop, TyInt, TyHandle} \<Longrightarrow> list_all2 typed vs ws"
proof (induction vs got arbitrary: ws rule: list_all2_induct)
  case (Cons v vs g got)
  then obtain w ws' where ws: "ws = w # ws'" "satisfies g w" "list_all2 satisfies got ws'"
    by (auto simp: list_all2_Cons1)
  with Cons.prems(2) have "w \<in> {TyTop, TyInt, TyHandle}" "set ws' \<subseteq> {TyTop, TyInt, TyHandle}" by auto
  with Cons.IH ws Cons.hyps(1) typed_satisfies [of g w v] show ?case by simp
qed simp

theorem abstract_stack_follows:
  assumes "d_op d \<in> set sound_ops" and "runs s fs f vs" and "list_all2 typed (rev vs) st"
    and "scan_insn index nt nc (maxstack f) i d (int (length st), st) = Ok (dp, st')"
  shows "case exec d s of
     (Ok u, t) \<Rightarrow> dp = int (length st') \<and>
       (\<exists>g us. runs t fs g us \<and> list_all2 typed (rev us) st' \<and> moved_on f g \<and> same_run s t)
   | (Err e, t) \<Rightarrow> d_op d \<notin> set plain_ops \<and> dcode e \<notin> set stack_codes
   | (Panic, t) \<Rightarrow> False"
proof -
  let ?row = "insn (d_op d)"
  from scan_insn_Ok [OF assms(4,1)] obtain got rest where st: "st = got @ rest" "list_all2 satisfies got (pops ?row)"
    "st' = rev (pushes ?row) @ rest" "dp = int (length st')" "pushes ?row \<noteq> [] \<longrightarrow> length st' \<le> unat (maxstack f)"
    by blast
  let ?ws = "drop (length rest) vs" and ?vs = "take (length rest) vs"
  have len: "length vs = length got + length rest" using list_all2_lengthD [OF assms(3)] st(1) by simp
  have "rev vs = rev ?ws @ rev ?vs" by (metis append_take_drop_id rev_append)
  with assms(3) st(1) have "list_all2 typed (rev ?ws @ rev ?vs) (got @ rest)" by simp
  then have ty: "list_all2 typed (rev ?ws) got" "list_all2 typed (rev ?vs) rest"
    using len by (simp_all add: list_all2_append)
  have "length vs \<le> unat (maxstack f)" by (rule runs_room [OF assms(2)])
  then have room: "length ?vs + length (pushes ?row) \<le> unat (maxstack f)"
    using st(3,5) len by (cases "pushes ?row = []") auto
  have "runs s fs f (?vs @ ?ws)" using assms(2) by simp
  note ran = typed_exec [OF assms(1) this typed_all_satisfies [OF ty(1) st(2) sound_rows(2) [OF assms(1)]] room]
  have stack: "list_all2 typed (rev (?vs @ zs)) st'" if "list_all2 typed zs (pushes ?row)" for zs
    using that ty(2) st(3) by (simp add: list_all2_appendI list_all2_rev1)
  obtain r t where e: "exec d s = (r, t)" by fastforce
  show ?thesis
  proof (cases r)
    case (Ok u)
    with ran e obtain g zs where "runs t fs g (?vs @ zs)" "list_all2 typed zs (pushes ?row)" "moved_on f g" "same_run s t"
      by auto
    with stack [of zs] st(4) show ?thesis by (auto simp only: e Ok prod.case res.case)
  qed (use ran e in auto)
qed

end
