(* ===== verification/CV_Calc.thy ===== *)
theory CV_Calc
  imports CV_Types
begin

text \<open>
  A reference machine for the opcodes in \<open>plain_ops\<close>: lists of integers instead of frames and
  values. The interpreter of \<open>src/src/interp.rs\<close> computes what it computes.
\<close>

text \<open>\<open>calc_op\<close>: the stack has its top at the head; \<open>k\<close> is the immediate.\<close>

definition calc_op :: "op \<Rightarrow> i64 \<Rightarrow> i64 list \<Rightarrow> i64 list option" where
  "calc_op x k st =
     (if x = OpNop then Some st
      else if x = OpLdi then Some (k # st)
      else if x = OpDup then (case st of a # s \<Rightarrow> Some (a # a # s) | [] \<Rightarrow> None)
      else if x = OpDrop then (case st of a # s \<Rightarrow> Some s | [] \<Rightarrow> None)
      else if x = OpSwap then (case st of a # b # s \<Rightarrow> Some (b # a # s) | _ \<Rightarrow> None)
      else if x = OpRot then (case st of a # b # c # s \<Rightarrow> Some (b # c # a # s) | _ \<Rightarrow> None)
      else if x = OpNot then (case st of a # s \<Rightarrow> Some (of_bool (a = 0) # s) | [] \<Rightarrow> None)
      else case int_arith x of
             None \<Rightarrow> None
           | Some g \<Rightarrow> (case st of b # a # s \<Rightarrow> Some (word_of_int (g (sint a) (sint b)) # s) | _ \<Rightarrow> None))"

definition calc :: "decoded \<Rightarrow> i64 list \<Rightarrow> i64 list option" where
  "calc d = calc_op (d_op d) (imm d)"

fun calc_all :: "decoded list \<Rightarrow> i64 list \<Rightarrow> i64 list option" where
  "calc_all [] st = Some st"
| "calc_all (d # ds) st = Option.bind (calc d st) (calc_all ds)"

text \<open>The operands that a stack of integers stands for.\<close>

definition ints :: "i64 list \<Rightarrow> val list" where
  "ints st = map v_int (rev st)"

lemma ints_simps [simp]: "ints [] = []" "ints (a # st) = ints st @ [v_int a]" "length (ints st) = length st"
  by (simp_all add: ints_def)

text \<open>It needs the operands the row of the opcode names, and leaves as many as the row says.\<close>

lemma plain_cases:
  assumes "x \<in> set plain_ops"
  obtains (shuffle) "x \<in> {OpNop, OpLdi, OpDup, OpDrop, OpSwap, OpRot, OpNot}"
  | (arith) g where "int_arith x = Some g" "pops (insn x) = [TyInt, TyInt]" "pushes (insn x) = [TyInt]"
      "x \<notin> {OpNop, OpLdi, OpDup, OpDrop, OpSwap, OpRot, OpNot}"
proof -
  have "x \<in> {OpNop, OpLdi, OpDup, OpDrop, OpSwap, OpRot, OpNot} \<or>
      x \<in> {OpAdd, OpSub, OpMul, OpLt, OpAnd, OpOr, OpShl, OpShr}" using assms by (auto simp: plain_ops_def)
  then show ?thesis
  proof
    assume "x \<in> {OpAdd, OpSub, OpMul, OpLt, OpAnd, OpOr, OpShl, OpShr}"
    then have "\<exists>g. int_arith x = Some g" "pops (insn x) = [TyInt, TyInt]" "pushes (insn x) = [TyInt]"
      "x \<notin> {OpNop, OpLdi, OpDup, OpDrop, OpSwap, OpRot, OpNot}" by (auto simp: insn_eq mk_row_def)
    with arith show ?thesis by blast
  qed (rule shuffle)
qed

lemma calc_op_depth:
  assumes "x \<in> set plain_ops"
  shows "length (pops (insn x)) \<le> length st \<Longrightarrow> \<exists>st'. calc_op x k st = Some st'"
    and "calc_op x k st = Some st' \<Longrightarrow> length (pops (insn x)) \<le> length st \<and>
      length st' + length (pops (insn x)) = length st + length (pushes (insn x))"
  using assms
  by (cases rule: plain_cases; auto simp: calc_op_def insn_eq mk_row_def Suc_le_length_iff split: list.splits)+

lemma int_arith_arm:
  assumes "x \<in> set plain_ops" and "int_arith x = Some g"
  shows "\<exists>h. exec_op x d = adv (binop h) \<and> (\<forall>a b. h a b = word_of_int (g (sint a) (sint b)))"
proof -
  have arm: ?thesis if "exec_op x d = adv (binop h)" "\<And>a b. h a b = word_of_int (g (sint a) (sint b))" for h
    using that by blast
  consider "x = OpAdd" | "x = OpSub" | "x = OpMul" | "x = OpLt" | "x = OpAnd" | "x = OpOr" | "x = OpShl" | "x = OpShr"
    using assms by (auto simp: plain_ops_def)
  then show ?thesis
  proof cases
    case 1
    with assms(2) show ?thesis by (intro arm [of "(+)"]) auto
  next
    case 2
    with assms(2) show ?thesis by (intro arm [of "(-)"]) auto
  next
    case 3
    with assms(2) show ?thesis by (intro arm [of "(*)"]) auto
  next
    case 4
    with assms(2) show ?thesis by (intro arm [of "\<lambda>a b. of_bool (sint a < sint b)"]) (auto simp: lt_binop)
  next
    case 5
    with assms(2) show ?thesis using word_int_arith(4) by (intro arm [of "and"]) auto
  next
    case 6
    with assms(2) show ?thesis using word_int_arith(5) by (intro arm [of "or"]) auto
  next
    case 7
    with assms(2) show ?thesis using word_int_shift(1) by (intro arm [of i64_shl]) auto
  next
    case 8
    with assms(2) show ?thesis using word_int_shift(2) by (intro arm [of i64_shr]) auto
  qed
qed

text \<open>The interpreter on a frame of integers.\<close>

lemma calc_arm:
  assumes "x \<in> set plain_ops" and "x = d_op d" and "calc_op x (imm d) st = Some st'"
    and "length st \<le> unat (maxstack f)" and "length st' \<le> unat (maxstack f)"
  shows "yields E fs f (ints st) (exec_op x d) (\<lambda>a us. a \<and> us = ints st')"
  using assms(1)
proof (cases rule: plain_cases)
  case (arith g)
  from int_arith_arm [OF assms(1) arith(1)] obtain h where h: "exec_op x d = adv (binop h)"
    "\<And>a b. h a b = word_of_int (g (sint a) (sint b))" by blast
  from assms(3) arith obtain a b s where st: "st = b # a # s" "st' = h a b # s"
    by (auto simp: calc_op_def h(2) split: list.splits)
  have "length (ints s) < unat (maxstack f)" using st assms(4) by simp
  from yields_adv [OF leaves_binop_int [OF this]] st show ?thesis by (simp add: h(1))
next
  case shuffle
  note room = assms(4,5)
  consider "x = OpNop" "st' = st" | "x = OpLdi" "st' = imm d # st" | a s where "x = OpDup" "st = a # s" "st' = a # a # s"
    | a s where "x = OpDrop" "st = a # s" "st' = s" | a b s where "x = OpSwap" "st = a # b # s" "st' = b # a # s"
    | a b c s where "x = OpRot" "st = a # b # c # s" "st' = b # c # a # s"
    | a s where "x = OpNot" "st = a # s" "st' = of_bool (a = 0) # s"
    using shuffle assms(3) by (auto simp: calc_op_def split: list.splits)
  then show ?thesis
  proof cases
    case 1
    then show ?thesis by (auto intro: yields_ret)
  next
    case 2
    with yields_adv [OF yields_push [of "ints st" f]] room show ?thesis by simp
  next
    case 3
    with yields_adv [OF leaves_stack(1) [of "ints s" f _ _ "v_int a"]] room show ?thesis by simp
  next
    case 4
    have "leaves E fs f (ints s @ [v_int a]) (on_frame pop) (\<lambda>us. us = ints s)"
      by (rule yields_weaken [OF yields_pop]) simp
    from yields_adv [OF this] 4 show ?thesis by simp
  next
    case 5
    with yields_adv [OF leaves_stack(2) [of "ints s" f _ _ "v_int b" "v_int a"]] room show ?thesis by simp
  next
    case 6
    with yields_adv [OF leaves_rot [of "ints s" f _ _ "v_int c" "v_int b" "v_int a"]] room show ?thesis by simp
  next
    case 7
    with yields_adv [OF leaves_not_int [of "ints s" f _ _ a]] room show ?thesis by simp
  qed
qed

theorem calc_exec:
  assumes "d_op d \<in> set plain_ops" and "runs s fs f (ints st)" and "calc d st = Some st'"
    and "length st' \<le> unat (maxstack f)"
  shows "\<exists>g t. exec d s = (Ok (), t) \<and> runs t fs g (ints st') \<and> moved_on f g \<and> same_run s t"
proof -
  have "length st \<le> unat (maxstack f)" using runs_room [OF assms(2)] by simp
  with calc_arm [OF assms(1) refl, of st st' f "\<lambda>_. False"] assms(3,4)
  have "yields (\<lambda>_. False) fs f (ints st) (exec_op (d_op d) d) (\<lambda>a us. a \<and> us = ints st')" by (simp add: calc_def)
  from exec_yields [OF assms(2) this] show ?thesis
    by (cases "exec d s"; cases "fst (exec d s)") auto
qed

end
