(* ===== verification/CV_Straight.thy ===== *)
theory CV_Straight
  imports CV_Accept CV_Calc
begin

text \<open>
  Plain integer programs: a function of narrow instructions, made of opcodes in \<open>plain_ops\<close> (\<open>nop\<close>,
  \<open>ldi\<close>, \<open>dup\<close>, \<open>drop\<close>, \<open>swap\<close>, \<open>rot\<close>, \<open>add\<close>, \<open>sub\<close>, \<open>mul\<close>, \<open>lt\<close>, \<open>and\<close>, \<open>or\<close>, \<open>not\<close>, \<open>shl\<close>,
  \<open>shr\<close>: nothing that divides, branches or asks the host) and a final \<open>halt\<close>, that
  \<open>admit\<close> of \<open>src/src/verify.rs\<close> accepts is run by \<open>Vm::step\<close> of \<open>src/src/interp.rs\<close> to its
  end, and halts with what the reference machine of \<open>CV_Calc\<close> has on top.
\<close>

section \<open>Fetching what was verified\<close>

lemma slice_of_slice:
  assumes "slice_get code lo hi = Some body" and "slice_get body a b = Some x"
  shows "slice_get code (lo + a) (lo + b) = Some x"
proof -
  from assms have c: "lo \<le> hi" "hi \<le> length code" "a \<le> b" "b \<le> hi - lo"
    and body: "body = take (hi - lo) (drop lo code)" and x: "x = take (b - a) (drop a body)"
    by (auto simp: slice_get_def split: if_splits)
  have "x = take (b - a) (drop (lo + a) code)"
    using c unfolding x body by (simp add: drop_take min_def add.commute)
  with c show ?thesis by (simp add: slice_get_def)
qed

lemma decode_slice:
  assumes "slice_get code lo hi = Some body" and "decode body off = Some d"
  shows "decode code (lo + off) = Some d"
proof -
  have at: "slice_get code (lo + a) (lo + b) = Some x" if "slice_get body a b = Some x" for a b x
    using slice_of_slice [OF assms(1) that] .
  from assms(2) obtain raw where raw: "slice_get body off (off + INSN_LEN) = Some raw"
    by (auto simp: decode_def Option.bind_eq_Some_conv)
  have raw': "slice_get code (lo + off) (lo + off + INSN_LEN) = Some raw" using at [OF raw] by (simp add: add.assoc)
  show ?thesis
  proof (cases "raw ! 0 = WIDE_PREFIX")
    case True
    with assms(2) raw obtain inner where inner: "slice_get body (off + INSN_LEN) (off + 2 * INSN_LEN) = Some inner"
      by (auto simp: decode_def Let_def Option.bind_eq_Some_conv)
    have "slice_get code (lo + off + INSN_LEN) (lo + off + 2 * INSN_LEN) = Some inner"
      using at [OF inner] by (simp add: add.assoc)
    with assms(2) raw raw' inner True show ?thesis by (simp add: decode_def)
  next
    case False
    with assms(2) raw raw' show ?thesis by (simp add: decode_def)
  qed
qed

text \<open>Without wide instructions the \<open>k\<close>-th one lies at byte \<open>4 * k\<close>, where the interpreter looks.\<close>

lemma laid_out_narrow:
  "laid_out body lo off ds os \<Longrightarrow> \<forall>d\<in>set ds. d_len d = 4 \<Longrightarrow> i < length ds \<Longrightarrow>
     decode body (off + 4 * i) = Some (ds ! i)"
proof (induction body lo off ds os arbitrary: i rule: laid_out.induct)
  case (2 body lo off d ds at ats)
  then show ?case by (cases i) (auto simp: add.assoc)
qed auto

lemma narrow_fetch:
  assumes "decode_range code f = Ok (ds, ats)" and "\<forall>d\<in>set ds. d_len d = 4" and "i < length ds"
  shows "decode code (unat (fm_code_off f) + i * INSN_LEN) = Some (ds ! i)"
proof -
  obtain body where b: "slice_get code (unat (fm_code_off f)) (unat (fm_code_off f) + unat (fm_code_len f)) = Some body"
    "laid_out body (unat (fm_code_off f)) 0 ds ats" using assms(1) decode_range_iff by blast
  from decode_slice [OF b(1) laid_out_narrow [OF b(2) assms(2,3)]] show ?thesis
    by (simp add: INSN_LEN_def mult.commute)
qed

section \<open>Plain integer programs\<close>

text \<open>Opcodes of \<open>plain_ops\<close>, a final \<open>halt\<close>, no wide instruction.\<close>

definition plain_straight :: "decoded list \<Rightarrow> bool" where
  "plain_straight ds \<longleftrightarrow> ds \<noteq> [] \<and> d_op (last ds) = OpHalt \<and> (\<forall>d\<in>set (butlast ds). d_op d \<in> set plain_ops) \<and>
     (\<forall>d\<in>set ds. d_len d = 4)"

text \<open>The machine is about to run instruction \<open>k\<close> of \<open>f\<close> on these operands.\<close>

definition at_values :: "bytes \<Rightarrow> func_meta \<Rightarrow> vm \<Rightarrow> nat \<Rightarrow> val list \<Rightarrow> bool" where
  "at_values code f s k vs \<longleftrightarrow> (\<exists>fs g. runs s fs g vs \<and>
     nth_get (img_funcs (vm_image s)) (unat (func g)) = Some f \<and> unat (pc g) = k \<and> maxstack g = fm_maxstack f) \<and>
     img_code (vm_image s) = code \<and> pending s = None \<and> halt s = None"

abbreviation about_to :: "bytes \<Rightarrow> func_meta \<Rightarrow> vm \<Rightarrow> nat \<Rightarrow> i64 list \<Rightarrow> bool" where
  "about_to code f s k st \<equiv> at_values code f s k (ints st)"

lemmas about_to_def = at_values_def

lemma tick_exec:
  assumes "frames s \<noteq> []" and "pending s = None" and "halt s = None" and "unat (steps s) < unat (max_steps (limits s))"
    and "fetch s = Ok d"
  shows "tick s = (case exec d (s\<lparr>steps := steps s + 1\<rparr>) of
     (Ok _, t) \<Rightarrow> (Ok None, t) | (Err e, t) \<Rightarrow> (Err e, t) | (Panic, t) \<Rightarrow> (Panic, t))"
    and "unat (steps s + 1) = unat (steps s) + 1"
proof -
  show n: "unat (steps s + 1) = unat (steps s) + 1"
    using assms(4) unat_bound [of "max_steps (limits s)"] by (simp add: unat_word_ariths)
  then have "\<not> max_steps (limits s) < steps s + 1" using assms(4) by (simp add: word_less_nat_alt)
  moreover have "fetch (s\<lparr>steps := steps s + 1\<rparr>) = Ok d"
    using assms(5) by (simp add: fetch_def Let_def split: option.splits)
  ultimately show "tick s = (case exec d (s\<lparr>steps := steps s + 1\<rparr>) of
     (Ok _, t) \<Rightarrow> (Ok None, t) | (Err e, t) \<Rightarrow> (Err e, t) | (Panic, t) \<Rightarrow> (Panic, t))"
    using assms(1-3) by (simp add: tick_def slift_def sbind_def sthen_def sret_def split: prod.split res.split)
qed

lemma about_to_fetch:
  assumes "at_values code f s k vs" and "decode_range code f = Ok (ds, ats)" and "\<forall>d\<in>set ds. d_len d = 4"
    and "k < length ds"
  shows "fetch s = Ok (ds ! k)" and "frames s \<noteq> []"
proof -
  from assms(1) obtain fs g where g: "frames s = fs @ [g]" "nth_get (img_funcs (vm_image s)) (unat (func g)) = Some f"
    "unat (pc g) = k" "img_code (vm_image s) = code" by (auto simp: about_to_def runs_def)
  from narrow_fetch [OF assms(2-4)] g show "fetch s = Ok (ds ! k)" by (simp add: fetch_def)
  from g show "frames s \<noteq> []" by simp
qed

text \<open>One instruction of such a program.\<close>

lemma plain_step:
  assumes "about_to code f s k st" and "decode_range code f = Ok (ds, ats)" and "plain_straight ds" and "Suc k < length ds"
    and "scan_insn index nt nc (fm_maxstack f) k (ds ! k) (int (length tys), tys) = Ok (dp, tys')"
    and "length tys = length st" and "unat (steps s) < unat (max_steps (limits s))"
  shows "\<exists>t st'. calc (ds ! k) st = Some st' \<and> tick s = (Ok None, t) \<and> about_to code f t (Suc k) st' \<and>
     dp = int (length tys') \<and> length tys' = length st' \<and> limits t = limits s \<and> unat (steps t) = unat (steps s) + 1"
proof -
  let ?d = "ds ! k" and ?s = "s\<lparr>steps := steps s + 1\<rparr>"
  let ?row = "insn (d_op (ds ! k))"
  have "butlast ds ! k = ?d" "k < length (butlast ds)" using assms(4) by (simp_all add: nth_butlast)
  then have plain: "d_op ?d \<in> set plain_ops" using assms(3) unfolding plain_straight_def by (metis nth_mem)
  then have sound: "d_op ?d \<in> set sound_ops" by (simp add: sound_ops_def)
  from assms(1) obtain fs g where g: "runs s fs g (ints st)"
    "nth_get (img_funcs (vm_image s)) (unat (func g)) = Some f" "unat (pc g) = k" "maxstack g = fm_maxstack f"
    and rest: "img_code (vm_image s) = code" "pending s = None" "halt s = None" by (auto simp: about_to_def)
  from scan_insn_Ok [OF assms(5) sound] obtain got below where sc: "tys = got @ below"
    "list_all2 satisfies got (pops ?row)" "tys' = rev (pushes ?row) @ below" "dp = int (length tys')"
    "pushes ?row \<noteq> [] \<longrightarrow> length tys' \<le> unat (fm_maxstack f)" by blast
  have got: "length got = length (pops ?row)" by (rule list_all2_lengthD [OF sc(2)])
  then have "length (pops ?row) \<le> length st" using sc(1) assms(6) by simp
  from calc_op_depth(1) [OF plain this] obtain st' where st': "calc ?d st = Some st'" unfolding calc_def by blast
  then have len: "length tys' = length st'"
    using calc_op_depth(2) [OF plain, of "imm ?d" st st'] got sc(1,3) assms(6) by (simp add: calc_def)
  have "length st \<le> unat (maxstack g)" using runs_room [OF g(1)] by simp
  then have room: "length st' \<le> unat (maxstack g)"
    using sc(1,3,5) len assms(6) g(4) by (cases "pushes ?row = []") auto
  have "runs ?s fs g (ints st)" using g(1) by (simp add: runs_def)
  from calc_exec [OF plain this st' room] obtain h t where
    r: "exec ?d ?s = (Ok (), t)" "runs t fs h (ints st')" "moved_on g h" "same_run ?s t" by blast
  have "k < length ds" "\<forall>d\<in>set ds. d_len d = 4" using assms(3,4) by (simp_all add: plain_straight_def)
  note fetch = about_to_fetch [OF assms(1,2) this(2,1)]
  note tick = tick_exec [OF fetch(2) rest(2,3) assms(7) fetch(1)]
  have "length ds < 2 ^ 30" by (rule decode_range_small(2) [OF assms(2)])
  then have "unat (pc h) = Suc k" using r(3) g(3) assms(4) by (simp add: moved_on_def unat_word_ariths)
  then have "about_to code f t (Suc k) st'"
    using r g rest unfolding about_to_def same_run_def moved_on_def
    by (intro conjI exI [of _ fs] exI [of _ h]) auto
  with r tick st' len sc(4) show ?thesis by (simp add: same_run_def)
qed

lemma halt_step:
  assumes "at_values code f s k (vs @ [v])" and "decode_range code f = Ok (ds, ats)" and "\<forall>d\<in>set ds. d_len d = 4"
    and "k < length ds" and "d_op (ds ! k) = OpHalt" and "unat (steps s) < unat (max_steps (limits s))"
  shows "\<exists>u. run_loop s = Some (Ok (Halted (exit_code [v])), u)"
proof -
  let ?s = "s\<lparr>steps := steps s + 1\<rparr>" and ?n = "exit_code [v]"
  note fetch = about_to_fetch [OF assms(1-4)]
  from assms(1) obtain fs g where g: "runs s fs g (vs @ [v])"
    and rest: "pending s = None" "halt s = None" by (auto simp: about_to_def)
  then have "runs ?s fs g (vs @ [v])" by (simp add: runs_def)
  then obtain h where "on_frame pop ?s = (Ok v, ?s\<lparr>frames := fs @ [h]\<rparr>)" by (rule pop_view)
  then have "exec (ds ! k) ?s = (Ok (), ?s\<lparr>frames := [], halt := Some ?n\<rparr>)"
    using assms(5) by (simp add: exec_def ex_halt_def sbind_def sget_def sret_def)
  with tick_exec(1) [OF fetch(2) rest assms(6) fetch(1)]
  have "tick s = (Ok None, ?s\<lparr>frames := [], halt := Some ?n\<rparr>)" by simp
  then have "run_loop s = run_loop (?s\<lparr>frames := [], halt := Some ?n\<rparr>)" by (rule run_loop_tick)
  moreover have "tick (?s\<lparr>frames := [], halt := Some ?n\<rparr>) = (Ok (Some (Halted ?n)), ?s\<lparr>frames := [], halt := None\<rparr>)"
    using rest(1) by (simp add: tick_def)
  ultimately show ?thesis using run_loop_stop by fastforce
qed

text \<open>The walk of the verifier arrives at \<open>halt\<close> with a type to pop.\<close>

lemma halt_scanned:
  assumes "scan_insn index nt nc mx i d (int (length tys), tys) = Ok r" and "d_op d = OpHalt"
  shows "tys \<noteq> []"
  using assms by (auto simp: scan_insn_def stack_effect_def Let_def rbind_eq_Ok insn_eq mk_row_def split: if_splits)

theorem straight_runs:
  assumes "decode_range code f = Ok (ds, ats)" and "plain_straight ds" and "about_to code f s k st" and "k < length ds"
    and "scan index nt nc (fm_maxstack f) k (drop k ds) (int (length tys), tys) = Ok ()" and "length tys = length st"
    and "unat (steps s) + (length ds - k) \<le> unat (max_steps (limits s))"
  shows "\<exists>n st' t. calc_all (butlast (drop k ds)) st = Some (n # st') \<and> run_loop s = Some (Ok (Halted n), t)"
  using assms(3-)
proof (induction "length ds - Suc k" arbitrary: s k st tys)
  case 0
  then have k: "k = length ds - 1" by simp
  have op: "d_op (ds ! k) = OpHalt" using assms(2) k last_conv_nth [of ds] by (simp add: plain_straight_def)
  have one: "drop k ds = [ds ! k]" using k 0(3) by (simp add: Cons_nth_drop_Suc [symmetric])
  with 0(4) obtain r where "scan_insn index nt nc (fm_maxstack f) k (ds ! k) (int (length tys), tys) = Ok r"
    by (auto simp: rbind_eq_Ok)
  from halt_scanned [OF this op] 0(5) obtain n st0 where st: "st = n # st0" by (cases st) auto
  have "unat (steps s) < unat (max_steps (limits s))" using 0(6) 0(3) by linarith
  moreover have "at_values code f s k (ints st0 @ [v_int n])" using 0(2) by (simp add: st)
  moreover have "\<forall>d\<in>set ds. d_len d = 4" using assms(2) by (simp add: plain_straight_def)
  ultimately obtain u where "run_loop s = Some (Ok (Halted n), u)"
    using halt_step [OF _ assms(1) _ 0(3) op] by (fastforce simp: exit_code_def)
  with one st show ?case by auto
next
  case (Suc m)
  have k: "Suc k < length ds" using Suc(2) by simp
  have dr: "drop k ds = ds ! k # drop (Suc k) ds" using k by (simp add: Cons_nth_drop_Suc)
  with Suc.prems(3) obtain dp tys' where
    sc: "scan_insn index nt nc (fm_maxstack f) k (ds ! k) (int (length tys), tys) = Ok (dp, tys')"
    "scan index nt nc (fm_maxstack f) (Suc k) (drop (Suc k) ds) (dp, tys') = Ok ()"
    by (auto simp: rbind_eq_Ok)
  have "unat (steps s) < unat (max_steps (limits s))" using Suc.prems(5) k by linarith
  from plain_step [OF Suc.prems(1) assms(1,2) k sc(1) Suc.prems(4) this] obtain t st' where
    t: "calc (ds ! k) st = Some st'" "tick s = (Ok None, t)" "about_to code f t (Suc k) st'" "dp = int (length tys')"
    "length tys' = length st'" "limits t = limits s" "unat (steps t) = unat (steps s) + 1" by blast
  have "\<exists>n st'' u. calc_all (butlast (drop (Suc k) ds)) st' = Some (n # st'') \<and> run_loop t = Some (Ok (Halted n), u)"
    by (rule Suc.hyps(1)) (use Suc(2) Suc.prems(5) t k sc(2) in auto)
  moreover have "calc_all (butlast (drop k ds)) st = calc_all (butlast (drop (Suc k) ds)) st'"
    using k t(1) by (simp add: dr)
  ultimately show ?case using run_loop_tick [OF t(2)] by simp
qed

section \<open>From acceptance to the run\<close>

text \<open>What is assumed of \<open>src/src/image.rs\<close>: the accessors of a built image return what \<open>build\<close>
  was given, and sealing it does not change them.\<close>

definition keeps_parts :: "(obj \<Rightarrow> image) \<Rightarrow> (image \<Rightarrow> image) \<Rightarrow> bool" where
  "keeps_parts build_image mark_verified \<longleftrightarrow> (\<forall>x. mark_verified (build_image x) =
     \<lparr>img_constants = o_constants x, img_funcs = o_funcs x, img_tools = o_tools x, img_code = o_code x,
      img_jump_tables = o_jump_tables x\<rparr>)"

lemma check_functions_Ok:
  "check_functions code fs index tables n = Some (Ok ()) \<Longrightarrow> f \<in> set fs \<Longrightarrow>
     check_function code f index tables n = Some (Ok ())"
proof (induction fs)
  case (Cons g gs)
  then show ?case by (auto simp: obind_Some_Ok)
qed simp

lemma admit_Ok:
  assumes "admit seal_check build_image mark_verified x = Some (Ok im)"
  shows "im = mark_verified (build_image x)" and "o_funcs x \<noteq> []"
    and "\<And>f. f \<in> set (o_funcs x) \<Longrightarrow>
      check_function (o_code x) f (func_index (o_funcs x)) (o_jump_tables x) (length (o_constants x)) = Some (Ok ())"
  using assms check_functions_Ok by (auto simp: admit_def obind_Some_Ok split: if_splits)

lemma accepted_scan:
  assumes "check_function code f index tables n = Some (Ok ())" and "decode_range code f = Ok (ds, ats)"
  shows "scan index (length tables) n (fm_maxstack f) 0 ds (0, []) = Ok ()"
proof -
  from check_function_Ok [OF assms(1)] obtain g where g: "build code f tables = Some (Ok g)"
    "check_graph index (length tables) n (fm_maxstack f) g = Ok ()" by blast
  from build_Ok(2) [OF g(1)] check_graph_Ok(1) [OF g(2)] assms(2) show ?thesis by simp
qed

lemma vm_new_first_frame:
  assumes "vm_new im lim = Ok s" and "length (img_funcs im) < 2 ^ 32"
  shows "\<exists>g. frames s = [g] \<and> frame_wf g \<and> operands g = [] \<and> pc g = 0 \<and> unat (func g) < length (img_funcs im) \<and>
     maxstack g = fm_maxstack (img_funcs im ! unat (func g)) \<and> vm_image s = im \<and> limits s = lim \<and>
     steps s = 0 \<and> pending s = None \<and> halt s = None"
proof -
  have "unat (of_nat k :: u32) = k" if "k < length (img_funcs im)" for k
    using that assms(2) by (simp add: unat_of_nat)
  with assms(1) show ?thesis
    by (auto simp: vm_new_def Let_def nth_get_def frame_new_facts split: option.splits if_splits)
qed

lemma accepted_start:
  assumes "admit seal_check build_image mark_verified x = Some (Ok im)" and "keeps_parts build_image mark_verified"
    and "vm_new im lim = Ok s" and "length (o_funcs x) < 2 ^ 32"
  shows "\<exists>f\<in>set (o_funcs x). about_to (o_code x) f s 0 [] \<and> limits s = lim \<and> steps s = 0"
proof -
  have im: "img_funcs im = o_funcs x" "img_code im = o_code x"
    using assms(2) by (simp_all add: admit_Ok(1) [OF assms(1)] keeps_parts_def)
  from vm_new_first_frame [OF assms(3)] assms(4) im obtain g where fr: "frames s = [g]"
    and g: "frame_wf g" "operands g = []" "pc g = 0" and fn: "unat (func g) < length (o_funcs x)"
    and mx: "maxstack g = fm_maxstack (o_funcs x ! unat (func g))"
    and st: "vm_image s = im" "limits s = lim" "steps s = 0" "pending s = None" "halt s = None" by auto
  have "about_to (o_code x) (o_funcs x ! unat (func g)) s 0 []"
    using fr g fn st mx im
    by (auto simp: about_to_def runs_def nth_get_def intro!: exI [of _ "[]"] exI [of _ g])
  with fn st(2,3) show ?thesis by (intro bexI [of _ "o_funcs x ! unat (func g)"]) auto
qed

theorem accepted_straight_halts:
  assumes "admit seal_check build_image mark_verified x = Some (Ok im)" and "keeps_parts build_image mark_verified"
    and "vm_new im lim = Ok s" and "length (o_funcs x) < 2 ^ 32"
    and "\<forall>f\<in>set (o_funcs x). \<exists>ds ats. decode_range (o_code x) f = Ok (ds, ats) \<and>
      plain_straight ds \<and> length ds \<le> unat (max_steps lim)"
  shows "\<exists>f\<in>set (o_funcs x). \<exists>ds ats n st t. decode_range (o_code x) f = Ok (ds, ats) \<and>
     calc_all (butlast ds) [] = Some (n # st) \<and> vm_step None s = Some (Ok (Halted n), t)"
proof -
  from accepted_start [OF assms(1-4)] obtain f where f: "f \<in> set (o_funcs x)"
    and at: "about_to (o_code x) f s 0 []" and st: "limits s = lim" "steps s = 0" by blast
  from f assms(5) obtain ds ats where ds: "decode_range (o_code x) f = Ok (ds, ats)" "plain_straight ds"
    "length ds \<le> unat (max_steps lim)" by blast
  have "0 < length ds" using ds(2) by (simp add: plain_straight_def)
  then have "\<exists>n st' t. calc_all (butlast (drop 0 ds)) [] = Some (n # st') \<and> run_loop s = Some (Ok (Halted n), t)"
    using straight_runs [OF ds(1,2) at, of "func_index (o_funcs x)" "length (o_jump_tables x)" "length (o_constants x)" "[]"]
      accepted_scan [OF admit_Ok(3) [OF assms(1) f] ds(1)] ds(3) st by simp
  then obtain n st' t where "calc_all (butlast ds) [] = Some (n # st')" "run_loop s = Some (Ok (Halted n), t)" by auto
  then show ?thesis using f ds(1) by (auto simp: vm_step_def intro!: bexI [of _ f])
qed

end
