(* ===== verification/CV_Sound.thy ===== *)
theory CV_Sound
  imports CV_Straight
begin

text \<open>
  Type soundness of whole programs: a function of narrow instructions made of opcodes in \<open>sound_ops\<close>
  (the plain integer ones, \<open>div\<close> and \<open>mod\<close>, constants, arguments and lengths, forks and budgets; no
  branch, no call, no list) and a final \<open>halt\<close>, that \<open>admit\<close> of
  \<open>src/src/verify.rs\<close> accepts does not panic, is not stopped by the host, and fails with none of
  the codes that acceptance is to exclude.
\<close>

definition sound_straight :: "decoded list \<Rightarrow> bool" where
  "sound_straight ds \<longleftrightarrow> ds \<noteq> [] \<and> d_op (last ds) = OpHalt \<and> (\<forall>d\<in>set (butlast ds). d_op d \<in> set sound_ops) \<and>
     (\<forall>d\<in>set ds. d_len d = 4)"

text \<open>What a run of an accepted program may come to.\<close>

definition goes_right :: "step result \<Rightarrow> bool" where
  "goes_right r = (case r of
     Ok (Halted n) \<Rightarrow> True | Ok (StepTrap tr) \<Rightarrow> False | Err e \<Rightarrow> dcode e \<notin> set stack_codes | Panic \<Rightarrow> False)"

text \<open>One instruction.\<close>

lemma sound_step:
  assumes "at_values code f s k vs" and "decode_range code f = Ok (ds, ats)" and "\<forall>d\<in>set ds. d_len d = 4"
    and "Suc k < length ds" and "d_op (ds ! k) \<in> set sound_ops" and "list_all2 typed (rev vs) tys"
    and "scan_insn index nt nc (fm_maxstack f) k (ds ! k) (int (length tys), tys) = Ok (dp, tys')"
    and "unat (steps s) < unat (max_steps (limits s))"
  shows "case tick s of
     (Ok x, t) \<Rightarrow> x = None \<and> dp = int (length tys') \<and> limits t = limits s \<and> unat (steps t) = unat (steps s) + 1 \<and>
       (\<exists>us. at_values code f t (Suc k) us \<and> list_all2 typed (rev us) tys')
   | (Err e, t) \<Rightarrow> dcode e \<notin> set stack_codes
   | (Panic, t) \<Rightarrow> False"
proof -
  let ?s = "s\<lparr>steps := steps s + 1\<rparr>"
  from assms(1) obtain fs g where g: "runs s fs g vs"
    "nth_get (img_funcs (vm_image s)) (unat (func g)) = Some f" "unat (pc g) = k" "maxstack g = fm_maxstack f"
    and rest: "img_code (vm_image s) = code" "pending s = None" "halt s = None" by (auto simp: at_values_def)
  note fetch = about_to_fetch [OF assms(1-3) Suc_lessD [OF assms(4)]]
  note tick = tick_exec [OF fetch(2) rest(2,3) assms(8) fetch(1)]
  have "runs ?s fs g vs" using g(1) by (simp add: runs_def)
  note ran = abstract_stack_follows [OF assms(5) this assms(6) assms(7) [folded g(4)]]
  obtain r t where e: "exec (ds ! k) ?s = (r, t)" by fastforce
  show ?thesis
  proof (cases r)
    case (Ok u)
    with ran e obtain h us where dp: "dp = int (length tys')" and h: "runs t fs h us" "list_all2 typed (rev us) tys'"
      "moved_on g h" "same_run ?s t" by auto
    have "length ds < 2 ^ 30" by (rule decode_range_small(2) [OF assms(2)])
    then have "unat (pc h) = Suc k" using h(3) g(3) assms(4) by (simp add: moved_on_def unat_word_ariths)
    then have "at_values code f t (Suc k) us"
      using h g rest unfolding at_values_def same_run_def moved_on_def
      by (intro conjI exI [of _ fs] exI [of _ h]) auto
    with h dp tick e Ok show ?thesis by (auto simp: same_run_def)
  qed (use ran e tick in auto)
qed

theorem sound_runs:
  assumes "decode_range code f = Ok (ds, ats)" and "sound_straight ds" and "at_values code f s k vs" and "k < length ds"
    and "scan index nt nc (fm_maxstack f) k (drop k ds) (int (length tys), tys) = Ok ()" and "list_all2 typed (rev vs) tys"
    and "unat (steps s) + (length ds - k) \<le> unat (max_steps (limits s))"
  shows "\<exists>r t. run_loop s = Some (r, t) \<and> goes_right r"
  using assms(3-)
proof (induction "length ds - Suc k" arbitrary: s k vs tys)
  case 0
  then have k: "k = length ds - 1" by simp
  have op: "d_op (ds ! k) = OpHalt" and narrow: "\<forall>d\<in>set ds. d_len d = 4"
    using assms(2) k last_conv_nth [of ds] by (simp_all add: sound_straight_def)
  have "drop k ds = [ds ! k]" using k 0(3) by (simp add: Cons_nth_drop_Suc [symmetric])
  with 0(4) obtain r where "scan_insn index nt nc (fm_maxstack f) k (ds ! k) (int (length tys), tys) = Ok r"
    by (auto simp: rbind_eq_Ok)
  from halt_scanned [OF this op] 0(5) obtain vs0 v where "vs = vs0 @ [v]" by (cases vs rule: rev_cases) auto
  then have "at_values code f s k (vs0 @ [v])" using 0(2) by simp
  moreover have "unat (steps s) < unat (max_steps (limits s))" using 0(6) 0(3) by linarith
  ultimately show ?case using halt_step [OF _ assms(1) narrow 0(3) op] by (fastforce simp: goes_right_def)
next
  case (Suc m)
  have k: "Suc k < length ds" using Suc(2) by simp
  have narrow: "\<forall>d\<in>set ds. d_len d = 4" using assms(2) by (simp add: sound_straight_def)
  have "butlast ds ! k = ds ! k" "k < length (butlast ds)" using k by (simp_all add: nth_butlast)
  then have op: "d_op (ds ! k) \<in> set sound_ops" using assms(2) unfolding sound_straight_def by (metis nth_mem)
  have "drop k ds = ds ! k # drop (Suc k) ds" using k by (simp add: Cons_nth_drop_Suc)
  with Suc.prems(3) obtain dp tys' where
    sc: "scan_insn index nt nc (fm_maxstack f) k (ds ! k) (int (length tys), tys) = Ok (dp, tys')"
    "scan index nt nc (fm_maxstack f) (Suc k) (drop (Suc k) ds) (dp, tys') = Ok ()"
    by (auto simp: rbind_eq_Ok)
  have "unat (steps s) < unat (max_steps (limits s))" using Suc.prems(5) k by linarith
  note one = sound_step [OF Suc.prems(1) assms(1) narrow k op Suc.prems(4) sc(1) this]
  obtain r t where t: "tick s = (r, t)" by fastforce
  show ?case
  proof (cases r)
    case (Ok x)
    with one t obtain us where u: "x = None" "dp = int (length tys')" "limits t = limits s"
      "unat (steps t) = unat (steps s) + 1" "at_values code f t (Suc k) us" "list_all2 typed (rev us) tys'" by auto
    have "\<exists>q u. run_loop t = Some (q, u) \<and> goes_right q"
      by (rule Suc.hyps(1)) (use Suc(2) Suc.prems(5) u k sc(2) in auto)
    moreover have "run_loop s = run_loop t" using run_loop_tick t Ok u(1) by simp
    ultimately show ?thesis by simp
  next
    case (Err e)
    with one t run_loop.simps [of s] show ?thesis by (simp add: goes_right_def)
  next
    case Panic
    with one t show ?thesis by simp
  qed
qed

theorem accepted_straight_sound:
  assumes "admit seal_check build_image mark_verified x = Some (Ok im)" and "keeps_parts build_image mark_verified"
    and "vm_new im lim = Ok s" and "length (o_funcs x) < 2 ^ 32"
    and "\<forall>f\<in>set (o_funcs x). \<exists>ds ats. decode_range (o_code x) f = Ok (ds, ats) \<and>
      sound_straight ds \<and> length ds \<le> unat (max_steps lim)"
  shows "\<exists>r t. vm_step None s = Some (r, t) \<and> goes_right r"
proof -
  from accepted_start [OF assms(1-4)] obtain f where f: "f \<in> set (o_funcs x)"
    and at: "at_values (o_code x) f s 0 []" and st: "limits s = lim" "steps s = 0" by auto
  from f assms(5) obtain ds ats where ds: "decode_range (o_code x) f = Ok (ds, ats)" "sound_straight ds"
    "length ds \<le> unat (max_steps lim)" by blast
  have "0 < length ds" using ds(2) by (simp add: sound_straight_def)
  then show ?thesis
    using sound_runs [OF ds(1,2) at, of "func_index (o_funcs x)" "length (o_jump_tables x)" "length (o_constants x)" "[]"]
      accepted_scan [OF admit_Ok(3) [OF assms(1) f] ds(1)] ds(3) st by (simp add: vm_step_def)
qed

end
