(* ===== verification/CV_Lex.thy ===== *)
theory CV_Lex
  imports CV_Text CV_Diag
begin

text \<open>
  The tokenizer of \<open>.cdx\<close> text, \<open>src/src/lex.rs\<close>. A position is a byte index; \<open>line\<close> and \<open>col\<close>
  are the words the code counts with. A scanning loop of the code (\<open>while i < len && p(bytes[i])\<close>)
  is \<open>takeWhile\<close>. Text is bytes: \<open>String::push(byte as char)\<close> of a byte above 127 appends its two
  UTF-8 bytes (\<open>latin1\<close>).
\<close>

section \<open>Tokens\<close>

datatype tok =
    TDirective bytes | TLabel bytes | TIdent bytes | TInt i64 | TStr bytes | TNewline | TEnd

record token =
  t_tok :: tok
  t_span :: span

definition err_at :: "code \<Rightarrow> span \<Rightarrow> 'a result" where
  "err_at c s = Err (diag_at (diag_new c) s)"

lemma err_at_simps [simp]: "err_at c s \<noteq> Ok x" "err_at c s \<noteq> Panic" "Ok x \<noteq> err_at c s" "Panic \<noteq> err_at c s"
  "rbind (err_at c s) f = err_at c s"
  by (simp_all add: err_at_def)

section \<open>Bytes\<close>

definition is_digit :: "u8 \<Rightarrow> bool" where
  "is_digit b \<longleftrightarrow> 0x30 \<le> b \<and> b \<le> 0x39"

definition is_alpha :: "u8 \<Rightarrow> bool" where
  "is_alpha b \<longleftrightarrow> 0x41 \<le> b \<and> b \<le> 0x5A \<or> 0x61 \<le> b \<and> b \<le> 0x7A"

text \<open>What continues the name of a directive (letters, digits, underscore), and an identifier
  (these, a hyphen or a slash).\<close>

definition name_byte :: "u8 \<Rightarrow> bool" where
  "name_byte b \<longleftrightarrow> is_alpha b \<or> is_digit b \<or> b = 0x5F"

definition ident_byte :: "u8 \<Rightarrow> bool" where
  "ident_byte b \<longleftrightarrow> name_byte b \<or> b = 0x2D \<or> b = 0x2F"

definition ident_start :: "u8 \<Rightarrow> bool" where
  "ident_start b \<longleftrightarrow> is_alpha b \<or> b = 0x5F"

definition latin1 :: "u8 \<Rightarrow> bytes" where
  "latin1 b = (if b < 0x80 then [b] else [or 0xC0 (drop_bit 6 b), or 0x80 (and b 0x3F)])"

definition escape :: "u8 \<Rightarrow> u8 option" where
  "escape b =
     (if b = 0x6E then Some 0x0A else if b = 0x74 then Some 0x09 else if b = 0x72 then Some 0x0D
      else if b = 0x5C then Some 0x5C else if b = 0x22 then Some 0x22 else if b = 0x30 then Some 0x00
      else None)"

text \<open>\<open>value.saturating_mul(10).saturating_add(digit)\<close>; the value is never negative.\<close>

definition sat_digit :: "int \<Rightarrow> u8 \<Rightarrow> int" where
  "sat_digit v b = min (2 ^ 63 - 1) (min (2 ^ 63 - 1) (v * 10) + int (unat (b - 0x30)))"

definition digits_value :: "bytes \<Rightarrow> int" where
  "digits_value ds = foldl sat_digit 0 ds"

section \<open>Strings\<close>

function lex_string_from ::
    "bytes \<Rightarrow> nat \<Rightarrow> u32 \<Rightarrow> u32 \<Rightarrow> nat \<Rightarrow> u32 \<Rightarrow> bytes \<Rightarrow> (bytes \<times> nat \<times> u32) result" where
  "lex_string_from src start line col i c s =
     (if i < length src then
        (if src ! i = 0x22 then Ok (s, i + 1, c + 1)
         else if src ! i = 0x0A then
           err_at UnterminatedString (span_new (of_nat start) (of_nat i) line col)
         else if src ! i = 0x5C then
           (if length src \<le> i + 1 then
              err_at UnterminatedString (span_new (of_nat start) (of_nat (i + 1)) line col)
            else (case escape (src ! (i + 1)) of
                None \<Rightarrow> err_at BadEscape (span_new (of_nat start) (of_nat (i + 1)) line col)
              | Some e \<Rightarrow> lex_string_from src start line col (i + 2) (c + 2) (s @ latin1 e)))
         else lex_string_from src start line col (i + 1) (c + 1) (s @ latin1 (src ! i)))
      else err_at UnterminatedString (span_new (of_nat start) (of_nat i) line col))"
  by pat_completeness auto
termination
  by (relation "measure (\<lambda>(src, start, line, col, i, c, s). length src - i)") auto

declare lex_string_from.simps [simp del]

definition lex_string :: "bytes \<Rightarrow> nat \<Rightarrow> u32 \<Rightarrow> u32 \<Rightarrow> (bytes \<times> nat \<times> u32) result" where
  "lex_string src start line col = lex_string_from src start line col (start + 1) (col + 1) []"

section \<open>One turn of the loop\<close>

definition lex_step ::
    "bytes \<Rightarrow> nat \<Rightarrow> u32 \<Rightarrow> u32 \<Rightarrow> (token option \<times> nat \<times> u32 \<times> u32) result" where
  "lex_step src i line col =
     (let b = src ! i;
          emit = (\<lambda>t e line' col' sp. Ok (Some \<lparr>t_tok = t, t_span = sp\<rparr>, e, line', col')) in
      if b = 0x20 \<or> b = 0x09 \<or> b = 0x0D then Ok (None, i + 1, line, col + 1)
      else if b = 0x0A then
        emit TNewline (i + 1) (line + 1) 1 (span_new (of_nat i) (of_nat i + 1) line col)
      else if b = 0x23 then
        (let n = length (takeWhile (\<lambda>c. c \<noteq> 0x0A) (drop i src))
         in Ok (None, i + n, line, col + of_nat n))
      else if b = 0x22 then
        rbind (lex_string src i line col) (\<lambda>(s, e, ncol).
          emit (TStr s) e line ncol (span_new (of_nat i) (of_nat e) line col))
      else if b = 0x2E then
        (let name = takeWhile name_byte (drop (i + 1) src);
             e = i + 1 + length name; c = col + 1 + of_nat (length name);
             sp = span_new (of_nat i) (of_nat e) line c
         in if name = [] then err_at StrayChar sp else emit (TDirective name) e line c sp)
      else if is_digit b then
        (let ds = takeWhile is_digit (drop i src); e = i + length ds; c = col + of_nat (length ds)
         in emit (TInt (word_of_int (digits_value ds))) e line c (span_new (of_nat i) (of_nat e) line c))
      else if b = 0x2D then
        (if i + 1 < length src \<and> src ! (i + 1) = 0x3E then
           emit (TIdent [0x2D, 0x3E]) (i + 2) line (col + 2)
             (span_new (of_nat i) (of_nat (i + 1) + 1) line (col + 1))
         else
           (let ds = takeWhile is_digit (drop (i + 1) src); e = i + 1 + length ds;
                c = col + 1 + of_nat (length ds); sp = span_new (of_nat i) (of_nat e) line c
            in if ds = [] then err_at BadNumber sp
               else emit (TInt (word_of_int (- digits_value ds))) e line c sp))
      else if b = 0x3A then err_at StrayChar (span_new (of_nat i) (of_nat i + 1) line col)
      else if b = 0x28 \<or> b = 0x29 \<or> b = 0x2C then
        emit (TIdent [b]) (i + 1) line (col + 1) (span_new (of_nat i) (of_nat i + 1) line col)
      else if ident_start b then
        (let name = takeWhile ident_byte (drop i src); e = i + length name; c = col + of_nat (length name)
         in if e < length src \<and> src ! e = 0x3A
            then emit (TLabel name) (e + 1) line (c + 1) (span_new (of_nat i) (of_nat e + 1) line c)
            else emit (TIdent name) e line c (span_new (of_nat i) (of_nat e) line c))
      else err_at StrayChar (span_new (of_nat i) (of_nat i + 1) line col))"

text \<open>Every turn consumes something.\<close>

lemma lex_string_progress:
  "lex_string_from src start line col i c s = Ok (s', e, c') \<Longrightarrow> i < e \<and> e \<le> length src"
proof (induction src start line col i c s rule: lex_string_from.induct)
  case (1 src start line col i c s)
  then show ?case
    by (subst (asm) (3) lex_string_from.simps) (fastforce split: if_splits option.splits)
qed

lemma takeWhile_ne: "i < length src \<Longrightarrow> p (src ! i) \<Longrightarrow> 0 < length (takeWhile p (drop i src))"
  by (simp add: Cons_nth_drop_Suc [symmetric])

lemma lex_step_progress:
  assumes "lex_step src i line col = Ok (t, e, line', col')" and "i < length src"
  shows "i < e"
proof -
  have "ident_start b \<Longrightarrow> ident_byte b" for b by (auto simp: ident_start_def ident_byte_def name_byte_def)
  with assms takeWhile_ne [of i src] show ?thesis
    by (auto simp: lex_step_def lex_string_def Let_def rbind_eq_Ok dest: lex_string_progress split: if_splits)
qed

section \<open>The loop\<close>

function lex_from :: "bytes \<Rightarrow> nat \<Rightarrow> u32 \<Rightarrow> u32 \<Rightarrow> token list \<Rightarrow> token list result" where
  "lex_from src i line col out =
     (if i < length src then
        (case lex_step src i line col of
           Ok (t, e, line', col') \<Rightarrow>
             lex_from src e line' col' (case t of None \<Rightarrow> out | Some x \<Rightarrow> out @ [x])
         | Err e \<Rightarrow> Err e
         | Panic \<Rightarrow> Panic)
      else Ok (out @ [\<lparr>t_tok = TEnd, t_span = span_new (of_nat (length src)) (of_nat (length src)) line col\<rparr>]))"
  by pat_completeness auto
termination
  by (relation "measure (\<lambda>(src, i, _). length src - i)") (auto dest: lex_step_progress)

declare lex_from.simps [simp del]

definition lex :: "bytes \<Rightarrow> token list result" where
  "lex src = lex_from src 0 1 1 []"

section \<open>What comes out\<close>

lemma lex_string_no_panic: "lex_string_from src start line col i c s \<noteq> Panic"
proof (induction src start line col i c s rule: lex_string_from.induct)
  case (1 src start line col i c s)
  then show ?case by (subst lex_string_from.simps) (auto split: option.splits)
qed

lemma lex_step_no_panic: "lex_step src i line col \<noteq> Panic"
  by (auto simp: lex_step_def lex_string_def Let_def rbind_eq_Panic lex_string_no_panic)

text \<open>The list ends with the only end token.\<close>

lemma lex_step_tok: "lex_step src i line col = Ok (Some t, e) \<Longrightarrow> t_tok t \<noteq> TEnd"
  by (auto simp: lex_step_def Let_def rbind_eq_Ok split: if_splits prod.splits)

lemma lex_from_shape:
  assumes "lex_from src i line col out = Ok ts" and "\<forall>t\<in>set out. t_tok t \<noteq> TEnd"
  shows "ts \<noteq> [] \<and> t_tok (last ts) = TEnd \<and> (\<forall>t\<in>set (butlast ts). t_tok t \<noteq> TEnd)"
  using assms
proof (induction src i line col out rule: lex_from.induct)
  case (1 src i line col out)
  show ?case
  proof (cases "i < length src")
    case True
    with 1(2) obtain t e l c where st: "lex_step src i line col = Ok (t, e, l, c)"
      by (subst (asm) lex_from.simps) (auto split: res.splits)
    have "lex_from src e l c (case t of None \<Rightarrow> out | Some x \<Rightarrow> out @ [x]) = Ok ts"
      using 1(2) True st by (subst (asm) lex_from.simps) simp
    from 1(1) [OF True st refl refl refl this] 1(3) lex_step_tok st show ?thesis by (cases t) auto
  next
    case False
    with 1(2,3) show ?thesis by (subst (asm) lex_from.simps) auto
  qed
qed

theorem lex_ends:
  "lex src \<noteq> Panic"
  "lex src = Ok ts \<Longrightarrow> ts \<noteq> [] \<and> t_tok (last ts) = TEnd \<and> (\<forall>t\<in>set (butlast ts). t_tok t \<noteq> TEnd)"
proof -
  have "lex_from src i line col out \<noteq> Panic" for i line col out
  proof (induction src i line col out rule: lex_from.induct)
    case (1 src i line col out)
    then show ?case by (subst lex_from.simps) (auto simp: lex_step_no_panic split: res.splits)
  qed
  then show "lex src \<noteq> Panic" by (simp add: lex_def)
  show "lex src = Ok ts \<Longrightarrow> ts \<noteq> [] \<and> t_tok (last ts) = TEnd \<and> (\<forall>t\<in>set (butlast ts). t_tok t \<noteq> TEnd)"
    using lex_from_shape [of src 0 1 1 "[]"] by (simp add: lex_def)
qed

end
