(* ===== verification/CV_LexRound.thy ===== *)
theory CV_LexRound
  imports CV_Lex
begin

text \<open>
  The tokenizer of \<open>src/src/lex.rs\<close> against a printer: tokens set with any gaps that keep them apart
  are read back. The printer is a specification; the repository has none.
\<close>

section \<open>The printer\<close>

definition show_char :: "u8 \<Rightarrow> bytes" where
  "show_char b = (if b = 0x22 \<or> b = 0x5C then [0x5C, b] else if b = 0x0A then [0x5C, 0x6E] else [b])"

primrec show_tok :: "tok \<Rightarrow> bytes" where
  "show_tok (TDirective s) = 0x2E # s"
| "show_tok (TLabel s) = s @ [0x3A]"
| "show_tok (TIdent s) = s"
| "show_tok (TInt n) = show_i64 n"
| "show_tok (TStr s) = 0x22 # concat (map show_char s) @ [0x22]"
| "show_tok TNewline = [0x0A]"
| "show_tok TEnd = []"

definition show_toks :: "tok list \<Rightarrow> bytes" where
  "show_toks ts = concat (map (\<lambda>t. show_tok t @ [0x20]) ts)"

definition name_ok :: "bytes \<Rightarrow> bool" where
  "name_ok s \<longleftrightarrow> s \<noteq> [] \<and> ident_start (hd s) \<and> list_all ident_byte s"

text \<open>What can be written down at all, and what comes back of it: the digits of the least \<open>i64\<close>
  saturate, so the number above it is read; every byte above 127 of a string comes back as the two
  bytes of its UTF-8 encoding. All else comes back as it is (\<open>tok_ok\<close>).\<close>

primrec tok_shown :: "tok \<Rightarrow> bool" where
  "tok_shown (TDirective s) \<longleftrightarrow> s \<noteq> [] \<and> list_all name_byte s"
| "tok_shown (TLabel s) \<longleftrightarrow> name_ok s"
| "tok_shown (TIdent s) \<longleftrightarrow> name_ok s \<or> s \<in> {[0x28], [0x29], [0x2C], [0x2D, 0x3E]}"
| "tok_shown (TInt n) \<longleftrightarrow> True"
| "tok_shown (TStr s) \<longleftrightarrow> True"
| "tok_shown TNewline \<longleftrightarrow> True"
| "tok_shown TEnd \<longleftrightarrow> False"

primrec read_back :: "tok \<Rightarrow> tok" where
  "read_back (TDirective s) = TDirective s"
| "read_back (TLabel s) = TLabel s"
| "read_back (TIdent s) = TIdent s"
| "read_back (TInt n) = TInt (if sint n = - (2 ^ 63) then n + 1 else n)"
| "read_back (TStr s) = TStr (concat (map latin1 s))"
| "read_back TNewline = TNewline"
| "read_back TEnd = TEnd"

primrec tok_ok :: "tok \<Rightarrow> bool" where
  "tok_ok (TDirective s) \<longleftrightarrow> s \<noteq> [] \<and> list_all name_byte s"
| "tok_ok (TLabel s) \<longleftrightarrow> name_ok s"
| "tok_ok (TIdent s) \<longleftrightarrow> name_ok s \<or> s \<in> {[0x28], [0x29], [0x2C], [0x2D, 0x3E]}"
| "tok_ok (TInt n) \<longleftrightarrow> sint n \<noteq> - (2 ^ 63)"
| "tok_ok (TStr s) \<longleftrightarrow> list_all (\<lambda>b. b < 0x80) s"
| "tok_ok TNewline \<longleftrightarrow> True"
| "tok_ok TEnd \<longleftrightarrow> False"

lemma tok_ok_shown: "tok_ok t \<Longrightarrow> tok_shown t \<and> read_back t = t"
proof -
  have "list_all (\<lambda>b. b < 0x80) s \<Longrightarrow> concat (map latin1 s) = s" for s
    by (induction s) (simp_all add: latin1_def)
  then show "tok_ok t \<Longrightarrow> tok_shown t \<and> read_back t = t" by (cases t) auto
qed

section \<open>Numbers\<close>

lemma digits_small: "d \<in> set (digits 10 n) \<Longrightarrow> d < 10"
proof (induction "10 :: nat" n rule: digits.induct)
  case (1 n)
  then show ?case by (subst (asm) (2) digits.simps) (auto split: if_splits)
qed

lemma digit_byte_digit: "d < 10 \<Longrightarrow> is_digit (digit_byte d) \<and> unat (digit_byte d - 0x30) = d"
proof -
  assume "d < 10"
  then have "d \<in> {0, 1, 2, 3, 4, 5, 6, 7, 8, 9}" by auto
  then show ?thesis by (auto simp: digit_byte_def is_digit_def)
qed

lemma digits_value_snoc: "digits_value (ds @ [b]) = sat_digit (digits_value ds) b"
  by (simp add: digits_value_def)

lemma sat_digit_min:
  "sat_digit (min (2 ^ 63 - 1) (int k)) b = min (2 ^ 63 - 1) (int (k * 10 + unat (b - 0x30)))"
proof -
  have "min M (min M (min M m * 10) + d) = min M (m * 10 + d)" if "0 \<le> m" "0 \<le> d" "0 < M" for M m d :: int
    using that by (auto simp: min_def)
  from this [of "int k" "int (unat (b - 0x30))" "2 ^ 63 - 1"] show ?thesis by (simp add: sat_digit_def)
qed

lemma digits_value_show: "digits_value (show_nat n) = min (2 ^ 63 - 1) (int n)"
  unfolding show_nat_def
proof (induction "10 :: nat" n rule: digits.induct)
  case (1 n)
  show ?case
  proof (cases "n < 10")
    case True
    then show ?thesis
      using digit_byte_digit [of n] by (subst digits.simps) (simp add: digits_value_def sat_digit_def)
  next
    case False
    then have d: "digits 10 n = digits 10 (n div 10) @ [n mod 10]" by (subst digits.simps) simp
    have u: "unat (digit_byte (n mod 10) - 0x30) = n mod 10" using digit_byte_digit [of "n mod 10"] by simp
    have "digits_value (map digit_byte (digits 10 n)) =
        sat_digit (min (2 ^ 63 - 1) (int (n div 10))) (digit_byte (n mod 10))"
      using 1 False by (simp add: d digits_value_snoc)
    also have "\<dots> = min (2 ^ 63 - 1) (int (n div 10 * 10 + n mod 10))" unfolding sat_digit_min u ..
    finally show ?thesis by (simp only: div_mult_mod_eq)
  qed
qed

lemma show_nat_digits: "list_all is_digit (show_nat n)" "show_nat n \<noteq> []"
proof -
  show "list_all is_digit (show_nat n)"
    using digits_small digit_byte_digit by (auto simp: show_nat_def list_all_iff)
  show "show_nat n \<noteq> []" by (subst show_nat_def, subst digits.simps) simp
qed

section \<open>Scanning one token\<close>

text \<open>What may come after the text of a token: a name ends before a byte that cannot continue it,
  an identifier not before a colon either, an integer before anything but a digit.\<close>

definition ends_before :: "(u8 \<Rightarrow> bool) \<Rightarrow> bytes \<Rightarrow> bool" where
  "ends_before p rest \<longleftrightarrow> rest = [] \<or> \<not> p (hd rest)"

primrec may_follow :: "tok \<Rightarrow> bytes \<Rightarrow> bool" where
  "may_follow (TDirective s) rest \<longleftrightarrow> ends_before name_byte rest"
| "may_follow (TLabel s) rest \<longleftrightarrow> True"
| "may_follow (TIdent s) rest \<longleftrightarrow> s \<in> {[0x28], [0x29], [0x2C], [0x2D, 0x3E]} \<or>
     ends_before (\<lambda>b. ident_byte b \<or> b = 0x3A) rest"
| "may_follow (TInt n) rest \<longleftrightarrow> ends_before is_digit rest"
| "may_follow (TStr s) rest \<longleftrightarrow> True"
| "may_follow TNewline rest \<longleftrightarrow> True"
| "may_follow TEnd rest \<longleftrightarrow> True"

lemma takeWhile_stop: "list_all p xs \<Longrightarrow> ends_before p rest \<Longrightarrow> takeWhile p (xs @ rest) = xs"
  by (induction xs) (cases rest; auto simp: ends_before_def)+

lemma byte_classes:
  "\<not> name_byte 0x20" "\<not> ident_byte 0x20" "\<not> ident_byte 0x3A" "\<not> is_digit 0x20" "\<not> is_digit 0x2D"
  "\<not> ident_start 0x2D" "is_digit b \<Longrightarrow> b \<notin> {0x20, 0x09, 0x0D, 0x0A, 0x23, 0x22, 0x2E, 0x2D, 0x3E}"
  by (auto simp: name_byte_def ident_byte_def is_digit_def is_alpha_def ident_start_def)

lemma ident_start_class:
  "ident_start b \<Longrightarrow> b \<notin> {0x20, 0x09, 0x0D, 0x0A, 0x23, 0x22, 0x2E, 0x2D, 0x3A, 0x28, 0x29, 0x2C} \<and> \<not> is_digit b"
  by (auto simp: ident_start_def is_alpha_def is_digit_def word_le_nat_alt)

lemma string_reads:
  "\<exists>c'. lex_string_from (pre @ concat (map show_char s) @ 0x22 # rest) start line col (length pre) c acc =
       Ok (acc @ concat (map latin1 s), length pre + length (concat (map show_char s)) + 1, c')"
proof (induction s arbitrary: pre c acc)
  case Nil
  then show ?case by (subst lex_string_from.simps) simp
next
  case (Cons b s)
  from Cons.IH [of "pre @ show_char b"] obtain g where g: "\<And>c acc. lex_string_from
      ((pre @ show_char b) @ concat (map show_char s) @ 0x22 # rest) start line col (length (pre @ show_char b)) c acc =
      Ok (acc @ concat (map latin1 s), length (pre @ show_char b) + length (concat (map show_char s)) + 1, g c acc)" by simp metis
  then show ?case
    by (subst lex_string_from.simps) (auto simp: show_char_def nth_append escape_def latin1_def)
qed


lemma start_at: "(pre @ x # rest) ! length pre = x" "drop (length pre) (pre @ xs) = xs"
  "drop (Suc (length pre)) (pre @ x # xs) = xs" "(pre @ x # y # rest) ! Suc (length pre) = y"
  by (simp_all add: nth_append)

definition reads_tok :: "tok \<Rightarrow> bool" where
  "reads_tok t \<longleftrightarrow> (\<forall>pre rest line col. may_follow t rest \<longrightarrow> (\<exists>sp l c.
     lex_step (pre @ show_tok t @ rest) (length pre) line col =
       Ok (Some \<lparr>t_tok = read_back t, t_span = sp\<rparr>, length pre + length (show_tok t), l, c)))"

lemma reads_directive: "tok_shown (TDirective s) \<Longrightarrow> reads_tok (TDirective s)"
  by (simp add: reads_tok_def lex_step_def start_at takeWhile_stop Let_def del: drop_append)

lemma reads_newline: "reads_tok TNewline"
  by (simp add: reads_tok_def lex_step_def start_at Let_def del: drop_append)

lemma reads_string: "reads_tok (TStr s)"
  unfolding reads_tok_def
proof (intro allI impI)
  fix pre rest line col
  from string_reads [where s = s and pre = "pre @ [0x22]" and rest = rest and start = "length pre" and line = line
      and col = col and c = "col + 1" and acc = "[]"]
  obtain c where "lex_string (pre @ show_tok (TStr s) @ rest) (length pre) line col =
      Ok (concat (map latin1 s), length pre + length (show_tok (TStr s)), c)" by (auto simp: lex_string_def)
  then show "\<exists>sp l c. lex_step (pre @ show_tok (TStr s) @ rest) (length pre) line col =
      Ok (Some \<lparr>t_tok = read_back (TStr s), t_span = sp\<rparr>, length pre + length (show_tok (TStr s)), l, c)"
    by (simp add: lex_step_def start_at Let_def)
qed

lemma reads_name:
  assumes "name_ok s"
  shows "reads_tok (TIdent s)" and "reads_tok (TLabel s)"
proof -
  from assms obtain b bs where s: "s = b # bs" "ident_start b" "list_all ident_byte s"
    by (cases s) (auto simp: name_ok_def)
  have tw: "takeWhile ident_byte (s @ r) = s" if "ends_before ident_byte r" for r
    by (rule takeWhile_stop [OF s(3) that])
  have at: "(pre @ s @ r) ! length pre = b" for pre r using s(1) by (simp add: nth_append)
  have end_at: "(pre @ s @ r) ! (length pre + length s) = hd r" if "r \<noteq> []" for pre r
    using that by (simp add: nth_append hd_conv_nth)
  have end0: "(s @ r) ! length s = hd r" if "r \<noteq> []" for r using end_at [OF that, of "[]"] by simp
  have punct: "s \<notin> {[0x28], [0x29], [0x2C], [0x2D, 0x3E]}" using s(1,2) ident_start_class [OF s(2)] by auto
  have ends: "ends_before ident_byte r" "r \<noteq> [] \<Longrightarrow> hd r \<noteq> 0x3A" if "may_follow (TIdent s) r" for r
    using that punct by (auto simp: ends_before_def)
  show "reads_tok (TIdent s)"
    using ident_start_class [OF s(2)] s(2) ends(2)
    by (auto simp: reads_tok_def lex_step_def at end_at end0 start_at(2) tw [OF ends(1)] Let_def simp del: drop_append may_follow.simps)
  show "reads_tok (TLabel s)"
    using ident_start_class [OF s(2)] s(2)
    by (simp add: reads_tok_def lex_step_def at end_at start_at(2) tw ends_before_def byte_classes Let_def del: drop_append)
qed

lemma reads_punct: "s \<in> {[0x28], [0x29], [0x2C], [0x2D, 0x3E]} \<Longrightarrow> reads_tok (TIdent s)"
  by (elim insertE emptyE; simp add: reads_tok_def lex_step_def start_at is_digit_def Let_def del: drop_append)

lemma reads_int: "reads_tok (TInt n)"
proof (cases "sint n < 0")
  case True
  let ?ds = "show_nat (nat (- sint n))"
  have lo: "- (2 ^ 63) \<le> sint n" using sint_ge [of n] by simp
  have v: "- word_of_int (digits_value ?ds) = (if sint n = - (2 ^ 63) then n + 1 else n)"
  proof (cases "sint n = - (2 ^ 63)")
    case least: True
    then have "n = word_of_int (- (2 ^ 63))" by (metis scast_eq scast_id)
    with least show ?thesis by (simp add: digits_value_show)
  next
    case False
    with lo True show ?thesis by (simp add: digits_value_show)
  qed
  obtain b bs where ds: "?ds = b # bs" "is_digit b" using show_nat_digits [of "nat (- sint n)"] by (cases ?ds) auto
  have tw: "takeWhile is_digit (?ds @ r) = ?ds" if "ends_before is_digit r" for r
    by (rule takeWhile_stop [OF show_nat_digits(1) that])
  have at: "(pre @ 0x2D # ?ds @ r) ! Suc (length pre) = b" for pre r using ds(1) by (simp add: nth_append)
  show ?thesis
    using True byte_classes(7) [OF ds(2)] byte_classes(5) show_nat_digits(2) [of "nat (- sint n)"]
    by (simp add: reads_tok_def lex_step_def show_i64_def start_at(1,2) start_at(3) at tw v Let_def del: drop_append)
next
  case False
  let ?ds = "show_nat (nat (sint n))"
  have "sint n < 2 ^ 63" using sint_lt [of n] by simp
  with False have v: "word_of_int (digits_value ?ds) = n" by (simp add: digits_value_show)
  obtain b bs where ds: "?ds = b # bs" "is_digit b" using show_nat_digits [of "nat (sint n)"] by (cases ?ds) auto
  have tw: "takeWhile is_digit (?ds @ r) = ?ds" if "ends_before is_digit r" for r
    by (rule takeWhile_stop [OF show_nat_digits(1) that])
  have at: "(pre @ ?ds @ r) ! length pre = b" for pre r using ds(1) by (simp add: nth_append)
  show ?thesis
    using False ds(2) byte_classes(7) [OF ds(2)]
    by (simp add: reads_tok_def lex_step_def show_i64_def start_at(2) at tw v Let_def del: drop_append)
qed

lemma tok_reads: "tok_shown t \<Longrightarrow> reads_tok t"
  using reads_directive reads_newline reads_string reads_name reads_punct reads_int by (cases t) auto

section \<open>Layouts\<close>

text \<open>What stands before a token: blanks, and before the end of a line a comment.\<close>

type_synonym gap = "bytes \<times> bytes option"

definition show_gap :: "gap \<Rightarrow> bytes" where
  "show_gap g = fst g @ (case snd g of None \<Rightarrow> [] | Some c \<Rightarrow> 0x23 # c)"

definition gap_ok :: "gap \<Rightarrow> bool" where
  "gap_ok g \<longleftrightarrow> list_all (\<lambda>b. b = 0x20 \<or> b = 0x09 \<or> b = 0x0D) (fst g) \<and>
     (case snd g of None \<Rightarrow> True | Some c \<Rightarrow> list_all (\<lambda>b. b \<noteq> 0x0A) c)"

fun typeset :: "(gap \<times> tok) list \<Rightarrow> gap \<Rightarrow> bytes" where
  "typeset [] g = show_gap g"
| "typeset ((h, t) # ts) g = show_gap h @ show_tok t @ typeset ts g"

fun layout_with :: "(tok \<Rightarrow> bool) \<Rightarrow> (gap \<times> tok) list \<Rightarrow> gap \<Rightarrow> bool" where
  "layout_with p [] g \<longleftrightarrow> gap_ok g"
| "layout_with p ((h, t) # ts) g \<longleftrightarrow> gap_ok h \<and> (snd h \<noteq> None \<longrightarrow> t = TNewline) \<and> p t \<and>
     may_follow t (typeset ts g) \<and> layout_with p ts g"

abbreviation layout_ok :: "(gap \<times> tok) list \<Rightarrow> gap \<Rightarrow> bool" where
  "layout_ok \<equiv> layout_with tok_ok"

lemma layout_ok_shown: "layout_ok ts g \<Longrightarrow> layout_with tok_shown ts g \<and> map read_back (map snd ts) = map snd ts"
proof (induction ts)
  case (Cons x ts)
  then show ?case using tok_ok_shown by (cases x) auto
qed simp

lemma lex_from_blanks:
  "list_all (\<lambda>b. b = 0x20 \<or> b = 0x09 \<or> b = 0x0D) bs \<Longrightarrow>
     \<exists>c. lex_from (pre @ bs @ rest) (length pre) line col out = lex_from (pre @ bs @ rest) (length (pre @ bs)) line c out"
proof (induction bs arbitrary: pre col)
  case (Cons b bs)
  from Cons.IH [of "pre @ [b]" "col + 1"] Cons.prems obtain c where
    "lex_from (pre @ (b # bs) @ rest) (length (pre @ [b])) line (col + 1) out =
     lex_from (pre @ (b # bs) @ rest) (length (pre @ b # bs)) line c out" by auto
  moreover have "lex_step (pre @ (b # bs) @ rest) (length pre) line col = Ok (None, length (pre @ [b]), line, col + 1)"
    using Cons.prems by (auto simp: lex_step_def)
  ultimately show ?case by (subst lex_from.simps) auto
qed auto

lemma lex_from_gap:
  assumes "gap_ok g" and "snd g \<noteq> None \<Longrightarrow> rest = [] \<or> hd rest = 0x0A"
  shows "\<exists>c. lex_from (pre @ show_gap g @ rest) (length pre) line col out =
    lex_from (pre @ show_gap g @ rest) (length (pre @ show_gap g)) line c out"
proof -
  obtain bs m where g: "g = (bs, m)" by fastforce
  from lex_from_blanks [of bs pre "(case m of None \<Rightarrow> [] | Some c \<Rightarrow> 0x23 # c) @ rest" line col out] assms(1)
  obtain c where b: "lex_from (pre @ show_gap g @ rest) (length pre) line col out =
      lex_from (pre @ show_gap g @ rest) (length (pre @ bs)) line c out" by (auto simp: g gap_ok_def show_gap_def)
  show ?thesis
  proof (cases m)
    case None
    with b show ?thesis by (auto simp: g show_gap_def)
  next
    case (Some w)
    have "takeWhile (\<lambda>b. b \<noteq> 0x0A) (0x23 # w @ rest) = 0x23 # w"
      using assms takeWhile_stop [of "\<lambda>b. b \<noteq> 0x0A" "0x23 # w" rest] by (auto simp: g Some gap_ok_def ends_before_def)
    then have "lex_step (pre @ show_gap g @ rest) (length (pre @ bs)) line c =
        Ok (None, length (pre @ show_gap g), line, c + of_nat (length (0x23 # w)))"
      by (simp add: lex_step_def g Some show_gap_def nth_append Let_def)
    then have "lex_from (pre @ show_gap g @ rest) (length (pre @ bs)) line c out =
        lex_from (pre @ show_gap g @ rest) (length (pre @ show_gap g)) line (c + of_nat (length (0x23 # w))) out"
      by (subst lex_from.simps) (simp add: g Some show_gap_def)
    with b show ?thesis by metis
  qed
qed

section \<open>Round trip\<close>

lemma show_tok_ne: "tok_shown t \<Longrightarrow> show_tok t \<noteq> []"
  using show_nat_digits(2) by (cases t) (auto simp: name_ok_def show_i64_def)

lemma lex_from_reads:
  "layout_with tok_shown ts g \<Longrightarrow>
     \<exists>xs. lex_from (pre @ typeset ts g) (length pre) line col out = Ok (out @ xs) \<and>
       map t_tok xs = map read_back (map snd ts) @ [TEnd]"
proof (induction ts arbitrary: pre line col out)
  case Nil
  with lex_from_gap [of g "[]" pre line col out] obtain c where
    "lex_from (pre @ typeset [] g) (length pre) line col out =
     lex_from (pre @ typeset [] g) (length (pre @ typeset [] g)) line c out" by auto
  then show ?case by (subst (asm) (2) lex_from.simps) simp
next
  case (Cons x ts)
  obtain h t where x: "x = (h, t)" by fastforce
  let ?src = "pre @ typeset (x # ts) g" and ?mid = "pre @ show_gap h" and ?pre = "pre @ show_gap h @ show_tok t"
  have ok: "gap_ok h" "tok_shown t" "may_follow t (typeset ts g)" "snd h \<noteq> None \<Longrightarrow> t = TNewline"
    "layout_with tok_shown ts g"
    using Cons.prems by (auto simp: x)
  from lex_from_gap [of h "show_tok t @ typeset ts g" pre line col out, OF ok(1)] ok(4)
  obtain c0 where gap: "lex_from ?src (length pre) line col out = lex_from ?src (length ?mid) line c0 out"
    by (auto simp: x)
  from tok_reads [OF ok(2), unfolded reads_tok_def, rule_format, OF ok(3), of ?mid line c0]
  obtain sp l c where "lex_step ?src (length ?mid) line c0 = Ok (Some \<lparr>t_tok = read_back t, t_span = sp\<rparr>, length ?pre, l, c)"
    by (auto simp: x)
  moreover have "length ?mid < length ?src" using show_tok_ne [OF ok(2)] by (simp add: x)
  ultimately have "lex_from ?src (length ?mid) line c0 out =
      lex_from ?src (length ?pre) l c (out @ [\<lparr>t_tok = read_back t, t_span = sp\<rparr>])" by (subst lex_from.simps) simp
  moreover from Cons.IH [OF ok(5), of ?pre l c "out @ [\<lparr>t_tok = read_back t, t_span = sp\<rparr>]"] obtain xs where
    "lex_from ?src (length ?pre) l c (out @ [\<lparr>t_tok = read_back t, t_span = sp\<rparr>]) =
       Ok ((out @ [\<lparr>t_tok = read_back t, t_span = sp\<rparr>]) @ xs)" "map t_tok xs = map read_back (map snd ts) @ [TEnd]" by (auto simp: x)
  ultimately show ?case using gap by (intro exI [of _ "\<lparr>t_tok = read_back t, t_span = sp\<rparr> # xs"]) (simp add: x)
qed

theorem lex_shown:
  assumes "layout_with tok_shown ts g"
  shows "\<exists>xs. lex (typeset ts g) = Ok xs \<and> map t_tok xs = map read_back (map snd ts) @ [TEnd]"
  using lex_from_reads [OF assms, of "[]" 1 1 "[]"] by (simp add: lex_def)

corollary lex_typeset:
  assumes "layout_ok ts g"
  shows "\<exists>xs. lex (typeset ts g) = Ok xs \<and> map t_tok xs = map snd ts @ [TEnd]"
  using lex_shown [OF conjunct1 [OF layout_ok_shown [OF assms]]] unfolding conjunct2 [OF layout_ok_shown [OF assms]] .

text \<open>Two layouts: a space after every token, and the tokens as they come.\<close>

definition spaced :: "tok list \<Rightarrow> (gap \<times> tok) list" where
  "spaced ts = (case ts of [] \<Rightarrow> [] | t # us \<Rightarrow> (([], None), t) # map (Pair ([0x20], None)) us)"

definition last_gap :: "tok list \<Rightarrow> gap" where
  "last_gap ts = (if ts = [] then [] else [0x20], None)"

lemma may_follow_space: "tok_ok t \<Longrightarrow> may_follow t (0x20 # rest)"
  by (cases t) (auto simp: ends_before_def byte_classes)

lemma spaced_tail:
  "typeset (map (Pair ([0x20], None)) ts) ([0x20], None) = 0x20 # show_toks ts"
  "list_all tok_ok ts \<Longrightarrow> layout_ok (map (Pair ([0x20], None)) ts) ([0x20], None)"
proof -
  show l: "typeset (map (Pair ([0x20], None)) ts) ([0x20], None) = 0x20 # show_toks ts" for ts
    by (induction ts) (simp_all add: show_gap_def show_toks_def)
  show "list_all tok_ok ts \<Longrightarrow> layout_ok (map (Pair ([0x20], None)) ts) ([0x20], None)"
    by (induction ts) (simp_all add: gap_ok_def l may_follow_space)
qed

lemma spaced_layout:
  "typeset (spaced ts) (last_gap ts) = show_toks ts" "map snd (spaced ts) = ts"
  "list_all tok_ok ts \<Longrightarrow> layout_ok (spaced ts) (last_gap ts)"
proof -
  show "typeset (spaced ts) (last_gap ts) = show_toks ts"
    by (cases ts) (simp_all add: spaced_def last_gap_def spaced_tail(1) show_gap_def show_toks_def)
  show "map snd (spaced ts) = ts" by (cases ts) (simp_all add: spaced_def comp_def)
  show "list_all tok_ok ts \<Longrightarrow> layout_ok (spaced ts) (last_gap ts)"
    by (cases ts) (simp_all add: spaced_def last_gap_def spaced_tail gap_ok_def may_follow_space)
qed

theorem lex_show_toks:
  assumes "list_all tok_ok ts"
  shows "\<exists>xs. lex (show_toks ts) = Ok xs \<and> map t_tok xs = ts @ [TEnd]"
  using lex_typeset [OF spaced_layout(3) [OF assms]] by (simp add: spaced_layout)

end
