(* ===== verification/CV_Asm.thy ===== *)
theory CV_Asm
  imports CV_Lex CV_Object "HOL-Library.AList"
begin

text \<open>
  The assembler, \<open>src/src/asm.rs\<close>. \<open>assemble\<close> is one loop over the tokens with its local
  variables in the record \<open>asm\<close>; each directive, the label and the instruction are a definition
  that takes the token list and the position of the token after the one matched, and returns the
  new state with the position it stopped at. \<open>toks[i]\<close> panics past the end. A \<open>HashMap\<close> is an
  association list kept by \<open>AList.update\<close>.
\<close>

section \<open>State\<close>

record asm =
  a_obj :: obj
  a_fn :: "bytes option"
  a_maxstack :: "u16 option"
  a_args :: u8
  a_returns :: u8
  a_labels :: "(bytes \<times> u32) list"
  a_pending :: "(bytes \<times> span) list"
  a_off :: nat
  a_consts :: "(bytes \<times> u32) list"
  a_tool_index :: "(bytes \<times> u32) list"

definition asm_start :: "bytes \<Rightarrow> asm" where
  "asm_start name =
     \<lparr>a_obj = obj_default\<lparr>o_name := name\<rparr>, a_fn = None, a_maxstack = None, a_args = 0, a_returns = 1,
      a_labels = [], a_pending = [], a_off = 0, a_consts = [], a_tool_index = []\<rparr>"

definition tok_at :: "token list \<Rightarrow> nat \<Rightarrow> tok result" where
  "tok_at ts i = (case nth_get ts i of None \<Rightarrow> Panic | Some t \<Rightarrow> Ok (t_tok t))"

text \<open>\<open>n.unsigned_abs().min(max)\<close> of an \<open>i64\<close>.\<close>

definition abs_min :: "nat \<Rightarrow> i64 \<Rightarrow> nat" where
  "abs_min m n = min m (nat \<bar>sint n\<bar>)"

section \<open>Directives\<close>

definition dir_image :: "token list \<Rightarrow> nat \<Rightarrow> span \<Rightarrow> asm \<Rightarrow> (asm \<times> nat) result" where
  "dir_image ts i at a = rbind (tok_at ts i) (\<lambda>t. case t of
     TStr s \<Rightarrow> Ok (a\<lparr>a_obj := (a_obj a)\<lparr>o_name := s\<rparr>\<rparr>, i + 1)
   | _ \<Rightarrow> err_at BadOperand at)"

text \<open>The signature after the name of \<open>.fn\<close>: a loop that stops at the first token it does not know.
  It returns the position, the arguments counted and the number of results.\<close>

definition type_word :: "bytes \<Rightarrow> bool" where
  "type_word s \<longleftrightarrow> s \<in> set (map ascii [''i32'', ''i64'', ''str'', ''void'', '','' ])"

definition after_arrow :: "nat \<Rightarrow> u8 \<Rightarrow> tok \<Rightarrow> nat \<times> u8" where
  "after_arrow i rets t =
     (case t of TIdent r \<Rightarrow> (i + 2, if r = ascii ''void'' then 0 else 1) | _ \<Rightarrow> (i + 1, rets))"

lemma after_arrow_progress: "after_arrow i rets t = (j, r) \<Longrightarrow> i < j"
  by (auto simp: after_arrow_def split: tok.splits)

definition signature_step ::
    "token list \<Rightarrow> nat \<Rightarrow> bool \<Rightarrow> u8 \<Rightarrow> u8 \<Rightarrow> (nat \<times> bool \<times> u8 \<times> u8) option result" where
  "signature_step ts i in_args args rets =
     (case t_tok (ts ! i) of
        TIdent s \<Rightarrow>
          if s = ascii ''('' then Ok (Some (i + 1, True, args, rets))
          else if s = ascii '')'' then Ok (Some (i + 1, False, args, rets))
          else if s = ascii ''->'' then
            rbind (tok_at ts (i + 1)) (\<lambda>t. case after_arrow i rets t of (j, rets') \<Rightarrow>
              Ok (Some (j, in_args, args, rets')))
          else if in_args \<and> \<not> type_word s then
            Ok (Some (i + 1, in_args, if args = 255 then 255 else args + 1, rets))
          else Ok None
      | _ \<Rightarrow> Ok None)"

lemma signature_step_progress: "signature_step ts i ia args rets = Ok (Some (j, q)) \<Longrightarrow> i < j"
  unfolding signature_step_def
  by (cases "tok_at ts (i + 1)") (auto dest: after_arrow_progress split: tok.splits if_splits prod.splits)

function fn_signature :: "token list \<Rightarrow> nat \<Rightarrow> bool \<Rightarrow> u8 \<Rightarrow> u8 \<Rightarrow> (nat \<times> u8 \<times> u8) result" where
  "fn_signature ts i in_args args rets =
     (if i < length ts then
        (case signature_step ts i in_args args rets of
           Ok (Some (j, in_args', args', rets')) \<Rightarrow> fn_signature ts j in_args' args' rets'
         | Ok None \<Rightarrow> Ok (i, args, rets)
         | Err e \<Rightarrow> Err e
         | Panic \<Rightarrow> Panic)
      else Ok (i, args, rets))"
  by pat_completeness auto
termination
  by (relation "measure (\<lambda>(ts, i, _). length ts - i)") (auto dest: signature_step_progress)

declare fn_signature.simps [simp del]

definition dir_fn :: "token list \<Rightarrow> nat \<Rightarrow> span \<Rightarrow> asm \<Rightarrow> (asm \<times> nat) result" where
  "dir_fn ts i at a = rbind (tok_at ts i) (\<lambda>t.
     rbind (case t of TIdent s \<Rightarrow> Ok s | TLabel s \<Rightarrow> Ok s | _ \<Rightarrow> err_at BadOperand at) (\<lambda>name.
     rbind (fn_signature ts (i + 1) False 0 1) (\<lambda>(j, args, rets).
       if a_fn a \<noteq> None then err_at DuplicateSymbol at
       else Ok (a\<lparr>a_args := args, a_returns := rets, a_fn := Some name, a_maxstack := None, a_labels := [],
                  a_pending := [], a_off := length (o_code (a_obj a))\<rparr>, j))))"

definition dir_maxstack :: "token list \<Rightarrow> nat \<Rightarrow> span \<Rightarrow> asm \<Rightarrow> (asm \<times> nat) result" where
  "dir_maxstack ts i at a = rbind (tok_at ts i) (\<lambda>t. case t of
     TInt n \<Rightarrow> Ok (a\<lparr>a_maxstack := Some (of_nat (abs_min 0xFFFF n))\<rparr>, i + 1)
   | _ \<Rightarrow> err_at MissingMaxstack at)"

definition dir_tool :: "token list \<Rightarrow> nat \<Rightarrow> span \<Rightarrow> asm \<Rightarrow> (asm \<times> nat) result" where
  "dir_tool ts i at a = rbind (tok_at ts i) (\<lambda>t. case t of
     TIdent s \<Rightarrow>
       Ok (a\<lparr>a_obj := (a_obj a)\<lparr>o_tools := o_tools (a_obj a) @ [s]\<rparr>,
             a_tool_index := AList.update s (of_nat (length (o_tools (a_obj a)))) (a_tool_index a)\<rparr>, i + 1)
   | _ \<Rightarrow> err_at BadOperand at)"

definition push_const :: "bytes \<Rightarrow> obj \<Rightarrow> obj" where
  "push_const bs x = x\<lparr>o_constants := o_constants x @ [bs]\<rparr>"

definition dir_const :: "token list \<Rightarrow> nat \<Rightarrow> span \<Rightarrow> asm \<Rightarrow> (asm \<times> nat) result" where
  "dir_const ts i at a = rbind (tok_at ts i) (\<lambda>t.
     rbind (case t of TIdent s \<Rightarrow> Ok s | _ \<Rightarrow> err_at BadOperand at) (\<lambda>name.
     rbind (tok_at ts (i + 1)) (\<lambda>v.
     rbind (case v of TStr s \<Rightarrow> Ok s | TInt n \<Rightarrow> Ok (u64_le n) | _ \<Rightarrow> err_at BadOperand at) (\<lambda>bs.
       Ok (a\<lparr>a_obj := push_const bs (a_obj a),
             a_consts := AList.update name (of_nat (length (o_constants (a_obj a)))) (a_consts a)\<rparr>, i + 2)))))"

definition directive :: "bytes \<Rightarrow> token list \<Rightarrow> nat \<Rightarrow> span \<Rightarrow> asm \<Rightarrow> (asm \<times> nat) result" where
  "directive d ts i at a =
     (if d = ascii ''isa'' then Ok (a, i)
      else if d = ascii ''image'' then dir_image ts i at a
      else if d = ascii ''fn'' then dir_fn ts i at a
      else if d = ascii ''maxstack'' then dir_maxstack ts i at a
      else if d = ascii ''tool'' then dir_tool ts i at a
      else if d = ascii ''const'' then dir_const ts i at a
      else err_at UnknownDirective at)"

section \<open>Labels and instructions\<close>

definition label :: "bytes \<Rightarrow> nat \<Rightarrow> span \<Rightarrow> asm \<Rightarrow> (asm \<times> nat) result" where
  "label l i at a =
     (if a_fn a = None then err_at BadOperand at
      else if map_of (a_labels a) l \<noteq> None then err_at DuplicateLabel at
      else Ok (a\<lparr>a_labels := AList.update l (of_nat (length (o_code (a_obj a)) - a_off a) div 4) (a_labels a)\<rparr>, i))"

definition look_up :: "(bytes \<times> u32) list \<Rightarrow> bytes \<Rightarrow> span \<Rightarrow> u32 result" where
  "look_up m s at = (case map_of m s of None \<Rightarrow> err_at UnknownSymbol at | Some v \<Rightarrow> Ok v)"

text \<open>The operand: its value, the state (inline strings become constants, unknown symbols are
  recorded) and the next position.\<close>

definition read_operand ::
    "operand \<Rightarrow> token list \<Rightarrow> nat \<Rightarrow> span \<Rightarrow> asm \<Rightarrow> (u32 \<times> asm \<times> nat) result" where
  "read_operand k ts i at a =
     (case k of
        OprNone \<Rightarrow>
          if i < length ts \<and> t_tok (ts ! i) \<noteq> TNewline \<and> t_tok (ts ! i) \<noteq> TEnd
          then err_at UnexpectedOperand at else Ok (0, a, i)
      | OprImm \<Rightarrow> rbind (tok_at ts i) (\<lambda>t. case t of
          TInt n \<Rightarrow>
            Ok (if sint n < 0 then ucast (ucast n :: u16) else of_nat (abs_min 0xFFFFFFFF n), a, i + 1)
        | TIdent s \<Rightarrow> rbind (look_up (a_consts a) s at) (\<lambda>b. Ok (b, a, i + 1))
        | _ \<Rightarrow> err_at MissingOperand at)
      | OprConst \<Rightarrow> rbind (tok_at ts i) (\<lambda>t. case t of
          TIdent s \<Rightarrow> rbind (look_up (a_consts a) s at) (\<lambda>b. Ok (b, a, i + 1))
        | TStr s \<Rightarrow> Ok (of_nat (length (o_constants (a_obj a))), a\<lparr>a_obj := push_const s (a_obj a)\<rparr>, i + 1)
        | _ \<Rightarrow> err_at MissingOperand at)
      | OprTool \<Rightarrow> rbind (tok_at ts i) (\<lambda>t. case t of
          TIdent s \<Rightarrow> rbind (look_up (a_tool_index a) s at) (\<lambda>b. Ok (b, a, i + 1))
        | _ \<Rightarrow> err_at MissingOperand at)
      | OprFunc \<Rightarrow> rbind (tok_at ts i) (\<lambda>t. case t of
          TIdent s \<Rightarrow> Ok (0, a\<lparr>a_pending := a_pending a @ [(s, at)]\<rparr>, i + 1)
        | _ \<Rightarrow> err_at MissingOperand at)
      | OprTarget \<Rightarrow> rbind (tok_at ts i) (\<lambda>t. case t of
          TIdent s \<Rightarrow> (case map_of (a_labels a) s of
              Some target \<Rightarrow> Ok (target, a, i + 1)
            | None \<Rightarrow> Ok (0, a\<lparr>a_pending := a_pending a @ [(s, at)]\<rparr>, i + 1))
        | _ \<Rightarrow> err_at MissingOperand at)
      | _ \<Rightarrow> rbind (tok_at ts i) (\<lambda>t. case t of
          TInt n \<Rightarrow> Ok (of_nat (abs_min 0xFFFFFFFF n), a, i + 1)
        | _ \<Rightarrow> err_at MissingOperand at))"

definition emit :: "op \<Rightarrow> u32 \<Rightarrow> asm \<Rightarrow> asm" where
  "emit x b a =
     (let o1 = (if x = OpSwitch then (a_obj a)\<lparr>o_jump_tables := o_jump_tables (a_obj a) @ [[0]]\<rparr> else a_obj a)
      in a\<lparr>a_obj := o1\<lparr>o_code := fst (encode (o_code o1) x 0 b)\<rparr>\<rparr>)"

definition instruction :: "bytes \<Rightarrow> token list \<Rightarrow> nat \<Rightarrow> span \<Rightarrow> asm \<Rightarrow> (asm \<times> nat) result" where
  "instruction m ts i at a =
     (if a_fn a = None then err_at BadOperand at
      else case List.find (\<lambda>r. ascii (mnemonic r) = m) TABLE of
             None \<Rightarrow> err_at UnknownMnemonic at
           | Some row \<Rightarrow>
               rbind (read_operand (operand row) ts i at a) (\<lambda>(b, a1, j).
                 Ok (emit (i_op row) b a1,
                     if j < length ts \<and> t_tok (ts ! j) = TNewline then j + 1 else j)))"

section \<open>The loop\<close>

definition asm_step :: "token list \<Rightarrow> nat \<Rightarrow> asm \<Rightarrow> (asm \<times> nat) result" where
  "asm_step ts i a =
     (let at = t_span (ts ! i) in
      case t_tok (ts ! i) of
        TDirective d \<Rightarrow> directive d ts (i + 1) at a
      | TLabel l \<Rightarrow> label l (i + 1) at a
      | TIdent m \<Rightarrow> instruction m ts (i + 1) at a
      | TNewline \<Rightarrow> Ok (a, i + 1)
      | TEnd \<Rightarrow> Ok (a, i + 1)
      | _ \<Rightarrow> err_at BadOperand at)"

lemma fn_signature_progress: "fn_signature ts i ia args rets = Ok (j, q) \<Longrightarrow> i \<le> j"
proof (induction ts i ia args rets rule: fn_signature.induct)
  case (1 ts i ia args rets)
  show ?case
  proof (cases "i < length ts \<and> (\<exists>x. signature_step ts i ia args rets = Ok (Some x))")
    case True
    then obtain k ia' args' rets' where st: "signature_step ts i ia args rets = Ok (Some (k, ia', args', rets'))"
      by auto
    with 1(2) True have "fn_signature ts k ia' args' rets' = Ok (j, q)"
      by (subst (asm) fn_signature.simps) simp
    from 1(1) [OF _ st refl refl refl refl this] True signature_step_progress [OF st] show ?thesis by simp
  next
    case False
    with 1(2) show ?thesis by (subst (asm) fn_signature.simps) (auto split: res.splits option.splits if_splits)
  qed
qed

lemma read_operand_progress: "read_operand k ts i at a = Ok (b, a', j) \<Longrightarrow> i \<le> j"
  unfolding read_operand_def
  by (cases "tok_at ts i") (auto simp: rbind_eq_Ok split: operand.splits if_splits tok.splits option.splits)

lemma dir_fn_progress: "dir_fn ts i at a = Ok (a', j) \<Longrightarrow> i < j"
  unfolding dir_fn_def
  by (cases "tok_at ts i") (auto simp: rbind_eq_Ok dest!: fn_signature_progress split: tok.splits if_splits)

lemma dir_const_progress: "dir_const ts i at a = Ok (a', j) \<Longrightarrow> i < j"
  unfolding dir_const_def by (cases "tok_at ts i") (auto simp: rbind_eq_Ok)

lemma directive_progress: "directive d ts i at a = Ok (a', j) \<Longrightarrow> i \<le> j"
  unfolding directive_def dir_image_def dir_maxstack_def dir_tool_def
  by (cases "tok_at ts i")
    (auto dest!: dir_fn_progress dir_const_progress split: tok.splits if_splits)

lemma asm_step_progress: "asm_step ts i a = Ok (a', j) \<Longrightarrow> i < j"
  by (auto simp: asm_step_def label_def instruction_def rbind_eq_Ok Let_def
      dest!: directive_progress read_operand_progress split: tok.splits if_splits option.splits)

function asm_loop :: "token list \<Rightarrow> nat \<Rightarrow> asm \<Rightarrow> asm result" where
  "asm_loop ts i a =
     (if i < length ts then
        (case asm_step ts i a of
           Ok (a', j) \<Rightarrow> asm_loop ts j a'
         | Err e \<Rightarrow> Err e
         | Panic \<Rightarrow> Panic)
      else Ok a)"
  by pat_completeness auto
termination
  by (relation "measure (\<lambda>(ts, i, _). length ts - i)") (auto dest: asm_step_progress)

declare asm_loop.simps [simp del]

section \<open>Closing\<close>

definition close_main :: "asm \<Rightarrow> obj result" where
  "close_main a = (case a_fn a of
     None \<Rightarrow> Ok (a_obj a)
   | Some name \<Rightarrow> (case a_maxstack a of
       None \<Rightarrow> fail MissingMaxstack
     | Some ms \<Rightarrow>
         (let x = a_obj a
          in Ok (x\<lparr>o_entry := (if name = ascii ''main'' then Some name else o_entry x),
                   o_funcs := o_funcs x @ [\<lparr>fm_name = name, fm_code_off = of_nat (a_off a),
                     fm_code_len = of_nat (length (o_code x) - a_off a), fm_maxstack = ms,
                     fm_args = a_args a, fm_returns = a_returns a\<rparr>]\<rparr>))))"

text \<open>The first recorded symbol that is not a label is refused, at its first use.\<close>

fun check_pending :: "(bytes \<times> u32) list \<Rightarrow> (bytes \<times> span) list \<Rightarrow> unit result" where
  "check_pending labels [] = Ok ()"
| "check_pending labels ((s, at) # ps) =
     (if map_of labels s = None then err_at UndefinedLabel at else check_pending labels ps)"

definition assemble :: "bytes \<Rightarrow> bytes \<Rightarrow> obj result" where
  "assemble name source = rbind (lex source) (\<lambda>ts.
     rbind (asm_loop ts 0 (asm_start name)) (\<lambda>a.
     rbind (close_main a) (\<lambda>x.
     rbind (check_pending (a_labels a) (a_pending a)) (\<lambda>_.
       if o_entry x = None then fail NoEntryPoint else Ok x))))"

end
