(* ===== verification/CV_AsmFacts.thy ===== *)
theory CV_AsmFacts
  imports CV_Asm CV_Programs CV_Build
begin

text \<open>
  What \<open>assemble\<close> of \<open>src/src/asm.rs\<close> produces. It never panics; an object it returns holds one
  function, \<open>main\<close>, over the whole code, whose instructions decode back; the labels it resolves
  lie behind the instruction that names them, and every reference to a function is 0.
\<close>

section \<open>It does not panic\<close>

definition toks_ok :: "token list \<Rightarrow> bool" where
  "toks_ok ts \<longleftrightarrow> ts \<noteq> [] \<and> t_tok (last ts) = TEnd"

lemma tok_at_eq: "tok_at ts i = (if i < length ts then Ok (t_tok (ts ! i)) else Panic)"
  by (simp add: tok_at_def nth_get_def)

lemma follows: "toks_ok ts \<Longrightarrow> i < length ts \<Longrightarrow> t_tok (ts ! i) \<noteq> TEnd \<Longrightarrow> Suc i < length ts"
  unfolding toks_ok_def by (metis Suc_lessI diff_Suc_1 last_conv_nth)

lemma signature_step_no_panic:
  "toks_ok ts \<Longrightarrow> i < length ts \<Longrightarrow> signature_step ts i ia args rets \<noteq> Panic"
  using follows [of ts i]
  by (auto simp: signature_step_def tok_at_eq rbind_eq_Panic after_arrow_def split: tok.splits)

lemma signature_no_panic: "toks_ok ts \<Longrightarrow> fn_signature ts i ia args rets \<noteq> Panic"
proof (induction ts i ia args rets rule: fn_signature.induct)
  case (1 ts i ia args rets)
  then show ?case
    using signature_step_no_panic [of ts i ia args rets]
    by (subst fn_signature.simps) (auto split: res.splits option.splits)
qed

lemma asm_step_no_panic:
  assumes "toks_ok ts" and "i < length ts"
  shows "asm_step ts i a \<noteq> Panic"
proof (cases "t_tok (ts ! i) = TEnd")
  case False
  with follows [OF assms] have i: "i + 1 < length ts" by simp
  have "dir_fn ts (i + 1) at a \<noteq> Panic" for at
    using i signature_no_panic [OF assms(1)]
    by (auto simp: dir_fn_def tok_at_eq rbind_eq_Panic split: tok.splits)
  moreover have "dir_const ts (i + 1) at a \<noteq> Panic" for at
    using i follows [OF assms(1), of "i + 1"]
    by (auto simp: dir_const_def tok_at_eq rbind_eq_Panic split: tok.splits)
  moreover have "read_operand k ts (i + 1) at a \<noteq> Panic" for k at
    using i by (auto simp: read_operand_def tok_at_eq rbind_eq_Panic look_up_def
        split: operand.splits tok.splits option.splits)
  ultimately show ?thesis
    using i
    by (auto simp: asm_step_def Let_def directive_def dir_image_def dir_maxstack_def dir_tool_def
        label_def instruction_def tok_at_eq rbind_eq_Panic split: tok.splits option.splits)
qed (simp add: asm_step_def Let_def)

lemma asm_loop_no_panic: "toks_ok ts \<Longrightarrow> asm_loop ts i a \<noteq> Panic"
proof (induction ts i a rule: asm_loop.induct)
  case (1 ts i a)
  then show ?case
    using asm_step_no_panic [of ts i a] by (subst asm_loop.simps) (auto split: res.splits)
qed

lemma check_pending_no_panic: "check_pending labels ps \<noteq> Panic"
  by (induction labels ps rule: check_pending.induct) auto

lemma lex_toks_ok: "lex src = Ok ts \<Longrightarrow> toks_ok ts"
  using lex_ends(2) [of src ts] by (simp add: toks_ok_def)

theorem assemble_returns: "assemble name src \<noteq> Panic"
proof -
  have "close_main a \<noteq> Panic" for a by (auto simp: close_main_def Let_def fail_def split: option.splits)
  then show ?thesis
    using lex_ends(1) [of src]
    by (auto simp: assemble_def rbind_eq_Panic asm_loop_no_panic check_pending_no_panic fail_def
        dest!: lex_toks_ok)
qed


section \<open>What the code holds\<close>

text \<open>The bytes of a list of instructions as the assembler encodes them: the \<open>a\<close> field is 0.\<close>

definition emitted :: "(op \<times> u32) list \<Rightarrow> bytes" where
  "emitted xs = assemble_ops (map (\<lambda>(x, b). (x, 0, b)) xs)"

definition decoded_of :: "op \<times> u32 \<Rightarrow> decoded" where
  "decoded_of p = (case p of (x, b) \<Rightarrow> \<lparr>d_op = x, d_a = 0, d_b = b, d_len = encoded_len b\<rparr>)"

lemma decoded_of_sel [simp]: "d_op (decoded_of p) = fst p" "d_b (decoded_of p) = snd p"
  by (simp_all add: decoded_of_def split: prod.splits)

lemma emitted_Nil [simp]: "emitted [] = []"
  by (simp add: emitted_def assemble_ops_def)

lemma emitted_Cons: "emitted ((x, b) # xs) = fst (encode [] x 0 b) @ emitted xs"
  by (simp add: emitted_def assemble_ops_def)

lemma emitted_snoc: "emitted (xs @ [(x, b)]) = fst (encode (emitted xs) x 0 b)"
  by (subst encode_appends) (simp add: emitted_def assemble_ops_def)

lemma length_encoded: "length (fst (encode [] x a b)) = unat (encoded_len b)"
  by (simp add: encode_def encoded_len_def Let_def)

lemma length_emitted: "length (emitted xs) = (\<Sum>(x, b)\<leftarrow>xs. unat (encoded_len b))"
  by (induction xs) (auto simp: emitted_Cons length_encoded)

text \<open>Where each instruction starts, as \<open>decode_range\<close> records it.\<close>

definition starts_at :: "nat \<Rightarrow> (op \<times> u32) list \<Rightarrow> u32 list" where
  "starts_at off xs = map (\<lambda>i. of_nat (off + length (emitted (take i xs)))) [0..<length xs]"

lemma starts_at_Cons:
  "starts_at off ((x, b) # xs) = of_nat off # starts_at (off + unat (encoded_len b)) xs"
  by (simp add: starts_at_def upt_conv_Cons map_Suc_upt [symmetric] emitted_Cons length_encoded del: upt_Suc map_Suc_upt)

lemma laid_out_emitted: "laid_out (pre @ emitted xs) lo (length pre) (map decoded_of xs) (starts_at (lo + length pre) xs)"
proof (induction xs arbitrary: pre)
  case Nil
  then show ?case by (simp add: starts_at_def)
next
  case (Cons p xs)
  obtain x b where p: "p = (x, b)" by fastforce
  have "decode (pre @ emitted (p # xs)) (length pre) = Some (decoded_of p)"
    using decode_encode [of pre x 0 b "emitted xs"] encode_appends [of pre x 0 b]
    by (simp add: p emitted_Cons decoded_of_def)
  with Cons [of "pre @ fst (encode [] x 0 b)"] show ?case
    by (simp add: p emitted_Cons starts_at_Cons length_encoded decoded_of_def add.assoc)
qed

text \<open>The operands the assembler fills in itself.\<close>

definition operand_ok :: "obj \<Rightarrow> nat \<Rightarrow> op \<times> u32 \<Rightarrow> bool" where
  "operand_ok x at p = (case operand (insn (fst p)) of
     OprConst \<Rightarrow> unat (snd p) < length (o_constants x)
   | OprTool \<Rightarrow> unat (snd p) < length (o_tools x)
   | OprFunc \<Rightarrow> snd p = 0
   | OprTarget \<Rightarrow> 4 * unat (snd p) \<le> at
   | OprNone \<Rightarrow> snd p = 0
   | _ \<Rightarrow> True)"

definition operands_ok :: "obj \<Rightarrow> (op \<times> u32) list \<Rightarrow> bool" where
  "operands_ok x xs \<longleftrightarrow> (\<forall>i<length xs. operand_ok x (length (emitted (take i xs))) (xs ! i))"

definition one_table_each :: "(op \<times> u32) list \<Rightarrow> u32 list list" where
  "one_table_each xs = replicate (length (filter (\<lambda>p. fst p = OpSwitch) xs)) [0]"

definition asm_inv :: "asm \<Rightarrow> (op \<times> u32) list \<Rightarrow> bool" where
  "asm_inv a xs \<longleftrightarrow> o_funcs (a_obj a) = [] \<and> o_entry (a_obj a) = None \<and> a_off a = 0 \<and>
     o_code (a_obj a) = emitted xs \<and> o_jump_tables (a_obj a) = one_table_each xs \<and>
     (a_fn a = None \<longrightarrow> xs = []) \<and>
     (\<forall>(l, v)\<in>set (a_labels a). 4 * unat v \<le> length (emitted xs)) \<and>
     (\<forall>(s, v)\<in>set (a_consts a). unat v < length (o_constants (a_obj a))) \<and>
     (\<forall>(s, v)\<in>set (a_tool_index a). unat v < length (o_tools (a_obj a))) \<and>
     operands_ok (a_obj a) xs"

lemma set_AList_update: "p \<in> set (AList.update k v m) \<Longrightarrow> p = (k, v) \<or> p \<in> set m"
  by (induction m) (auto split: if_splits)

lemma operand_ok_mono:
  "operand_ok x at p \<Longrightarrow> length (o_constants x) \<le> length (o_constants y) \<Longrightarrow>
     length (o_tools x) \<le> length (o_tools y) \<Longrightarrow> operand_ok y at p"
  by (auto simp: operand_ok_def split: operand.splits)

lemma operands_ok_mono:
  "operands_ok x xs \<Longrightarrow> length (o_constants x) \<le> length (o_constants y) \<Longrightarrow>
     length (o_tools x) \<le> length (o_tools y) \<Longrightarrow> operands_ok y xs"
  by (auto simp: operands_ok_def dest: operand_ok_mono)

lemma unat_of_nat_le: "unat (of_nat n :: 'a::len word) \<le> n"
  by (simp add: unat_of_nat)

lemma quarter_le: "4 * unat (of_nat n div 4 :: u32) \<le> n"
proof -
  have "4 * unat (of_nat n div 4 :: u32) \<le> unat (of_nat n :: u32)" by (simp add: unat_div)
  with unat_of_nat_le [of n, where 'a = 32] show ?thesis by simp
qed


lemma asm_inv_obj:
  assumes "asm_inv a xs"
  shows "o_funcs (a_obj a) = []" and "o_entry (a_obj a) = None" and "a_off a = 0"
    and "o_code (a_obj a) = emitted xs" and "o_jump_tables (a_obj a) = one_table_each xs"
    and "operands_ok (a_obj a) xs"
  using assms by (simp_all add: asm_inv_def)

lemma asm_inv_found:
  assumes "asm_inv a xs"
  shows "map_of (a_labels a) s = Some v \<Longrightarrow> 4 * unat v \<le> length (emitted xs)"
    and "map_of (a_consts a) s = Some v \<Longrightarrow> unat v < length (o_constants (a_obj a))"
    and "map_of (a_tool_index a) s = Some v \<Longrightarrow> unat v < length (o_tools (a_obj a))"
  using assms by (auto simp: asm_inv_def dest!: map_of_SomeD)

lemma asm_inv_start: "asm_inv (asm_start name) []"
  by (simp add: asm_inv_def asm_start_def obj_default_def one_table_each_def operands_ok_def)

text \<open>Steps that leave the code alone.\<close>

lemma asm_inv_const:
  assumes "asm_inv a xs"
  shows "asm_inv (a\<lparr>a_obj := push_const bs (a_obj a)\<rparr>) xs"
  using assms operands_ok_mono [of "a_obj a" xs "push_const bs (a_obj a)"]
  by (auto simp: asm_inv_def push_const_def less_SucI)

lemma asm_inv_named:
  assumes "asm_inv a xs"
  shows "asm_inv (a\<lparr>a_obj := (a_obj a)\<lparr>o_name := s\<rparr>\<rparr>) xs"
    and "asm_inv (a\<lparr>a_pending := ps\<rparr>) xs"
    and "asm_inv (a\<lparr>a_maxstack := m\<rparr>) xs"
  using assms operands_ok_mono [of "a_obj a" xs "(a_obj a)\<lparr>o_name := s\<rparr>"] by (auto simp: asm_inv_def)

lemma asm_inv_directive:
  assumes "directive d ts i at a = Ok (a', j)" and "asm_inv a xs"
  shows "asm_inv a' xs"
proof -
  have fn: "asm_inv a' xs" if "dir_fn ts i at a = Ok (a', j)"
    using that assms(2) by (cases "tok_at ts i") (auto simp: dir_fn_def asm_inv_def rbind_eq_Ok
        split: tok.splits if_splits)
  have const: "asm_inv a' xs" if "dir_const ts i at a = Ok (a', j)"
  proof -
    from that obtain s bs where
      "a' = a\<lparr>a_obj := push_const bs (a_obj a),
         a_consts := AList.update s (of_nat (length (o_constants (a_obj a)))) (a_consts a)\<rparr>"
      unfolding dir_const_def by (cases "tok_at ts i") (auto simp: rbind_eq_Ok)
    then show ?thesis
      using asm_inv_const [OF assms(2), of bs] unat_of_nat_le [of "length (o_constants (a_obj a))", where 'a = 32]
      by (auto simp: asm_inv_def push_const_def dest!: set_AList_update)
  qed
  have tool: "asm_inv a' xs" if "dir_tool ts i at a = Ok (a', j)"
  proof -
    from that obtain s where
      "a' = a\<lparr>a_obj := (a_obj a)\<lparr>o_tools := o_tools (a_obj a) @ [s]\<rparr>,
         a_tool_index := AList.update s (of_nat (length (o_tools (a_obj a)))) (a_tool_index a)\<rparr>"
      unfolding dir_tool_def by (cases "tok_at ts i") (auto split: tok.splits)
    moreover have "operands_ok ((a_obj a)\<lparr>o_tools := o_tools (a_obj a) @ [s]\<rparr>) xs"
      using operands_ok_mono [OF asm_inv_obj(6) [OF assms(2)]] by simp
    ultimately show ?thesis
      using assms(2) unat_of_nat_le [of "length (o_tools (a_obj a))", where 'a = 32]
      by (auto simp: asm_inv_def less_SucI dest!: set_AList_update)
  qed
  show ?thesis
    using assms fn const tool asm_inv_named [OF assms(2)]
    unfolding directive_def
    by (cases "tok_at ts i") (auto simp: dir_image_def dir_maxstack_def split: if_splits tok.splits)
qed

lemma asm_inv_label:
  assumes "label l i at a = Ok (a', j)" and "asm_inv a xs"
  shows "asm_inv a' xs"
  using assms quarter_le [of "length (emitted xs)"]
  by (auto simp: label_def asm_inv_def split: if_splits dest!: set_AList_update)

text \<open>An instruction adds one entry, whose operand is in range.\<close>

lemma read_operand_ok:
  assumes "read_operand (operand (insn x)) ts i at a = Ok (b, a1, j)" and "asm_inv a xs"
  shows "asm_inv a1 xs" and "a_fn a1 = a_fn a" and "operand_ok (a_obj a1) (length (emitted xs)) (x, b)"
proof -
  note found = asm_inv_found [OF assms(2)]
  have "asm_inv a1 xs \<and> a_fn a1 = a_fn a \<and> operand_ok (a_obj a1) (length (emitted xs)) (x, b)"
  proof (cases "operand (insn x)")
    case OprConst
    with assms show ?thesis
      using found(2) asm_inv_const [OF assms(2)] unat_of_nat_le [of "length (o_constants (a_obj a))", where 'a = 32]
      by (cases "tok_at ts i")
        (auto simp: read_operand_def operand_ok_def look_up_def push_const_def split: tok.splits option.splits)
  next
    case OprTarget
    with assms show ?thesis
      using found(1) asm_inv_named [OF assms(2)]
      by (cases "tok_at ts i") (auto simp: read_operand_def operand_ok_def split: tok.splits option.splits)
  next
    case OprTool
    with assms show ?thesis
      using found(3)
      by (cases "tok_at ts i")
        (auto simp: read_operand_def operand_ok_def look_up_def split: tok.splits option.splits)
  next
    case OprFunc
    with assms show ?thesis
      using asm_inv_named [OF assms(2)]
      by (cases "tok_at ts i") (auto simp: read_operand_def operand_ok_def split: tok.splits)
  next
    case OprImm
    with assms show ?thesis
      by (cases "tok_at ts i")
        (auto simp: read_operand_def operand_ok_def look_up_def split: tok.splits option.splits)
  qed (use assms in \<open>cases "tok_at ts i";
      auto simp: read_operand_def operand_ok_def split: tok.splits if_splits\<close>)+
  then show "asm_inv a1 xs" "a_fn a1 = a_fn a" "operand_ok (a_obj a1) (length (emitted xs)) (x, b)" by auto
qed


lemma asm_inv_emit:
  assumes "asm_inv a xs" and "operand_ok (a_obj a) (length (emitted xs)) (x, b)" and "a_fn a \<noteq> None"
  shows "asm_inv (emit x b a) (xs @ [(x, b)])"
proof -
  let ?o = "a_obj (emit x b a)"
  have same: "o_constants ?o = o_constants (a_obj a)" "o_tools ?o = o_tools (a_obj a)"
    by (simp_all add: emit_def Let_def)
  have "operands_ok ?o xs" using operands_ok_mono [OF asm_inv_obj(6) [OF assms(1)], of ?o] same by simp
  moreover have "operand_ok ?o (length (emitted xs)) (x, b)"
    using operand_ok_mono [OF assms(2), of ?o] same by simp
  ultimately have ops: "operands_ok ?o (xs @ [(x, b)])"
    by (auto simp: operands_ok_def nth_append less_Suc_eq)
  have code: "o_code ?o = emitted (xs @ [(x, b)])"
    using asm_inv_obj(4) [OF assms(1)] by (simp add: emit_def emitted_snoc Let_def)
  have grows: "length (emitted xs) \<le> length (emitted (xs @ [(x, b)]))"
    by (simp add: length_emitted)
  have "o_jump_tables ?o = one_table_each (xs @ [(x, b)])"
    using asm_inv_obj(5) [OF assms(1)] by (simp add: emit_def Let_def one_table_each_def replicate_append_same [symmetric])
  with ops code grows assms(1,3) same show ?thesis
    by (auto simp: asm_inv_def emit_def Let_def intro: order_trans)
qed

lemma find_row: "List.find p TABLE = Some row \<Longrightarrow> row = insn (i_op row)"
  by (auto simp: find_Some_iff TABLE_def insn_eq)

lemma asm_inv_step:
  assumes "asm_step ts i a = Ok (a', j)" and "asm_inv a xs"
  shows "\<exists>ys. asm_inv a' ys"
proof (cases "t_tok (ts ! i)")
  case (TIdent m)
  with assms(1) obtain row b a1 k where row: "List.find (\<lambda>r. ascii (mnemonic r) = m) TABLE = Some row"
    and opr: "read_operand (operand row) ts (i + 1) (t_span (ts ! i)) a = Ok (b, a1, k)"
    and a': "a' = emit (i_op row) b a1" and fn: "a_fn a \<noteq> None"
    by (auto simp: asm_step_def Let_def instruction_def rbind_eq_Ok split: if_splits option.splits)
  from opr have "read_operand (operand (insn (i_op row))) ts (i + 1) (t_span (ts ! i)) a = Ok (b, a1, k)"
    by (subst find_row [OF row, symmetric])
  from read_operand_ok [OF this assms(2)] asm_inv_emit [of a1 xs "i_op row" b] fn a' show ?thesis by auto
qed (use assms asm_inv_directive [OF _ assms(2)] asm_inv_label [OF _ assms(2)] in
    \<open>auto simp: asm_step_def Let_def intro: exI [of _ xs]\<close>)

lemma asm_inv_loop: "asm_loop ts i a = Ok a' \<Longrightarrow> asm_inv a xs \<Longrightarrow> \<exists>ys. asm_inv a' ys"
proof (induction ts i a arbitrary: xs rule: asm_loop.induct)
  case (1 ts i a)
  show ?case
  proof (cases "i < length ts")
    case True
    with 1(2) obtain b j where st: "asm_step ts i a = Ok (b, j)" "asm_loop ts j b = Ok a'"
      by (subst (asm) asm_loop.simps) (auto split: res.splits)
    from asm_inv_step [OF st(1) 1(3)] 1(1) [OF True st(1) refl st(2)] show ?thesis by blast
  next
    case False
    with 1(2,3) show ?thesis by (subst (asm) asm_loop.simps) auto
  qed
qed

text \<open>The object: one function \<open>main\<close> over the whole code.\<close>

definition one_main :: "obj \<Rightarrow> (op \<times> u32) list \<Rightarrow> bool" where
  "one_main x xs \<longleftrightarrow> o_entry x = Some (ascii ''main'') \<and> o_code x = emitted xs \<and>
     o_jump_tables x = one_table_each xs \<and> operands_ok x xs \<and>
     (\<exists>f. o_funcs x = [f] \<and> fm_name f = ascii ''main'' \<and> fm_code_off f = 0 \<and>
        fm_code_len f = of_nat (length (emitted xs)))"

theorem assemble_one_main:
  assumes "assemble name src = Ok x"
  shows "\<exists>xs. one_main x xs"
proof -
  from assms obtain ts a where "asm_loop ts 0 (asm_start name) = Ok a" and x: "close_main a = Ok x" "o_entry x \<noteq> None"
    by (auto simp: assemble_def rbind_eq_Ok fail_def split: if_splits)
  with asm_inv_loop [OF _ asm_inv_start] obtain xs where inv: "asm_inv a xs" by blast
  note o = asm_inv_obj [OF inv]
  have "operands_ok y xs" if "length (o_constants y) = length (o_constants (a_obj a))"
    "length (o_tools y) = length (o_tools (a_obj a))" for y
    using operands_ok_mono [OF o(6), of y] that by simp
  with x o show ?thesis
    by (intro exI [of _ xs])
      (auto simp: close_main_def one_main_def fail_def Let_def split: option.splits if_splits)
qed

text \<open>The instructions decode back.\<close>

theorem assembled_decodes:
  assumes "one_main x xs" and "f \<in> set (o_funcs x)" and "length (o_code x) < 2 ^ 32"
  shows "decode_range (o_code x) f = Ok (map decoded_of xs, starts_at 0 xs)"
proof -
  from assms(1,2) have f: "fm_code_off f = 0" "fm_code_len f = of_nat (length (emitted xs))"
    and code: "o_code x = emitted xs" by (auto simp: one_main_def)
  have "unat (fm_code_len f) = length (emitted xs)"
    using assms(3) f(2) code by (simp add: unat_of_nat)
  then show ?thesis
    using f(1) code laid_out_emitted [of "[]" xs 0] by (subst decode_range_iff) (simp add: slice_get_def)
qed

end
