(* ===== verification/CV_Listing.thy ===== *)
theory CV_Listing
  imports CV_LexRound CV_AsmFacts
begin

text \<open>
  The front end of \<open>src/src/lex.rs\<close> and \<open>src/src/asm.rs\<close> as a whole: the text of a listing (a
  function \<open>main\<close>, a line per label or instruction, branches only to labels above) assembles to
  the object that the listing denotes. The listing and its meaning are a specification.
\<close>

section \<open>Listings\<close>

datatype line = Lab bytes | Ins op "i64 option" | Jmp op bytes | Blank

definition mnem :: "op \<Rightarrow> bytes" where
  "mnem x = ascii (mnemonic (insn x))"

fun line_toks :: "line \<Rightarrow> tok list" where
  "line_toks (Lab l) = [TLabel l, TNewline]"
| "line_toks (Ins x None) = [TIdent (mnem x), TNewline]"
| "line_toks (Ins x (Some n)) = [TIdent (mnem x), TInt n, TNewline]"
| "line_toks (Jmp x l) = [TIdent (mnem x), TIdent l, TNewline]"
| "line_toks Blank = [TNewline]"

definition head_toks :: "u16 \<Rightarrow> tok list" where
  "head_toks mx = [TDirective (ascii ''fn''), TIdent (ascii ''main''), TIdent (ascii ''(''), TIdent (ascii '')''),
     TIdent (ascii ''->''), TIdent (ascii ''i32''), TNewline, TDirective (ascii ''maxstack''), TInt (ucast mx), TNewline]"

text \<open>Text that is a listing, however it is laid out: blanks, tabs and comments where they may stand.\<close>

definition written :: "u16 \<Rightarrow> line list \<Rightarrow> bytes \<Rightarrow> bool" where
  "written mx ls src \<longleftrightarrow> (\<exists>ts g. src = typeset ts g \<and> layout_ok ts g \<and>
     map snd ts = head_toks mx @ concat (map line_toks ls))"

definition listing :: "u16 \<Rightarrow> line list \<Rightarrow> bytes" where
  "listing mx ls = show_toks (head_toks mx @ concat (map line_toks ls))"

text \<open>The operand of an integer, and the meaning of a line: the labels so far and the instructions.\<close>

definition int_operand :: "operand \<Rightarrow> i64 option \<Rightarrow> u32 option" where
  "int_operand k n = (case (k, n) of
     (OprNone, None) \<Rightarrow> Some 0
   | (OprImm, Some n) \<Rightarrow> Some (if sint n < 0 then ucast (ucast n :: u16) else of_nat (abs_min 0xFFFFFFFF n))
   | (OprSlot, Some n) \<Rightarrow> Some (of_nat (abs_min 0xFFFFFFFF n))
   | (OprDimension, Some n) \<Rightarrow> Some (of_nat (abs_min 0xFFFFFFFF n))
   | (OprJumpTable, Some n) \<Rightarrow> Some (of_nat (abs_min 0xFFFFFFFF n))
   | _ \<Rightarrow> None)"

fun line_means ::
    "line \<Rightarrow> (bytes \<times> u32) list \<times> (op \<times> u32) list \<Rightarrow> ((bytes \<times> u32) list \<times> (op \<times> u32) list) option" where
  "line_means (Lab l) (ls, xs) =
     (if map_of ls l = None then Some (AList.update l (of_nat (length (emitted xs)) div 4) ls, xs) else None)"
| "line_means (Ins x n) (ls, xs) = map_option (\<lambda>b. (ls, xs @ [(x, b)])) (int_operand (operand (insn x)) n)"
| "line_means (Jmp x l) (ls, xs) =
     (if operand (insn x) = OprTarget then map_option (\<lambda>b. (ls, xs @ [(x, b)])) (map_of ls l) else None)"
| "line_means Blank st = Some st"

fun lines_mean ::
    "line list \<Rightarrow> (bytes \<times> u32) list \<times> (op \<times> u32) list \<Rightarrow> ((bytes \<times> u32) list \<times> (op \<times> u32) list) option" where
  "lines_mean [] st = Some st"
| "lines_mean (l # ls) st = Option.bind (line_means l st) (lines_mean ls)"

fun line_ok :: "line \<Rightarrow> bool" where
  "line_ok (Lab l) = name_ok l"
| "line_ok (Ins x n) = (n \<noteq> Some (- (2 ^ 63)))"
| "line_ok (Jmp x l) = name_ok l"
| "line_ok Blank = True"

section \<open>Mnemonics\<close>

lemma mnem_name_ok: "name_ok (mnem x)"
proof -
  have "list_all (\<lambda>x. name_ok (ascii (mnemonic (table_row x)))) all_ops" by code_simp
  with all_ops_complete [of x] show ?thesis by (auto simp: list_all_iff mnem_def insn_eq)
qed

lemma find_own: "distinct (map g xs) \<Longrightarrow> x \<in> set xs \<Longrightarrow> List.find (\<lambda>r. g r = g x) xs = Some x"
  by (induction xs) auto

lemma find_mnem: "List.find (\<lambda>r. ascii (mnemonic r) = mnem x) TABLE = Some (insn x)"
proof -
  have "distinct (map (\<lambda>r. ascii (mnemonic r)) TABLE)" unfolding TABLE_def by code_simp
  moreover have "insn x \<in> set TABLE" using all_ops_complete [of x] by (simp add: TABLE_def insn_eq)
  ultimately show ?thesis unfolding mnem_def by (rule find_own)
qed

section \<open>The text is read\<close>

lemma line_toks_ok: "line_ok l \<Longrightarrow> list_all tok_ok (line_toks l)"
proof (induction l rule: line_ok.induct)
  case (2 x n)
  have "sint (a :: i64) = - (2 ^ 63) \<Longrightarrow> a = - (2 ^ 63)" for a
  proof -
    assume "sint a = - (2 ^ 63)"
    then have "word_of_int (sint a) = (word_of_int (- (2 ^ 63)) :: i64)" by simp
    then show "a = - (2 ^ 63)" by simp
  qed
  with 2 mnem_name_ok [of x] show ?case by (cases n) auto
qed (use mnem_name_ok in auto)

lemma sint_maxstack: "sint (ucast mx :: i64) = uint (mx :: u16)"
proof -
  have "uint mx < 2 ^ 16" using uint_lt2p [of mx] by simp
  moreover have "- (2 ^ 63) \<le> uint mx" by (rule order_trans [OF _ uint_ge_0]) simp
  ultimately show ?thesis
    by (simp add: sint_uint unsigned_ucast_eq take_bit_int_eq_self signed_take_bit_int_eq_self)
qed

lemma head_toks_ok: "list_all tok_ok (head_toks mx)"
proof -
  have "sint (ucast mx :: i64) \<noteq> - (2 ^ 63)" unfolding sint_maxstack
    by (rule less_imp_neq [THEN not_sym, OF less_le_trans [OF _ uint_ge_0]]) simp
  moreover have "name_ok (ascii ''main'')" "name_ok (ascii ''i32'')" "list_all name_byte (ascii ''fn'')"
    "list_all name_byte (ascii ''maxstack'')" by code_simp+
  ultimately show ?thesis by (simp add: head_toks_def ascii_def)
qed

lemma listing_written:
  assumes "list_all line_ok ls"
  shows "written mx ls (listing mx ls)"
proof -
  let ?ts = "head_toks mx @ concat (map line_toks ls)"
  have "list_all tok_ok (concat (map line_toks ls))"
    using assms line_toks_ok by (fastforce simp: list_all_iff)
  with head_toks_ok have "list_all tok_ok ?ts" by simp
  from spaced_layout(3) [OF this] spaced_layout(1,2) [of ?ts] show ?thesis
    unfolding written_def listing_def by metis
qed

lemma lex_written:
  assumes "written mx ls src"
  shows "\<exists>ts. lex src = Ok ts \<and> map t_tok ts = head_toks mx @ concat (map line_toks ls) @ [TEnd]"
  using assms lex_typeset by (fastforce simp: written_def)


section \<open>The lines are assembled\<close>

text \<open>The tokens from a position on.\<close>

definition toks_from :: "token list \<Rightarrow> nat \<Rightarrow> tok list \<Rightarrow> bool" where
  "toks_from ts i us \<longleftrightarrow> drop i (map t_tok ts) = us"

lemma toks_from_Cons:
  assumes "toks_from ts i (u # us)"
  shows "i < length ts" and "t_tok (ts ! i) = u" and "toks_from ts (Suc i) us"
proof -
  show i: "i < length ts" using assms by (cases "i < length ts") (auto simp: toks_from_def)
  have "drop i (map t_tok ts) = t_tok (ts ! i) # drop (Suc i) (map t_tok ts)"
    using i by (simp add: Cons_nth_drop_Suc [symmetric] drop_map)
  with assms show "t_tok (ts ! i) = u" "toks_from ts (Suc i) us" by (simp_all add: toks_from_def)
qed

lemma asm_loop_next:
  assumes "i < length ts" and "asm_step ts i a = Ok (b, j)"
  shows "asm_loop ts i a = asm_loop ts j b"
  using assms by (subst asm_loop.simps) simp

lemma asm_newline: "toks_from ts i (TNewline # us) \<Longrightarrow> asm_loop ts i a = asm_loop ts (Suc i) a"
  using toks_from_Cons [of ts i TNewline us] by (intro asm_loop_next) (simp_all add: asm_step_def Let_def)

text \<open>The assembler inside \<open>main\<close>, with these labels and instructions and nothing pending.\<close>

definition inside :: "bytes \<Rightarrow> asm \<Rightarrow> u16 \<Rightarrow> (bytes \<times> u32) list \<Rightarrow> (op \<times> u32) list \<Rightarrow> bool" where
  "inside nm a mx ls xs \<longleftrightarrow> o_name (a_obj a) = nm \<and> a_fn a = Some (ascii ''main'') \<and> a_maxstack a = Some mx \<and> a_args a = 0 \<and> a_returns a = 1 \<and>
     a_labels a = ls \<and> a_pending a = [] \<and> a_off a = 0 \<and> o_funcs (a_obj a) = [] \<and> o_entry (a_obj a) = None \<and>
     o_code (a_obj a) = emitted xs \<and> o_jump_tables (a_obj a) = one_table_each xs \<and>
     o_constants (a_obj a) = [] \<and> o_tools (a_obj a) = []"

lemma inside_emit:
  assumes "inside nm a mx ls xs"
  shows "inside nm (emit x b a) mx ls (xs @ [(x, b)])"
  using assms
  by (simp add: inside_def emit_def Let_def emitted_snoc one_table_each_def replicate_append_same [symmetric])

lemma instruction_line:
  assumes "read_operand (operand (insn x)) ts i (t_span (ts ! k)) a = Ok (b, a, j)" and "a_fn a \<noteq> None"
    and "t_tok (ts ! k) = TIdent (mnem x)" and "i = Suc k" and "toks_from ts j (TNewline # us)"
  shows "asm_step ts k a = Ok (emit x b a, Suc j)"
  using assms toks_from_Cons [OF assms(5)]
  by (simp add: asm_step_def Let_def instruction_def find_mnem insn_eq)


lemma asm_line:
  assumes "inside nm a mx ls xs" and "line_means l (ls, xs) = Some (ls', xs')" and "toks_from ts i (line_toks l @ us)"
  shows "\<exists>b j. asm_loop ts i a = asm_loop ts j b \<and> inside nm b mx ls' xs' \<and> toks_from ts j us"
proof (cases l)
  case (Lab s)
  note t = toks_from_Cons [OF assms(3) [unfolded Lab line_toks.simps append_Cons append_Nil]]
  note t2 = toks_from_Cons [OF t(3)]
  let ?b = "a\<lparr>a_labels := ls'\<rparr>"
  have new: "map_of ls s = None" "ls' = AList.update s (of_nat (length (emitted xs)) div 4) ls" "xs' = xs"
    using assms(2) by (auto simp: Lab split: if_splits)
  then have "asm_step ts i a = Ok (?b, Suc i)"
    using t(2) assms(1) by (simp add: asm_step_def Let_def label_def inside_def)
  then have "asm_loop ts i a = asm_loop ts (Suc (Suc i)) ?b"
    using asm_loop_next [OF t(1)] asm_newline [OF t(3)] by simp
  moreover have "inside nm ?b mx ls' xs'" using assms(1) new by (simp add: inside_def)
  ultimately show ?thesis using t2(3) by blast
next
  case (Jmp x s)
  note t = toks_from_Cons [OF assms(3) [unfolded Jmp line_toks.simps append_Cons append_Nil]]
  note t2 = toks_from_Cons [OF t(3)]
  obtain v where v: "operand (insn x) = OprTarget" "map_of ls s = Some v" "ls' = ls" "xs' = xs @ [(x, v)]"
    using assms(2) by (auto simp: Jmp split: if_splits)
  have "read_operand (operand (insn x)) ts (Suc i) at a = Ok (v, a, Suc (Suc i))" for at
    using v t2(1,2) assms(1) by (simp add: read_operand_def tok_at_eq inside_def)
  from instruction_line [OF this _ t(2) refl t2(3)] assms(1)
  have "asm_step ts i a = Ok (emit x v a, Suc (Suc (Suc i)))" by (simp add: inside_def)
  with asm_loop_next [OF t(1)] inside_emit [OF assms(1), of x v] v toks_from_Cons(3) [OF t2(3)] show ?thesis by auto
next
  case (Ins x n)
  from assms(2) obtain v where v: "int_operand (operand (insn x)) n = Some v" "ls' = ls" "xs' = xs @ [(x, v)]"
    by (auto simp: Ins)
  have fn: "a_fn a \<noteq> None" using assms(1) by (simp add: inside_def)
  show ?thesis
  proof (cases n)
    case None
    note t = toks_from_Cons [OF assms(3) [unfolded Ins None line_toks.simps append_Cons append_Nil]]
    note t2 = toks_from_Cons [OF t(3)]
    have "read_operand (operand (insn x)) ts (Suc i) at a = Ok (v, a, Suc i)" for at
      using v(1) None t2(1,2) by (auto simp: read_operand_def int_operand_def split: operand.splits)
    from asm_loop_next [OF t(1) instruction_line [OF this fn t(2) refl t(3)]] inside_emit [OF assms(1), of x v] v t2(3)
    show ?thesis by auto
  next
    case (Some m)
    note t = toks_from_Cons [OF assms(3) [unfolded Ins Some line_toks.simps append_Cons append_Nil]]
    note t2 = toks_from_Cons [OF t(3)]
    have "read_operand (operand (insn x)) ts (Suc i) at a = Ok (v, a, Suc (Suc i))" for at
      using v(1) Some t2(1,2) by (auto simp: read_operand_def int_operand_def tok_at_eq split: operand.splits)
    from asm_loop_next [OF t(1) instruction_line [OF this fn t(2) refl t2(3)]] inside_emit [OF assms(1), of x v] v
      toks_from_Cons(3) [OF t2(3)] show ?thesis by auto
  qed
next
  case Blank
  have t: "toks_from ts i (TNewline # us)" using assms(3) Blank by simp
  show ?thesis using asm_newline [OF t] toks_from_Cons(3) [OF t] assms(1,2) Blank by auto
qed

lemma asm_lines:
  "inside nm a mx ls xs \<Longrightarrow> lines_mean lns (ls, xs) = Some (ls', xs') \<Longrightarrow> toks_from ts i (concat (map line_toks lns) @ us) \<Longrightarrow>
     \<exists>b j. asm_loop ts i a = asm_loop ts j b \<and> inside nm b mx ls' xs' \<and> toks_from ts j us"
proof (induction lns arbitrary: a ls xs i)
  case Nil
  then show ?case by auto
next
  case (Cons l lns)
  then obtain ls1 xs1 where l: "line_means l (ls, xs) = Some (ls1, xs1)" "lines_mean lns (ls1, xs1) = Some (ls', xs')"
    by (auto simp: Option.bind_eq_Some_conv)
  have "toks_from ts i (line_toks l @ concat (map line_toks lns) @ us)" using Cons.prems(3) by simp
  from asm_line [OF Cons.prems(1) l(1) this] obtain b j where
    b: "asm_loop ts i a = asm_loop ts j b" "inside nm b mx ls1 xs1" "toks_from ts j (concat (map line_toks lns) @ us)" by blast
  from Cons.IH [OF b(2) l(2) b(3)] b(1) show ?case by auto
qed

section \<open>The object\<close>

definition main_meta :: "u16 \<Rightarrow> (op \<times> u32) list \<Rightarrow> func_meta" where
  "main_meta mx xs = \<lparr>fm_name = ascii ''main'', fm_code_off = 0, fm_code_len = of_nat (length (emitted xs)),
     fm_maxstack = mx, fm_args = 0, fm_returns = 1\<rparr>"

definition main_obj :: "bytes \<Rightarrow> u16 \<Rightarrow> (op \<times> u32) list \<Rightarrow> obj" where
  "main_obj name mx xs = \<lparr>o_name = name, o_constants = [], o_funcs = [main_meta mx xs], o_tools = [],
     o_code = emitted xs, o_jump_tables = one_table_each xs, o_entry = Some (ascii ''main'')\<rparr>"

lemma asm_head:
  assumes "toks_from ts 0 (head_toks mx @ us)"
  shows "\<exists>a. asm_loop ts 0 (asm_start nm) = asm_loop ts 10 a \<and> inside nm a mx [] [] \<and> toks_from ts 10 us"
proof -
  note t0 = toks_from_Cons [OF assms [unfolded head_toks_def append_Cons append_Nil]]
  note t1 = toks_from_Cons [OF t0(3)]
  note t2 = toks_from_Cons [OF t1(3)]
  note t3 = toks_from_Cons [OF t2(3)]
  note t4 = toks_from_Cons [OF t3(3)]
  note t5 = toks_from_Cons [OF t4(3)]
  note t6 = toks_from_Cons [OF t5(3)]
  note t7 = toks_from_Cons [OF t6(3)]
  note t8 = toks_from_Cons [OF t7(3)]
  note t9 = toks_from_Cons [OF t8(3)]
  let ?S = Suc
  have sig: "fn_signature ts (?S (?S 0)) False 0 1 = Ok (?S (?S (?S (?S (?S (?S 0))))), 0, 1)"
    using t2 t3 t4 t5 t6
    by (simp add: fn_signature.simps signature_step_def tok_at_eq after_arrow_def ascii_def)
  let ?a = "(asm_start nm)\<lparr>a_args := 0, a_returns := 1, a_fn := Some (ascii ''main''), a_maxstack := None,
      a_labels := [], a_pending := [], a_off := length (o_code (a_obj (asm_start nm)))\<rparr>"
  have "asm_step ts 0 (asm_start nm) = Ok (?a, ?S (?S (?S (?S (?S (?S 0))))))"
    using t0 t1 sig by (simp add: asm_step_def Let_def directive_def dir_fn_def tok_at_eq ascii_def asm_start_def)
  then have l1: "asm_loop ts 0 (asm_start nm) = asm_loop ts (?S (?S (?S (?S (?S (?S (?S 0))))))) ?a"
    using asm_loop_next [OF t0(1)] asm_newline [OF t5(3)] by simp
  have mx: "of_nat (abs_min 0xFFFF (ucast mx)) = mx"
  proof -
    have "unat mx \<le> 0xFFFF" using unat_bound [of mx] by simp
    then show ?thesis by (simp add: abs_min_def sint_maxstack min_absorb2)
  qed
  have "asm_step ts (?S (?S (?S (?S (?S (?S (?S 0))))))) ?a =
      Ok (?a\<lparr>a_maxstack := Some mx\<rparr>, ?S (?S (?S (?S (?S (?S (?S (?S (?S 0)))))))))"
    using t7 t8 mx by (simp add: asm_step_def Let_def directive_def dir_maxstack_def tok_at_eq ascii_def)
  with l1 asm_loop_next [OF t7(1)] asm_newline [OF t8(3)]
  have "asm_loop ts 0 (asm_start nm) = asm_loop ts 10 (?a\<lparr>a_maxstack := Some mx\<rparr>)"
    by (simp add: eval_nat_numeral)
  moreover have "inside nm (?a\<lparr>a_maxstack := Some mx\<rparr>) mx [] []"
    by (simp add: inside_def asm_start_def obj_default_def one_table_each_def)
  moreover have "toks_from ts 10 us" using t9(3) by (simp add: eval_nat_numeral)
  ultimately show ?thesis by blast
qed

theorem assemble_listing:
  assumes "written mx lns src" and "lines_mean lns ([], []) = Some (ls, xs)"
  shows "assemble nm src = Ok (main_obj nm mx xs)"
proof -
  from lex_written [OF assms(1)] obtain ts where ts: "lex src = Ok ts"
    "map t_tok ts = head_toks mx @ concat (map line_toks lns) @ [TEnd]" by blast
  then have "toks_from ts 0 (head_toks mx @ concat (map line_toks lns) @ [TEnd])" by (simp add: toks_from_def)
  from asm_head [OF this] obtain a where
    a: "asm_loop ts 0 (asm_start nm) = asm_loop ts 10 a" "inside nm a mx [] []"
    "toks_from ts 10 (concat (map line_toks lns) @ [TEnd])" by blast
  from asm_lines [OF a(2) assms(2) a(3)] obtain b j where
    b: "asm_loop ts 10 a = asm_loop ts j b" "inside nm b mx ls xs" "toks_from ts j [TEnd]" by blast
  note e = toks_from_Cons [OF b(3)]
  have "\<not> Suc j < length ts" using e(3) by (auto simp: toks_from_def)
  then have "asm_loop ts j b = Ok b"
    using asm_loop_next [OF e(1), of b b "Suc j"] e(2)
    by (simp add: asm_step_def Let_def asm_loop.simps [of _ "Suc j"])
  with ts(1) a(1) b(1,2) show ?thesis
    by (simp add: assemble_def close_main_def inside_def main_obj_def main_meta_def Let_def)
qed

end
