(* ===== verification/CV_Pipeline.thy ===== *)
theory CV_Pipeline
  imports CV_Sound CV_Listing
begin

text \<open>
  From text to the end of a run, \<open>assemble\<close>, \<open>admit\<close>, \<open>Vm::new\<close> and \<open>Vm::step\<close> one after the
  other: the listing of a program of plain, narrow instructions whose walk the verifier accepts is assembled,
  admitted and runs to its end.
\<close>

section \<open>The graph of a program without branches\<close>

lemma straight_succs:
  assumes "sound_straight ds" and "i < length ds"
  shows "raw_succs ds tables i = Ok (if Suc i < length ds then [Suc i] else [])"
    and "falls_through (insn (d_op (ds ! i))) \<longleftrightarrow> Suc i < length ds"
proof -
  have last: "d_op (ds ! i) = OpHalt" if "\<not> Suc i < length ds"
  proof -
    from that assms(2) have "i = length ds - 1" by simp
    with assms last_conv_nth [of ds] show ?thesis by (simp add: sound_straight_def)
  qed
  have plain: "d_op (ds ! i) \<in> set sound_ops" if "Suc i < length ds"
  proof -
    from that have "ds ! i \<in> set (butlast ds)" by (auto simp: in_set_conv_nth nth_butlast intro!: exI [of _ i])
    with assms(1) show ?thesis by (simp add: sound_straight_def)
  qed
  have row: "falls_through (insn x) \<and> x \<notin> {OpBr, OpBrz, OpBrnz, OpSwitch}" if "x \<in> set sound_ops" for x
    using that by (auto simp: sound_ops_def plain_ops_def insn_eq mk_row_def)
  have halt: "\<not> falls_through (insn OpHalt)" by (simp add: insn_eq mk_row_def)
  show "falls_through (insn (d_op (ds ! i))) \<longleftrightarrow> Suc i < length ds"
    using last plain row halt by metis
  show "raw_succs ds tables i = Ok (if Suc i < length ds then [Suc i] else [])"
    using last plain row halt assms(2)
    by (cases "Suc i < length ds") (auto simp: raw_succs_def nth_get_def check_target_def)
qed

lemma straight_leaders:
  assumes "sound_straight ds"
  shows "leaders ds tables = Ok (True # replicate (length ds - 1) False)"
proof -
  have "mark_leaders ds tables is leader = Ok leader" if "set is \<subseteq> {..<length ds}" for "is" leader
    using that
  proof (induction "is")
    case (Cons i "is")
    then show ?case using straight_succs(1) [OF assms, of i tables] straight_succs(2) [OF assms, of i] by auto
  qed simp
  moreover obtain m where "length ds = Suc m" using assms by (cases ds) (auto simp: sound_straight_def)
  ultimately show ?thesis by (auto simp: leaders_def atLeast0LessThan simp del: upt_Suc)
qed


definition one_block :: "nat \<Rightarrow> block list" where
  "one_block n = [\<lparr>b_start = 0, b_end = n, b_succs = [], b_preds = []\<rparr>]"

lemma straight_blocks:
  assumes "sound_straight ds"
  shows "partition_blocks ds tables = Ok (one_block (length ds), replicate (length ds) 0)"
proof -
  let ?n = "length ds"
  have n: "0 < ?n" using assms by (simp add: sound_straight_def)
  then obtain m where m: "?n = Suc m" by (cases ?n) auto
  have "starts_of (True # replicate m False) = [0]"
    by (auto simp: starts_of_def upt_conv_Cons filter_empty_conv nth_Cons' simp del: upt_Suc)
  then have st: "starts_of (True # replicate (?n - Suc 0) False) = [0]" by (simp add: m)
  have "raw_succs ds tables (?n - 1) = Ok []" using straight_succs(1) [OF assms, of "?n - 1"] n by simp
  then have "block_succs ds tables ow \<lparr>b_start = 0, b_end = ?n, b_succs = [], b_preds = []\<rparr> =
      Ok \<lparr>b_start = 0, b_end = ?n, b_succs = [], b_preds = []\<rparr>" for ow
    by (simp add: block_succs_def)
  then show ?thesis
    by (simp add: partition_blocks_def straight_leaders [OF assms] st owners_def bare_blocks_def block_end_def
        nth_get_def fill_def link_preds_def one_block_def Let_def)
qed

lemma straight_build:
  assumes "decode_range code f = Ok (ds, ats)" and "sound_straight ds"
  shows "\<exists>g. build code f tables = Some (Ok g) \<and> c_insns g = ds \<and> c_back_edges g = []"
proof -
  have "reverse_postorder (one_block n) = Ok [0]" for n
    by (simp add: reverse_postorder_def one_block_def postorder.simps nth_get_def)
  moreover have "dominators (one_block n) [0] num = Some (Ok [0])" for n num
    by (simp add: dominators_def one_block_def dom_loop.simps)
  ultimately show ?thesis
    using assms(1) straight_blocks [OF assms(2), of tables]
    by (simp add: build_def find_back_edges_def one_block_def Let_def)
qed

lemma straight_accepted:
  assumes "decode_range code f = Ok (ds, ats)" and "sound_straight ds" and "fm_maxstack f \<noteq> 0"
    and "scan index (length tables) n (fm_maxstack f) 0 ds (0, []) = Ok ()" and "fork_balance ds = 0"
  shows "check_function code f index tables n = Some (Ok ())"
proof -
  from straight_build [OF assms(1,2)] obtain g where g: "build code f tables = Some (Ok g)" "c_insns g = ds"
    "c_back_edges g = []" by blast
  obtain es e where "ds = es @ [e]" "d_op e = OpHalt"
    using assms(2) by (cases ds rule: rev_cases) (auto simp: sound_straight_def)
  then show ?thesis using assms(3-5) g by (simp add: check_function_def check_graph_def Let_def)
qed

text \<open>Programs of integers are among these.\<close>

lemma straight_sound:
  assumes "plain_straight ds"
  shows "sound_straight ds" and "fork_balance ds = 0"
proof -
  show "sound_straight ds" using assms by (auto simp: plain_straight_def sound_straight_def sound_ops_def)
  obtain es e where ds: "ds = es @ [e]" using assms by (cases ds rule: rev_cases) (auto simp: plain_straight_def)
  then have "d_op e = OpHalt" "\<forall>d\<in>set es. d_op d \<in> set plain_ops" using assms by (auto simp: plain_straight_def)
  then have "\<forall>d\<in>set ds. d_op d \<notin> {OpFork, OpCommit, OpAbort}" unfolding ds by (auto simp: plain_ops_def)
  then show "fork_balance ds = 0" unfolding fork_balance_def by (induction ds rule: rev_induct) auto
qed

section \<open>From text to the run\<close>

lemma main_decodes:
  assumes "length (emitted xs) < 2 ^ 32"
  shows "decode_range (emitted xs) (main_meta mx xs) = Ok (map decoded_of xs, starts_at 0 xs)"
proof -
  have "unat (fm_code_len (main_meta mx xs)) = length (emitted xs)" using assms by (simp add: main_meta_def unat_of_nat)
  then show ?thesis
    using laid_out_emitted [of "[]" xs 0] by (subst decode_range_iff) (simp add: slice_get_def main_meta_def)
qed

lemma listing_admitted:
  assumes "written mx lns src" and "lines_mean lns ([], []) = Some (ls, xs)"
    and "sound_straight (map decoded_of xs)" and "fork_balance (map decoded_of xs) = 0" and "mx \<noteq> 0"
    and "scan [(ascii ''main'', 0)] 0 0 mx 0 (map decoded_of xs) (0, []) = Ok ()" and "length xs < 2 ^ 30"
    and "seal_check (emitted xs) = Ok ()" and "keeps_parts build_image mark_verified"
  shows "\<exists>x im s. assemble nm src = Ok x \<and> admit seal_check build_image mark_verified x = Some (Ok im) \<and>
     vm_new im lim = Ok s \<and> length (o_funcs x) < 2 ^ 32 \<and>
     (\<forall>f\<in>set (o_funcs x). decode_range (o_code x) f = Ok (map decoded_of xs, starts_at 0 xs))"
proof -
  let ?x = "main_obj nm mx xs" and ?ds = "map decoded_of xs"
  let ?f = "main_meta mx xs" and ?im = "mark_verified (build_image (main_obj nm mx xs))"
  have x: "assemble nm src = Ok ?x" by (rule assemble_listing [OF assms(1,2)])
  have "\<forall>p\<in>set xs. unat (encoded_len (snd p)) = 4"
    using assms(3) by (force simp: sound_straight_def decoded_of_def)
  then have "length (emitted xs) = 4 * length xs"
    unfolding length_emitted by (induction xs) (auto simp: case_prod_beta)
  then have len: "length (o_code ?x) < 2 ^ 32" using assms(7) by (simp add: main_obj_def)
  have tables: "one_table_each xs = []"
  proof -
    have "?ds = butlast ?ds @ [last ?ds]" using assms(3) by (simp add: sound_straight_def)
    moreover have "d_op d \<noteq> OpSwitch" if "d \<in> set (butlast ?ds)" for d
      using assms(3) that by (auto simp: sound_straight_def sound_ops_def plain_ops_def)
    moreover have "d_op (last ?ds) \<noteq> OpSwitch" using assms(3) by (simp add: sound_straight_def)
    ultimately have "\<forall>d\<in>set ?ds. d_op d \<noteq> OpSwitch" by (metis Un_iff empty_iff empty_set insert_iff list.simps(15) set_append)
    then show ?thesis by (auto simp: one_table_each_def filter_empty_conv)
  qed
  have dec: "decode_range (emitted xs) ?f = Ok (?ds, starts_at 0 xs)"
    using main_decodes len by (simp add: main_obj_def)
  have "check_function (emitted xs) ?f [(ascii ''main'', 0)] [] 0 = Some (Ok ())"
    by (rule straight_accepted [OF dec assms(3)]) (use assms(4-6) in \<open>simp_all add: main_meta_def\<close>)
  moreover have "func_index [?f] = [(ascii ''main'', 0)]" by (simp add: func_index_def main_meta_def)
  ultimately have adm: "admit seal_check build_image mark_verified ?x = Some (Ok ?im)"
    using assms(8) tables by (simp add: admit_def main_obj_def)
  have "img_funcs ?im = [?f]" using assms(9) by (simp add: keeps_parts_def main_obj_def)
  then obtain s where s: "vm_new ?im lim = Ok s" using vm_new_panic [of ?im lim]
    by (cases "vm_new ?im lim") (auto simp: vm_new_def Let_def split: option.splits)
  have "o_funcs ?x = [?f]" "o_code ?x = emitted xs" by (simp_all add: main_obj_def)
  with x adm s dec show ?thesis by (intro exI [of _ ?x] exI [of _ ?im] exI [of _ s]) simp
qed

text \<open>A program whose types the verifier accepts goes right.\<close>

theorem sound_listing_runs:
  assumes "written mx lns src" and "lines_mean lns ([], []) = Some (ls, xs)"
    and "sound_straight (map decoded_of xs)" and "fork_balance (map decoded_of xs) = 0" and "mx \<noteq> 0"
    and "scan [(ascii ''main'', 0)] 0 0 mx 0 (map decoded_of xs) (0, []) = Ok ()"
    and "length xs < 2 ^ 30" and "length xs \<le> unat (max_steps lim)"
    and "seal_check (emitted xs) = Ok ()" and "keeps_parts build_image mark_verified"
  shows "\<exists>x im s r t. assemble nm src = Ok x \<and> admit seal_check build_image mark_verified x = Some (Ok im) \<and>
     vm_new im lim = Ok s \<and> vm_step None s = Some (r, t) \<and> goes_right r"
proof -
  from listing_admitted [where seal_check = seal_check and build_image = build_image and mark_verified = mark_verified
      and nm = nm and lim = lim, OF assms(1-7,9,10)] obtain x im s where
    x: "assemble nm src = Ok x" "admit seal_check build_image mark_verified x = Some (Ok im)"
    "vm_new im lim = Ok s" "length (o_funcs x) < 2 ^ 32"
    "\<forall>f\<in>set (o_funcs x). decode_range (o_code x) f = Ok (map decoded_of xs, starts_at 0 xs)" by blast
  from accepted_straight_sound [where seal_check = seal_check and build_image = build_image and mark_verified = mark_verified,
      OF x(2) assms(10) x(3,4)] x(5) assms(3,8) obtain r t where "vm_step None s = Some (r, t)" "goes_right r" by auto
  with x show ?thesis by blast
qed

text \<open>A program of integers halts with what it computes.\<close>

theorem straight_listing_halts:
  assumes "written mx lns src" and "lines_mean lns ([], []) = Some (ls, xs)"
    and "plain_straight (map decoded_of xs)" and "mx \<noteq> 0"
    and "scan [(ascii ''main'', 0)] 0 0 mx 0 (map decoded_of xs) (0, []) = Ok ()"
    and "length xs < 2 ^ 30" and "length xs \<le> unat (max_steps lim)"
    and "seal_check (emitted xs) = Ok ()" and "keeps_parts build_image mark_verified"
  shows "\<exists>x im s n st t. assemble nm src = Ok x \<and> admit seal_check build_image mark_verified x = Some (Ok im) \<and>
     vm_new im lim = Ok s \<and> calc_all (butlast (map decoded_of xs)) [] = Some (n # st) \<and>
     vm_step None s = Some (Ok (Halted n), t)"
proof -
  from listing_admitted [where seal_check = seal_check and build_image = build_image and mark_verified = mark_verified
      and nm = nm and lim = lim, OF assms(1,2) straight_sound [OF assms(3)] assms(4-6,8,9)] obtain x im s where
    x: "assemble nm src = Ok x" "admit seal_check build_image mark_verified x = Some (Ok im)"
    "vm_new im lim = Ok s" "length (o_funcs x) < 2 ^ 32"
    "\<forall>f\<in>set (o_funcs x). decode_range (o_code x) f = Ok (map decoded_of xs, starts_at 0 xs)" by blast
  from accepted_straight_halts [where seal_check = seal_check and build_image = build_image and mark_verified = mark_verified,
      OF x(2) assms(9) x(3,4)] x(5) assms(3,7) obtain n st t where
    "calc_all (butlast (map decoded_of xs)) [] = Some (n # st)" "vm_step None s = Some (Ok (Halted n), t)" by auto
  with x show ?thesis by blast
qed

end
