(* ===== verification/CV_Jumps.thy ===== *)
theory CV_Jumps
  imports CV_Pipeline
begin

text \<open>
  Programs of integers with branches: the reference machine of \<open>CV_Calc\<close> is extended by a program
  counter, by division and by what fails, and the interpreter of \<open>src/src/interp.rs\<close> ends as it
  does, whether with a result, an error or the end of its step budget.
\<close>

section \<open>The reference machine\<close>

text \<open>The result of one instruction, and of a run.\<close>

datatype move = Goes nat "i64 list" | Halts i64 | Fails code

definition jump_ops :: "op list" where
  "jump_ops = plain_ops @ [OpDiv, OpMod, OpBr, OpBrz, OpBrnz, OpHalt]"

definition divided :: "op \<Rightarrow> i64 \<Rightarrow> i64 \<Rightarrow> i64" where
  "divided x a b = (case int_arith x of Some g \<Rightarrow> word_of_int (g (sint a) (sint b)) | None \<Rightarrow> 0)"

definition jump_move :: "nat \<Rightarrow> decoded \<Rightarrow> nat \<Rightarrow> i64 list \<Rightarrow> move" where
  "jump_move mx d k st =
     (if d_op d = OpHalt then Halts (case st of [] \<Rightarrow> 0 | a # s \<Rightarrow> a)
      else if d_op d = OpBr then Goes (unat (d_b d)) st
      else if d_op d \<in> {OpBrz, OpBrnz} then (case st of
          [] \<Rightarrow> Fails StackUnderflow
        | a # s \<Rightarrow> Goes (if a = 0 \<longleftrightarrow> d_op d = OpBrz then unat (d_b d) else k + 1) s)
      else if d_op d \<in> {OpDiv, OpMod} then (case st of
          b # a # s \<Rightarrow> if b = 0 then Fails DivideByZero else Goes (k + 1) (divided (d_op d) a b # s)
        | _ \<Rightarrow> Fails StackUnderflow)
      else (case calc d st of
          None \<Rightarrow> Fails StackUnderflow
        | Some st' \<Rightarrow> if length st' \<le> mx then Goes (k + 1) st' else Fails MaxstackExceeded))"

text \<open>A run of at most \<open>n\<close> instructions.\<close>

fun play :: "nat \<Rightarrow> nat \<Rightarrow> decoded list \<Rightarrow> nat \<Rightarrow> i64 list \<Rightarrow> move" where
  "play 0 mx ds k st = Fails BudgetExceeded"
| "play (Suc n) mx ds k st = (case jump_move mx (ds ! k) k st of
     Goes k' st' \<Rightarrow> play n mx ds k' st' | m \<Rightarrow> m)"

text \<open>The positions \<open>S\<close> hold only these opcodes and are not left.\<close>

definition closed_on :: "nat set \<Rightarrow> decoded list \<Rightarrow> bool" where
  "closed_on S ds \<longleftrightarrow> (\<forall>i\<in>S. i < length ds \<and> d_op (ds ! i) \<in> set jump_ops \<and>
     (operand (insn (d_op (ds ! i))) = OprTarget \<longrightarrow> unat (d_b (ds ! i)) \<in> S) \<and>
     (d_op (ds ! i) \<notin> {OpBr, OpHalt} \<longrightarrow> i + 1 \<in> S))"

text \<open>\<open>Vm::fetch\<close> finds these instructions, one for every four bytes.\<close>

definition fetches :: "bytes \<Rightarrow> func_meta \<Rightarrow> nat set \<Rightarrow> decoded list \<Rightarrow> bool" where
  "fetches code f S ds \<longleftrightarrow> length ds < 2 ^ 30 \<and>
     (\<forall>k\<in>S. decode code (unat (fm_code_off f) + k * INSN_LEN) = Some (ds ! k))"

lemma decoded_fetches:
  assumes "decode_range code f = Ok (ds, ats)" and "\<forall>d\<in>set ds. d_len d = 4" and "closed_on S ds"
  shows "fetches code f S ds"
  using narrow_fetch [OF assms(1,2)] decode_range_small(2) [OF assms(1)] assms(3)
  by (auto simp: fetches_def closed_on_def)

lemma about_to_fetches:
  assumes "about_to code f s k st" and "fetches code f S ds" and "k \<in> S"
  shows "fetch s = Ok (ds ! k)" and "frames s \<noteq> []"
proof -
  from assms(1) obtain fs g where g: "frames s = fs @ [g]" "nth_get (img_funcs (vm_image s)) (unat (func g)) = Some f"
    "unat (pc g) = k" "img_code (vm_image s) = code" by (auto simp: about_to_def runs_def)
  with assms(2,3) show "fetch s = Ok (ds ! k)" by (simp add: fetch_def fetches_def)
  from g show "frames s \<noteq> []" by simp
qed

lemma jump_move_closed:
  assumes "closed_on S ds" and "k \<in> S" and "jump_move mx (ds ! k) k st = Goes k' st'"
  shows "k' \<in> S"
proof -
  have c: "d_op (ds ! k) \<in> {OpBr, OpBrz, OpBrnz} \<longrightarrow> unat (d_b (ds ! k)) \<in> S"
    "d_op (ds ! k) \<notin> {OpBr, OpHalt} \<longrightarrow> k + 1 \<in> S"
    using assms(1,2) by (auto simp: closed_on_def insn_eq mk_row_def)
  with assms(3) show ?thesis
    by (auto simp: jump_move_def split: if_splits list.splits option.splits)
qed

section \<open>Failures\<close>

lemma fails_pop: "yields (\<lambda>c. c = StackUnderflow) fs f [] (on_frame pop) Q"
  by (rule yieldsI) (auto simp: runs_def pop_def operands_def frame_wf_def on_frame_def fail_def diag_new_def Let_def)

lemma fails_int: "yields (\<lambda>c. c = StackUnderflow) fs f [] int_top Q"
  by (rule yieldsI)
    (auto simp: int_top_def pop_as_def sbind_def runs_def pop_def operands_def frame_wf_def on_frame_def fail_def
        diag_new_def Let_def)

lemma fails_peek: "yields (\<lambda>c. c = StackUnderflow) fs f [] (on_frame (peek 0)) Q"
  by (rule yieldsI)
    (auto simp: runs_def peek_def operands_def frame_wf_def on_frame_def of_opt_def diag_new_def Let_def)

lemma fails_push:
  assumes "unat (maxstack f) \<le> length vs"
  shows "yields (\<lambda>c. c = MaxstackExceeded) fs f vs (push_val v) Q"
proof (rule yieldsI)
  fix s g assume s: "runs s fs g vs" "same_frame f g"
  then have "unat (maxstack g) \<le> sp g" using assms length_operands [of g] by (auto simp: runs_def same_frame_maxstack)
  with s(1) show "(\<exists>x t h ws. push_val v s = (Ok x, t) \<and> runs t fs h ws \<and> same_frame g h \<and> same_run s t \<and> Q x ws) \<or>
      (\<exists>e t. push_val v s = (Err e, t) \<and> dcode e = MaxstackExceeded)"
    by (auto simp: runs_def push_val_def push_def on_frame_def fail_def diag_new_def Let_def)
qed

lemma fails_bind: "yields E fs f vs m (\<lambda>_ _. False) \<Longrightarrow> yields E fs f vs (sbind m k) Q"
  by (erule yields_bind) simp

lemma fails_adv: "yields E fs f vs m (\<lambda>_ _. False) \<Longrightarrow> yields E fs f vs (adv m) Q"
  unfolding adv_def sthen_def by (rule fails_bind)

lemma pop_one: "yields E fs f [] (k v) Q \<Longrightarrow> yields E fs f [v] (sbind (on_frame pop) k) Q"
  using pop_bind [of E fs f "[]" k v Q] by simp

lemma int_one: "yields E fs f [] (k n) Q \<Longrightarrow> yields E fs f [v_int n] (sbind int_top k) Q"
  using int_bind [of E fs f "[]" k n Q] by simp

lemma pop_two: "yields E fs f [v] (k w) Q \<Longrightarrow> yields E fs f [v, w] (sbind (on_frame pop) k) Q"
  using pop_bind [of E fs f "[v]" k w Q] by simp

lemma fails_two_ints:
  assumes "length st < 2"
  shows "yields (\<lambda>c. c = StackUnderflow) fs f (ints st) (sbind int_top (\<lambda>b. sbind int_top (k b))) Q"
proof -
  consider "st = []" | b where "st = [b]" using assms by (cases st) auto
  then show ?thesis
  proof cases
    case 1
    then show ?thesis using fails_bind [OF fails_int] by simp
  next
    case 2
    have "yields (\<lambda>c. c = StackUnderflow) fs f [v_int b] (sbind int_top (\<lambda>b. sbind int_top (k b))) Q"
      by (intro int_one fails_bind fails_int)
    with 2 show ?thesis by simp
  qed
qed

lemma plain_fails:
  assumes "x \<in> set plain_ops" and "calc_op x (imm d) st = None"
  shows "yields (\<lambda>c. c = StackUnderflow) fs f (ints st) (exec_op x d) (\<lambda>_ _. False)"
  using assms(1)
proof (cases rule: plain_cases)
  case (arith g)
  from int_arith_arm [OF assms(1) arith(1)] obtain h where h: "exec_op x d = adv (binop h)" by blast
  from assms(2) arith have "length st < 2" by (auto simp: calc_op_def split: list.splits)
  then show ?thesis unfolding h binop_def by (intro fails_adv fails_two_ints)
next
  case shuffle
  note u = fails_pop fails_int fails_peek
  consider "x = OpDup" "st = []" | "x = OpDrop" "st = []" | "x = OpNot" "st = []"
    | "x = OpSwap" "st = []" | a where "x = OpSwap" "st = [a]"
    | "x = OpRot" "st = []" | a where "x = OpRot" "st = [a]" | a b where "x = OpRot" "st = [a, b]"
    using shuffle assms(2) by (auto simp: calc_op_def split: list.splits)
  then show ?thesis
  proof cases
    case 1
    then show ?thesis by (auto simp: ex_dup_def intro!: fails_adv fails_bind u)
  next
    case 2
    then show ?thesis by (auto intro!: fails_adv u)
  next
    case 3
    then show ?thesis by (auto simp: ex_not_def intro!: fails_adv fails_bind u)
  next
    case 4
    then show ?thesis by (auto simp: ex_swap_def intro!: fails_adv fails_bind u)
  next
    case 5
    have "yields (\<lambda>c. c = StackUnderflow) fs f [v_int a] ex_swap (\<lambda>_ _. False)"
      unfolding ex_swap_def by (intro pop_one fails_bind [OF fails_pop])
    with 5 show ?thesis by (simp add: fails_adv)
  next
    case 6
    then show ?thesis by (auto simp: ex_rot_def intro!: fails_adv fails_bind u)
  next
    case 7
    have "yields (\<lambda>c. c = StackUnderflow) fs f [v_int a] ex_rot (\<lambda>_ _. False)"
      unfolding ex_rot_def by (intro pop_one fails_bind [OF fails_pop])
    with 7 show ?thesis by (simp add: fails_adv)
  next
    case 8
    have "yields (\<lambda>c. c = StackUnderflow) fs f [v_int b, v_int a] ex_rot (\<lambda>_ _. False)"
      unfolding ex_rot_def by (intro pop_two pop_one fails_bind [OF fails_pop])
    with 8 show ?thesis by (simp add: fails_adv)
  qed
qed

text \<open>Only \<open>ldi\<close> and \<open>dup\<close> can run out of room.\<close>

lemma plain_full:
  assumes "x \<in> set plain_ops" and "calc_op x (imm d) st = Some st'"
    and "length st \<le> unat (maxstack f)" and "unat (maxstack f) < length st'"
  shows "yields (\<lambda>c. c = MaxstackExceeded) fs f (ints st) (exec_op x d) (\<lambda>_ _. False)"
proof -
  have "x = OpLdi \<or> (x = OpDup \<and> (\<exists>a s. st = a # s))"
    using assms(1)
  proof (cases rule: plain_cases)
    case (arith g)
    with assms(2-4) show ?thesis by (auto simp: calc_op_def split: list.splits)
  next
    case shuffle
    with assms(2-4) show ?thesis by (auto simp: calc_op_def split: list.splits)
  qed
  moreover have len: "unat (maxstack f) \<le> length (ints st)"
    using calculation assms(2-4) by (auto simp: calc_op_def)
  moreover have "yields (\<lambda>c. c = MaxstackExceeded) fs f (ints st) (ex_dup 0) (\<lambda>_ _. False)" if "st = a # s" for a s
  proof -
    have "yields (\<lambda>c. c = MaxstackExceeded) fs f (ints s @ [v_int a]) (on_frame (peek 0))
        (\<lambda>x ws. ws = ints s @ [v_int a])" by (rule yields_weaken [OF yields_peek]) simp
    then show ?thesis unfolding ex_dup_def that ints_simps
      by (rule yields_bind) (use len that in \<open>auto intro: fails_push\<close>)
  qed
  ultimately show ?thesis by (auto intro!: fails_adv fails_push)
qed

section \<open>One instruction\<close>

lemma exec_fails:
  assumes "runs s fs f vs" and "yields (\<lambda>c. c = e) fs f vs (exec_op (d_op d) d) (\<lambda>_ _. False)"
  shows "\<exists>x t. exec d s = (Err x, t) \<and> dcode x = e"
proof -
  have "yields (\<lambda>c. c = e) fs f vs (exec_op (d_op d) d) (\<lambda>a us. a \<and> False)"
    by (rule yields_weaken [OF assms(2)]) simp
  from exec_yields [OF assms(1) this] show ?thesis by (auto split: prod.splits res.splits)
qed

text \<open>What \<open>exec\<close> does with a reference move: it goes on with these integers, stops or fails.\<close>

definition moves :: "vm \<Rightarrow> frame list \<Rightarrow> frame \<Rightarrow> decoded \<Rightarrow> move \<Rightarrow> bool" where
  "moves s fs f d m \<longleftrightarrow> (case m of
     Goes k' st' \<Rightarrow> \<exists>g t. exec d s = (Ok (), t) \<and> runs t fs g (ints st') \<and> func g = func f \<and>
       unat (pc g) = k' \<and> maxstack g = maxstack f \<and> same_run s t
   | Halts n \<Rightarrow> exec d s = (Ok (), s\<lparr>frames := [], halt := Some n\<rparr>)
   | Fails c \<Rightarrow> \<exists>e t. exec d s = (Err e, t) \<and> dcode e = c)"

lemma moves_next:
  assumes "runs s fs f vs" and "yields (\<lambda>_. False) fs f vs (exec_op (d_op d) d) (\<lambda>a us. a \<and> us = ints st')"
    and "unat (pc f) = k" and "k < 2 ^ 32 - 1"
  shows "moves s fs f d (Goes (k + 1) st')"
proof -
  from exec_yields [OF assms(1,2)] obtain g t where
    "exec d s = (Ok (), t)" "runs t fs g (ints st')" "moved_on f g" "same_run s t" by (auto split: prod.splits res.splits)
  then show ?thesis using assms(3,4) by (auto simp: moves_def moved_on_def unat_word_ariths)
qed

lemma moves_jump:
  assumes "exec_op (d_op d) d s = (Ok False, s\<lparr>frames := fs @ [g\<lparr>pc := b\<rparr>]\<rparr>)"
    and "runs (s\<lparr>frames := fs @ [g]\<rparr>) fs g (ints st')" and "same_frame f g" and "frames s \<noteq> []"
  shows "moves s fs f d (Goes (unat b) st')"
proof -
  have "exec d s = (Ok (), s\<lparr>frames := fs @ [g\<lparr>pc := b\<rparr>]\<rparr>)"
    using assms(1,4) by (simp add: exec_def sbind_def sget_def sret_def)
  moreover have "runs (s\<lparr>frames := fs @ [g\<lparr>pc := b\<rparr>]\<rparr>) fs (g\<lparr>pc := b\<rparr>) (ints st')"
    using assms(2) by (simp add: runs_def frame_wf_def operands_def)
  ultimately show ?thesis using assms(3) by (auto simp: moves_def same_frame_def)
qed

lemma branch_moves:
  assumes "exec_op (d_op d) d = ex_branch_if z (d_b d)" and "runs s fs f (ints (a # st))"
    and "unat (pc f) = k" and "k < 2 ^ 32 - 1"
  shows "moves s fs f d (Goes (if (a = 0) = z then unat (d_b d) else k + 1) st)"
proof -
  have truth: "is_truthy (v_int a) \<longleftrightarrow> a \<noteq> 0" by (simp add: is_truthy_def v_int_def)
  from assms(2) have run: "runs s fs f (ints st @ [v_int a])" by simp
  show ?thesis
  proof (cases "(a = 0) = z")
    case True
    from run obtain g where g: "on_frame pop s = (Ok (v_int a), s\<lparr>frames := fs @ [g]\<rparr>)"
      "runs (s\<lparr>frames := fs @ [g]\<rparr>) fs g (ints st)" "same_frame f g" by (rule pop_view)
    then have "exec_op (d_op d) d s = (Ok False, s\<lparr>frames := fs @ [g\<lparr>pc := d_b d\<rparr>]\<rparr>)"
      using True truth by (auto simp: assms(1) ex_branch_if_def sbind_def sthen_def sret_def Let_def on_frame_def set_pc_def smod_def)
    from moves_jump [OF this g(2,3)] run True show ?thesis by (simp add: runs_def)
  next
    case False
    then have "yields (\<lambda>_. False) fs f (ints st) (sret True) (\<lambda>a us. a \<and> us = ints st)" by (intro yields_ret) simp
    then have "yields (\<lambda>_. False) fs f (ints st @ [v_int a]) (ex_branch_if z (d_b d)) (\<lambda>a us. a \<and> us = ints st)"
      unfolding ex_branch_if_def using False truth by (intro pop_bind) (auto simp: Let_def)
    then have "yields (\<lambda>_. False) fs f (ints st @ [v_int a]) (exec_op (d_op d) d) (\<lambda>a us. a \<and> us = ints st)"
      by (simp add: assms(1))
    from moves_next [OF run this assms(3,4)] False show ?thesis by simp
  qed
qed

lemma div_moves:
  assumes "d_op d \<in> {OpDiv, OpMod}" and "runs s fs f (ints (b # a # st))" and "unat (pc f) = k" and "k < 2 ^ 32 - 1"
  shows "moves s fs f d (if b = 0 then Fails DivideByZero else Goes (k + 1) (divided (d_op d) a b # st))"
proof -
  obtain h where h: "exec_op (d_op d) = (\<lambda>_. adv (divop h))" and v: "h a b = divided (d_op d) a b"
  proof (cases "d_op d = OpDiv")
    case True
    with that [of i64_div] show ?thesis by (simp add: divided_def i64_div_def fun_eq_iff)
  next
    case False
    with assms(1) that [of i64_rem] show ?thesis by (simp add: divided_def i64_rem_def fun_eq_iff)
  qed
  have run: "runs s fs f ((ints st @ [v_int a]) @ [v_int b])" using assms(2) by simp
  show ?thesis
  proof (cases "b = 0")
    case True
    have "yields (\<lambda>c. c = DivideByZero) fs f ((ints st @ [v_int a]) @ [v_int b]) (divop h) (\<lambda>_ _. False)"
      unfolding divop_def by (intro int_bind) (simp add: True yields_fail)
    then have "yields (\<lambda>c. c = DivideByZero) fs f ((ints st @ [v_int a]) @ [v_int b]) (exec_op (d_op d) d) (\<lambda>_ _. False)"
      by (simp add: h fails_adv)
    from exec_fails [OF run this] True show ?thesis by (simp add: moves_def)
  next
    case False
    have "length (ints st) < unat (maxstack f)" using runs_room [OF run] by simp
    then have "yields (\<lambda>_. False) fs f ((ints st @ [v_int a]) @ [v_int b]) (divop h) (\<lambda>_ us. us = ints st @ [v_int (h a b)])"
      unfolding divop_def by (intro int_bind) (simp add: False yields_push)
    from yields_adv [OF this] have "yields (\<lambda>_. False) fs f ((ints st @ [v_int a]) @ [v_int b]) (exec_op (d_op d) d)
        (\<lambda>c us. c \<and> us = ints (divided (d_op d) a b # st))" by (simp add: h v)
    from moves_next [OF run this assms(3,4)] False show ?thesis by simp
  qed
qed

lemma plain_moves:
  assumes "d_op d \<in> set plain_ops" and "runs s fs f (ints st)" and "unat (pc f) = k" and "k < 2 ^ 32 - 1"
  shows "moves s fs f d (case calc d st of
     None \<Rightarrow> Fails StackUnderflow
   | Some st' \<Rightarrow> if length st' \<le> unat (maxstack f) then Goes (k + 1) st' else Fails MaxstackExceeded)"
proof (cases "calc d st")
  case None
  with exec_fails [OF assms(2) plain_fails [OF assms(1)]] show ?thesis by (simp add: moves_def calc_def)
next
  case (Some st')
  have room: "length st \<le> unat (maxstack f)" using runs_room [OF assms(2)] by simp
  show ?thesis
  proof (cases "length st' \<le> unat (maxstack f)")
    case True
    from calc_arm [OF assms(1) refl _ room True] Some moves_next [OF assms(2) _ assms(3,4)] True
    show ?thesis by (simp add: calc_def)
  next
    case False
    with exec_fails [OF assms(2) plain_full [OF assms(1) _ room]] Some show ?thesis by (simp add: moves_def calc_def)
  qed
qed

theorem jump_exec:
  assumes "d_op d \<in> set jump_ops" and "runs s fs f (ints st)" and "unat (pc f) = k" and "k < 2 ^ 32 - 1"
  shows "moves s fs f d (jump_move (unat (maxstack f)) d k st)"
proof -
  have fr: "frames s = fs @ [f]" using assms(2) by (simp add: runs_def)
  have none: "d_op d \<notin> {OpHalt, OpBr, OpBrz, OpBrnz, OpDiv, OpMod}" if "d_op d \<in> set plain_ops"
    using that by (auto simp: plain_ops_def)
  consider (plain) "d_op d \<in> set plain_ops" | (division) "d_op d \<in> {OpDiv, OpMod}" | (branch) "d_op d = OpBr"
    | (cond) "d_op d \<in> {OpBrz, OpBrnz}" | (stop) "d_op d = OpHalt"
    using assms(1) by (auto simp: jump_ops_def)
  then show ?thesis
  proof cases
    case plain
    with plain_moves [OF plain assms(2-4)] none show ?thesis by (simp add: jump_move_def)
  next
    case division
    show ?thesis
    proof (cases "length st < 2")
      case True
      have "yields (\<lambda>c. c = StackUnderflow) fs f (ints st) (exec_op (d_op d) d) (\<lambda>_ _. False)"
        using division by (auto simp: divop_def intro!: fails_adv fails_two_ints [OF True])
      from exec_fails [OF assms(2) this] division True show ?thesis
        by (auto simp: moves_def jump_move_def split: list.splits)
    next
      case False
      then obtain b a r where "st = b # a # r" by (cases st; cases "tl st") auto
      with div_moves [OF division, of s fs f b a r k] assms(2-4) division show ?thesis by (auto simp: jump_move_def)
    qed
  next
    case branch
    then have "exec_op (d_op d) d s = (Ok False, s\<lparr>frames := fs @ [f\<lparr>pc := d_b d\<rparr>]\<rparr>)"
      using fr by (simp add: ex_br_def sthen_def sbind_def sret_def on_frame_def set_pc_def smod_def)
    moreover have "runs (s\<lparr>frames := fs @ [f]\<rparr>) fs f (ints st)" using assms(2) by (simp add: runs_def)
    ultimately show ?thesis using moves_jump [where b = "d_b d" and st' = st and f = f and g = f] branch fr by (simp add: jump_move_def)
  next
    case cond
    then have z: "exec_op (d_op d) d = ex_branch_if (d_op d = OpBrz) (d_b d)" by auto
    show ?thesis
    proof (cases st)
      case Nil
      have "yields (\<lambda>c. c = StackUnderflow) fs f (ints st) (exec_op (d_op d) d) (\<lambda>_ _. False)"
        unfolding z ex_branch_if_def by (rule fails_bind) (simp add: Nil fails_pop)
      from exec_fails [OF assms(2) this] cond Nil show ?thesis by (auto simp: moves_def jump_move_def)
    next
      case (Cons a r)
      with branch_moves [OF z, of s fs f a r k] assms(2-4) cond show ?thesis by (auto simp: jump_move_def)
    qed
  next
    case stop
    show ?thesis
    proof (cases st)
      case Nil
      then have "\<exists>e t. on_frame pop s = (Err e, t) \<and> t = s\<lparr>frames := fs @ [f]\<rparr>"
        using assms(2) by (auto simp: runs_def pop_def operands_def frame_wf_def on_frame_def fail_def)
      with stop Nil fr show ?thesis
        by (auto simp: jump_move_def moves_def exec_def ex_halt_def sbind_def sget_def sret_def)
    next
      case (Cons a r)
      with assms(2) have "runs s fs f (ints r @ [v_int a])" by simp
      then obtain g where "on_frame pop s = (Ok (v_int a), s\<lparr>frames := fs @ [g]\<rparr>)" by (rule pop_view)
      with stop Cons fr show ?thesis
        by (simp add: jump_move_def moves_def exec_def ex_halt_def exit_code_def sbind_def sget_def sret_def)
    qed
  qed
qed

section \<open>A whole run\<close>

definition ends :: "move \<Rightarrow> step result \<Rightarrow> bool" where
  "ends m r \<longleftrightarrow> (case m of
     Goes k st \<Rightarrow> False
   | Halts n \<Rightarrow> r = Ok (Halted n)
   | Fails c \<Rightarrow> \<exists>e. r = Err e \<and> dcode e = c)"

lemma tick_exhausted:
  assumes "frames s \<noteq> []" and "pending s = None" and "halt s = None" and "steps s = max_steps (limits s)"
    and "max_steps (limits s) \<noteq> -1"
  shows "tick s = (fail BudgetExceeded, s\<lparr>steps := steps s + 1\<rparr>)"
proof -
  have "unat (max_steps (limits s)) \<noteq> 2 ^ 64 - 1"
  proof
    assume "unat (max_steps (limits s)) = 2 ^ 64 - 1"
    then have "max_steps (limits s) = -1" by (simp add: word_unat_eq_iff unsigned_minus_1_eq_mask mask_eq_exp_minus_1)
    with assms(5) show False by simp
  qed
  then have "max_steps (limits s) < max_steps (limits s) + 1"
    using unat_bound [of "max_steps (limits s)"] by (simp add: word_less_nat_alt unat_word_ariths)
  with assms show ?thesis by (simp add: tick_def)
qed

lemma tick_moves:
  assumes "about_to code f s k st" and "fetches code f S ds" and "closed_on S ds" and "k \<in> S"
    and "unat (steps s) < unat (max_steps (limits s))"
    and "m = jump_move (unat (fm_maxstack f)) (ds ! k) k st"
  shows "m = Goes k' st' \<Longrightarrow> \<exists>t. tick s = (Ok None, t) \<and> about_to code f t k' st' \<and> limits t = limits s \<and>
      unat (steps t) = unat (steps s) + 1"
    and "m = Halts n \<Longrightarrow> \<exists>t. tick s = (Ok None, t) \<and> pending t = None \<and> halt t = Some n"
    and "m = Fails c \<Longrightarrow> \<exists>e t. tick s = (Err e, t) \<and> dcode e = c"
proof -
  let ?s = "s\<lparr>steps := steps s + 1\<rparr>"
  from assms(1) obtain fs g where g: "runs s fs g (ints st)" "nth_get (img_funcs (vm_image s)) (unat (func g)) = Some f"
    "unat (pc g) = k" "maxstack g = fm_maxstack f" "img_code (vm_image s) = code"
    and rest: "pending s = None" "halt s = None" by (auto simp: about_to_def)
  have k: "k < length ds" using assms(3,4) by (auto simp: closed_on_def)
  note fetch = about_to_fetches [OF assms(1,2,4)]
  note tick = tick_exec [OF fetch(2) rest assms(5) fetch(1)]
  have "k < 2 ^ 32 - 1" using assms(2) k by (simp add: fetches_def)
  moreover have "runs ?s fs g (ints st)" using g(1) by (simp add: runs_def)
  moreover have "d_op (ds ! k) \<in> set jump_ops" using assms(3,4) by (simp add: closed_on_def)
  ultimately have mv: "moves ?s fs g (ds ! k) m" using jump_exec g(3,4) assms(6) by metis
  {
    assume "m = Goes k' st'"
    with mv obtain h t where h: "exec (ds ! k) ?s = (Ok (), t)" "runs t fs h (ints st')" "func h = func g"
      "unat (pc h) = k'" "maxstack h = maxstack g" "same_run ?s t" by (auto simp: moves_def)
    then have "about_to code f t k' st'"
      using g rest unfolding about_to_def same_run_def by (intro conjI exI [of _ fs] exI [of _ h]) auto
    with h tick show "\<exists>t. tick s = (Ok None, t) \<and> about_to code f t k' st' \<and> limits t = limits s \<and>
      unat (steps t) = unat (steps s) + 1" by (simp add: same_run_def)
  next
    assume "m = Halts n"
    with mv tick(1) rest show "\<exists>t. tick s = (Ok None, t) \<and> pending t = None \<and> halt t = Some n"
      by (simp add: moves_def)
  next
    assume "m = Fails c"
    with mv tick(1) show "\<exists>e t. tick s = (Err e, t) \<and> dcode e = c" by (auto simp: moves_def)
  }
qed

theorem play_run:
  assumes "fetches code f S ds" and "closed_on S ds" and "about_to code f s k st" and "k \<in> S"
    and "unat (steps s) \<le> unat (max_steps (limits s))" and "max_steps (limits s) \<noteq> -1"
  shows "\<exists>r t. run_loop s = Some (r, t) \<and>
     ends (play (unat (max_steps (limits s)) - unat (steps s)) (unat (fm_maxstack f)) ds k st) r"
  using assms(3-)
proof (induction "unat (max_steps (limits s)) - unat (steps s)" arbitrary: s k st)
  case 0
  then have "steps s = max_steps (limits s)" by (simp add: word_unat_eq_iff)
  moreover have "frames s \<noteq> []" "pending s = None" "halt s = None" using 0(2) by (auto simp: about_to_def runs_def)
  ultimately have t: "tick s = (fail BudgetExceeded, s\<lparr>steps := steps s + 1\<rparr>)" using tick_exhausted 0(5) by blast
  have "run_loop s = Some (fail BudgetExceeded, s\<lparr>steps := steps s + 1\<rparr>)" by (subst run_loop.simps) (simp add: t fail_def)
  then show ?case using 0(1) [symmetric] by (simp add: ends_def fail_def diag_new_def)
next
  case (Suc n)
  have lt: "unat (steps s) < unat (max_steps (limits s))" using Suc(2) by simp
  let ?m = "jump_move (unat (fm_maxstack f)) (ds ! k) k st"
  note step = tick_moves [OF Suc.prems(1) assms(1,2) Suc.prems(2) lt refl]
  have play: "play (unat (max_steps (limits s)) - unat (steps s)) (unat (fm_maxstack f)) ds k st =
      (case ?m of Goes k' st' \<Rightarrow> play n (unat (fm_maxstack f)) ds k' st' | m \<Rightarrow> m)"
    by (simp flip: Suc(2))
  show ?case
  proof (cases ?m)
    case (Goes k' st')
    from step(1) [OF Goes] obtain t where t: "tick s = (Ok None, t)" "about_to code f t k' st'"
      "limits t = limits s" "unat (steps t) = unat (steps s) + 1" by blast
    have "n = unat (max_steps (limits t)) - unat (steps t)" using t Suc(2) by simp
    moreover have "k' \<in> S" by (rule jump_move_closed [OF assms(2) Suc.prems(2) Goes])
    ultimately have "\<exists>r u. run_loop t = Some (r, u) \<and>
        ends (play (unat (max_steps (limits t)) - unat (steps t)) (unat (fm_maxstack f)) ds k' st') r"
      using Suc.hyps(1) [of t k' st'] t Suc.prems(4) lt by simp
    with \<open>n = _\<close> run_loop_tick [OF t(1)] show ?thesis by (simp add: play Goes)
  next
    case (Halts a)
    from step(2) [OF Halts] obtain t where t: "tick s = (Ok None, t)" "pending t = None" "halt t = Some a" by blast
    then have "run_loop t = Some (Ok (Halted a), t\<lparr>halt := None\<rparr>)"
      by (intro run_loop_stop) (simp add: tick_def)
    with run_loop_tick [OF t(1)] show ?thesis by (simp add: play Halts ends_def)
  next
    case (Fails c)
    from step(3) [OF Fails] obtain e t where t: "tick s = (Err e, t)" "dcode e = c" by blast
    have "run_loop s = Some (Err e, t)" by (subst run_loop.simps) (simp add: t)
    with t(2) show ?thesis by (simp only: play Fails) (simp add: ends_def)
  qed
qed

end
