(* ===== verification/CV_Admitted.thy ===== *)
theory CV_Admitted
  imports CV_Jumps
begin

text \<open>
  What acceptance by \<open>src/src/verify.rs\<close> promises of a program, and three programs that show what
  it does not promise.
\<close>

section \<open>Operands, targets and loops\<close>

lemma func_index_range: "k \<in> snd ` set (func_index fs) \<Longrightarrow> k < length fs"
proof -
  have "k < n" if "k \<in> snd ` set (foldl (\<lambda>m i. AList.update (fm_name (fs ! i)) i m) [] [0..<n])" for n
    using that
  proof (induction n)
    case (Suc n)
    then show ?case by (auto dest!: set_AList_update simp: less_Suc_eq)
  qed simp
  then show "k \<in> snd ` set (func_index fs) \<Longrightarrow> k < length fs" by (simp add: func_index_def)
qed

lemma check_operand_Ok:
  assumes "check_operand index nt nc i d = Ok ()"
  shows "operand (insn (d_op d)) = OprConst \<Longrightarrow> unat (d_b d) < nc"
    and "operand (insn (d_op d)) = OprFunc \<Longrightarrow> unat (d_b d) \<in> snd ` set index"
    and "operand (insn (d_op d)) = OprJumpTable \<Longrightarrow> unat (d_b d) < nt"
  using assms by (auto simp: check_operand_def Let_def split: if_splits)

lemma mark_leaders_targets:
  "mark_leaders ds tables is leader = Ok leader' \<Longrightarrow> i \<in> set is \<Longrightarrow> \<exists>ss. raw_succs ds tables i = Ok ss"
  by (induction "is" arbitrary: leader) (auto simp: rbind_eq_Ok Let_def split: if_splits)

lemma leaders_targets:
  assumes "leaders ds tables = Ok leader" and "i < length ds"
  shows "\<exists>ss. raw_succs ds tables i = Ok ss"
  using assms mark_leaders_targets [of ds tables "[0..<length ds]"]
  by (auto simp: leaders_def atLeast0LessThan split: if_splits)

lemma build_leaders:
  assumes "build code f tables = Some (Ok g)"
  shows "\<exists>leader. leaders (c_insns g) tables = Ok leader"
proof -
  from assms obtain insns ats blocks owner where "decode_range code f = Ok (insns, ats)"
    "partition_blocks insns tables = Ok (blocks, owner)"
    unfolding build_def by (auto simp: obind_Some_Ok)
  with build_Ok(2) [OF assms] show ?thesis by (auto simp: partition_blocks_def rbind_eq_Ok)
qed

lemma branch_target_in_range:
  assumes "raw_succs ds tables i = Ok ss" and "i < length ds" and "d_op (ds ! i) \<in> {OpBr, OpBrz, OpBrnz}"
  shows "unat (d_b (ds ! i)) < length ds"
  using assms by (auto simp: raw_succs_def nth_get_def check_target_def rbind_eq_Ok split: if_splits)

definition in_range :: "obj \<Rightarrow> nat \<Rightarrow> decoded \<Rightarrow> bool" where
  "in_range x n d \<longleftrightarrow>
     (operand (insn (d_op d)) = OprConst \<longrightarrow> unat (d_b d) < length (o_constants x)) \<and>
     (operand (insn (d_op d)) = OprFunc \<longrightarrow> unat (d_b d) < length (o_funcs x)) \<and>
     (operand (insn (d_op d)) = OprJumpTable \<longrightarrow> unat (d_b d) < length (o_jump_tables x)) \<and>
     (operand (insn (d_op d)) = OprTarget \<longrightarrow> unat (d_b d) < n)"

lemma target_ops: "operand (insn x) = OprTarget \<longleftrightarrow> x \<in> {OpBr, OpBrz, OpBrnz}"
proof -
  have "list_all (\<lambda>x. operand (table_row x) = OprTarget \<longleftrightarrow> x \<in> {OpBr, OpBrz, OpBrnz}) all_ops" by code_simp
  with all_ops_complete [of x] show ?thesis by (auto simp: list_all_iff insn_eq)
qed

lemma accepted_build:
  assumes "admit seal_check build_image mark_verified x = Some (Ok im)" and "f \<in> set (o_funcs x)"
    and "decode_range (o_code x) f = Ok (ds, ats)"
  shows "\<exists>g. build (o_code x) f (o_jump_tables x) = Some (Ok g) \<and> c_insns g = ds \<and>
     check_graph (func_index (o_funcs x)) (length (o_jump_tables x)) (length (o_constants x)) (fm_maxstack f) g = Ok ()"
  using check_function_Ok [OF admit_Ok(3) [OF assms(1,2)]] build_Ok(2) assms(3) by fastforce

theorem admitted_operands_in_range:
  assumes "admit seal_check build_image mark_verified x = Some (Ok im)" and "f \<in> set (o_funcs x)"
    and "decode_range (o_code x) f = Ok (ds, ats)" and "d \<in> set ds"
  shows "in_range x (length ds) d"
proof -
  from accepted_build [OF assms(1-3)] obtain g where g: "build (o_code x) f (o_jump_tables x) = Some (Ok g)"
    "c_insns g = ds" and c: "check_graph (func_index (o_funcs x)) (length (o_jump_tables x))
      (length (o_constants x)) (fm_maxstack f) g = Ok ()" by blast
  from scan_operands [OF check_graph_Ok(1) [OF c]] g(2) assms(4) obtain j where
    "check_operand (func_index (o_funcs x)) (length (o_jump_tables x)) (length (o_constants x)) j d = Ok ()" by blast
  note chk = check_operand_Ok [OF this]
  obtain i where i: "i < length ds" "ds ! i = d" using assms(4) by (auto simp: in_set_conv_nth)
  from build_leaders [OF g(1)] leaders_targets i(1) g(2) obtain ss
    where "raw_succs ds (o_jump_tables x) i = Ok ss" by blast
  then have "d_op d \<in> {OpBr, OpBrz, OpBrnz} \<Longrightarrow> unat (d_b d) < length ds"
    using branch_target_in_range i by blast
  with chk func_index_range show ?thesis by (simp add: in_range_def target_ops)
qed

theorem admitted_loops_metered:
  assumes "admit seal_check build_image mark_verified x = Some (Ok im)" and "f \<in> set (o_funcs x)"
    and "build (o_code x) f (o_jump_tables x) = Some (Ok g)"
    and "reachable_block g t" and "edge (c_blocks g) t h" and "dominator g h t"
  shows "t \<le> h \<and> (\<exists>i. t \<le> i \<and> i \<le> h \<and> i < length (c_insns g) \<and> d_op (c_insns g ! i) \<in> set metering)"
proof -
  note b = build_Ok [OF assms(3)]
  from accepted_build [OF assms(1,2) b(2)] assms(3)
  have "check_loops (c_insns g) (c_back_edges g) = Ok ()" using check_graph_Ok(3) by fastforce
  moreover have "(t, h) \<in> set (c_back_edges g)" using find_back_edges_result [OF b(1)] b(3) assms(4-6) by auto
  ultimately show ?thesis by (rule check_loops_Ok)
qed

text \<open>The walk forgets the stack at a variadic instruction, its results too: what follows it can
  take no operand.\<close>

lemma scan_neighbours:
  "scan index nt nc mx i ds s = Ok () \<Longrightarrow> Suc k < length ds \<Longrightarrow>
     \<exists>s1 s2 s3. scan_insn index nt nc mx (i + k) (ds ! k) s1 = Ok s2 \<and>
       scan_insn index nt nc mx (Suc (i + k)) (ds ! Suc k) s2 = Ok s3"
proof (induction ds arbitrary: i s k)
  case (Cons d ds)
  from Cons.prems obtain s1 where s1: "scan_insn index nt nc mx i d s = Ok s1" "scan index nt nc mx (Suc i) ds s1 = Ok ()"
    by (auto simp: rbind_eq_Ok)
  show ?case
  proof (cases k)
    case 0
    with Cons.prems(2) obtain e es where "ds = e # es" by (cases ds) auto
    moreover from this s1(2) obtain s2 where "scan_insn index nt nc mx (Suc i) e s1 = Ok s2" by (auto simp: rbind_eq_Ok)
    ultimately show ?thesis using s1(1) 0 by (intro exI [of _ s] exI [of _ s1] exI [of _ s2]) simp
  next
    case (Suc j)
    with Cons.IH [OF s1(2), of j] Cons.prems(2) show ?thesis by simp
  qed
qed simp

theorem admitted_after_variadic:
  assumes "admit seal_check build_image mark_verified x = Some (Ok im)" and "f \<in> set (o_funcs x)"
    and "decode_range (o_code x) f = Ok (ds, ats)" and "Suc k < length ds" and "variadic (insn (d_op (ds ! k)))"
  shows "variadic (insn (d_op (ds ! Suc k))) \<or> pops (insn (d_op (ds ! Suc k))) = []"
proof -
  from accepted_build [OF assms(1-3)] obtain g where g: "c_insns g = ds"
    "check_graph (func_index (o_funcs x)) (length (o_jump_tables x)) (length (o_constants x)) (fm_maxstack f) g = Ok ()"
    by blast
  from scan_neighbours [OF check_graph_Ok(1) [OF g(2)], of k] g(1) assms(4) obtain i s1 s2 s3 where
    s: "scan_insn (func_index (o_funcs x)) (length (o_jump_tables x)) (length (o_constants x)) (fm_maxstack f) i (ds ! k) s1 = Ok s2"
    "scan_insn (func_index (o_funcs x)) (length (o_jump_tables x)) (length (o_constants x)) (fm_maxstack f) (Suc i)
       (ds ! Suc k) s2 = Ok s3" by auto
  from s(1) assms(5) have "s2 = (0, [])"
    by (auto simp: scan_insn_def stack_effect_def Let_def rbind_eq_Ok split: if_splits)
  with s(2) show ?thesis
    by (cases "pops (insn (d_op (ds ! Suc k)))")
      (auto simp: scan_insn_def stack_effect_def rbind_eq_Ok bad_def Let_def split: if_splits)
qed

section \<open>Accepted programs of integers\<close>

lemma accepted_closed:
  assumes "build code f tables = Some (Ok g)" and "check_graph index nt n mx g = Ok ()"
    and "\<forall>d\<in>set (c_insns g). d_len d = 4 \<and> d_op d \<in> set jump_ops"
  shows "closed_on {..<length (c_insns g)} (c_insns g)" and "c_insns g \<noteq> []"
proof -
  let ?ds = "c_insns g"
  show "?ds \<noteq> []" using check_graph_Ok(2) [OF assms(2)] by auto
  have each: "(operand (insn (d_op (?ds ! i))) = OprTarget \<longrightarrow> unat (d_b (?ds ! i)) < length ?ds) \<and>
      (d_op (?ds ! i) \<notin> {OpBr, OpHalt} \<longrightarrow> Suc i < length ?ds)" if i: "i < length ?ds" for i
  proof -
    from build_leaders [OF assms(1)] leaders_targets i obtain ss where ss: "raw_succs ?ds tables i = Ok ss" by blast
    have "\<And>x. x \<in> set jump_ops \<Longrightarrow> x \<noteq> OpSwitch \<and> (x \<notin> {OpBr, OpHalt} \<longrightarrow> falls_through (insn x))"
      by (auto simp: jump_ops_def plain_ops_def insn_eq mk_row_def)
    then have "d_op (?ds ! i) \<noteq> OpSwitch" "d_op (?ds ! i) \<notin> {OpBr, OpHalt} \<longrightarrow> falls_through (insn (d_op (?ds ! i)))"
      using assms(3) i by simp_all
    with ss i show ?thesis
      by (auto simp: raw_succs_def Let_def nth_get_def check_target_def target_ops rbind_eq_Ok split: if_splits)
  qed
  with assms(3) show "closed_on {..<length ?ds} ?ds" by (simp add: closed_on_def)
qed

theorem admitted_integer_program_runs:
  assumes "admit seal_check build_image mark_verified x = Some (Ok im)" and "keeps_parts build_image mark_verified"
    and "vm_new im lim = Ok s" and "length (o_funcs x) < 2 ^ 32" and "max_steps lim \<noteq> -1"
    and "\<forall>f\<in>set (o_funcs x). \<forall>ds ats. decode_range (o_code x) f = Ok (ds, ats) \<longrightarrow>
      (\<forall>d\<in>set ds. d_len d = 4 \<and> d_op d \<in> set jump_ops)"
  shows "\<exists>f\<in>set (o_funcs x). \<exists>ds ats r t. decode_range (o_code x) f = Ok (ds, ats) \<and>
     vm_step None s = Some (r, t) \<and> ends (play (unat (max_steps lim)) (unat (fm_maxstack f)) ds 0 []) r"
proof -
  from accepted_start [OF assms(1-4)] obtain f where f: "f \<in> set (o_funcs x)"
    and at: "about_to (o_code x) f s 0 []" and st: "limits s = lim" "steps s = 0" by blast
  from check_function_Ok [OF admit_Ok(3) [OF assms(1) f]] obtain c where c: "build (o_code x) f (o_jump_tables x) = Some (Ok c)"
    "check_graph (func_index (o_funcs x)) (length (o_jump_tables x)) (length (o_constants x)) (fm_maxstack f) c = Ok ()"
    by blast
  note dec = build_Ok(2) [OF c(1)]
  have ops: "\<forall>d\<in>set (c_insns c). d_len d = 4 \<and> d_op d \<in> set jump_ops" using assms(6) f dec by blast
  note cl = accepted_closed [OF c ops]
  have "0 \<in> {..<length (c_insns c)}" using cl(2) by simp
  then have "\<exists>r t. run_loop s = Some (r, t) \<and>
      ends (play (unat (max_steps lim)) (unat (fm_maxstack f)) (c_insns c) 0 []) r"
    using play_run [OF decoded_fetches [OF dec _ cl(1)] cl(1) at] ops st assms(5) by simp
  then obtain r t where "run_loop s = Some (r, t)" "ends (play (unat (max_steps lim)) (unat (fm_maxstack f)) (c_insns c) 0 []) r"
    by blast
  then show ?thesis using f dec by (auto simp: vm_step_def intro!: bexI [of _ f])
qed

end
