(* ===== verification/CV_Builder.thy ===== *)
theory CV_Builder
  imports CV_AsmFacts
begin

text \<open>
  \<open>Builder\<close> of \<open>src/src/asm.rs\<close>, through which a frontend writes an \<open>Object\<close> without source text:
  its state, one definition per method, and what a sequence of calls builds.
\<close>

section \<open>State and methods\<close>

record builder =
  bl_obj :: obj
  bl_fn :: "bytes option"
  bl_maxstack :: u16
  bl_args :: u8
  bl_returns :: u8
  bl_labels :: "(bytes \<times> u32) list"
  bl_pending :: "(bytes \<times> span) list"
  bl_off :: nat

definition builder_new :: "bytes \<Rightarrow> builder" where
  "builder_new name =
     \<lparr>bl_obj = obj_default\<lparr>o_name := name\<rparr>, bl_fn = None, bl_maxstack = 0, bl_args = 0, bl_returns = 1,
      bl_labels = [], bl_pending = [], bl_off = 0\<rparr>"

definition close_fn :: "builder \<Rightarrow> builder" where
  "close_fn b = (case bl_fn b of
     None \<Rightarrow> b
   | Some name \<Rightarrow>
       let x = bl_obj b;
           x' = (if name = ascii ''main'' then x\<lparr>o_entry := Some name\<rparr> else x)
       in b\<lparr>bl_fn := None,
            bl_obj := x'\<lparr>o_funcs := o_funcs x' @
              [\<lparr>fm_name = name, fm_code_off = of_nat (bl_off b), fm_code_len = of_nat (length (o_code x) - bl_off b),
                fm_maxstack = bl_maxstack b, fm_args = bl_args b, fm_returns = bl_returns b\<rparr>]\<rparr>\<rparr>)"

definition begin_fn :: "bytes \<Rightarrow> u8 \<Rightarrow> u8 \<Rightarrow> u16 \<Rightarrow> builder \<Rightarrow> builder" where
  "begin_fn name args rets mx b0 =
     (let b = close_fn b0
      in b\<lparr>bl_fn := Some name, bl_args := args, bl_returns := rets, bl_maxstack := mx, bl_labels := [],
           bl_pending := [], bl_off := length (o_code (bl_obj b))\<rparr>)"

definition add_label :: "bytes \<Rightarrow> builder \<Rightarrow> builder" where
  "add_label name b =
     (if bl_fn b = None then b
      else b\<lparr>bl_labels := AList.update name (of_nat (length (o_code (bl_obj b)) - bl_off b) div 4) (bl_labels b)\<rparr>)"

definition add_insn :: "op \<Rightarrow> u8 \<Rightarrow> u32 \<Rightarrow> builder \<Rightarrow> builder" where
  "add_insn x a n b = b\<lparr>bl_obj := (bl_obj b)\<lparr>o_code := fst (encode (o_code (bl_obj b)) x a n)\<rparr>\<rparr>"

definition const_str :: "bytes \<Rightarrow> builder \<Rightarrow> u32 \<times> builder" where
  "const_str s b =
     (of_nat (length (o_constants (bl_obj b))),
      b\<lparr>bl_obj := (bl_obj b)\<lparr>o_constants := o_constants (bl_obj b) @ [s]\<rparr>\<rparr>)"

definition finish :: "builder \<Rightarrow> obj result" where
  "finish b0 =
     (let b = close_fn b0 in if o_entry (bl_obj b) = None then fail NoEntryPoint else Ok (bl_obj b))"

section \<open>Functions as a frontend writes them\<close>

text \<open>What a frontend calls between two \<open>begin_fn\<close>.\<close>

datatype piece = Label_at bytes | Insn_at op u8 u32 | Const_at bytes

fun add_piece :: "piece \<Rightarrow> builder \<Rightarrow> builder" where
  "add_piece (Label_at l) b = add_label l b"
| "add_piece (Insn_at x a n) b = add_insn x a n b"
| "add_piece (Const_at s) b = snd (const_str s b)"

record source_fn =
  s_name :: bytes
  s_args :: u8
  s_returns :: u8
  s_maxstack :: u16
  s_body :: "piece list"

definition write_fn :: "source_fn \<Rightarrow> builder \<Rightarrow> builder" where
  "write_fn f b = fold add_piece (s_body f) (begin_fn (s_name f) (s_args f) (s_returns f) (s_maxstack f) b)"

fun piece_ops :: "piece list \<Rightarrow> (op \<times> u8 \<times> u32) list" where
  "piece_ops [] = []"
| "piece_ops (Insn_at x a n # ps) = (x, a, n) # piece_ops ps"
| "piece_ops (_ # ps) = piece_ops ps"

fun piece_consts :: "piece list \<Rightarrow> bytes list" where
  "piece_consts [] = []"
| "piece_consts (Const_at s # ps) = s # piece_consts ps"
| "piece_consts (_ # ps) = piece_consts ps"

definition fn_code :: "source_fn \<Rightarrow> bytes" where
  "fn_code f = assemble_ops (piece_ops (s_body f))"

fun metas :: "nat \<Rightarrow> source_fn list \<Rightarrow> func_meta list" where
  "metas off [] = []"
| "metas off (f # fs) =
     \<lparr>fm_name = s_name f, fm_code_off = of_nat off, fm_code_len = of_nat (length (fn_code f)),
      fm_maxstack = s_maxstack f, fm_args = s_args f, fm_returns = s_returns f\<rparr> # metas (off + length (fn_code f)) fs"

section \<open>What is built\<close>

text \<open>The pieces of one function only append to the code and the constants.\<close>

lemma add_pieces:
  "\<exists>ls. fold add_piece ps b = b\<lparr>bl_obj := (bl_obj b)\<lparr>o_code := o_code (bl_obj b) @ assemble_ops (piece_ops ps),
     o_constants := o_constants (bl_obj b) @ piece_consts ps\<rparr>, bl_labels := ls\<rparr>"
proof (induction ps arbitrary: b)
  case Nil
  then show ?case by (intro exI [of _ "bl_labels b"]) (simp add: assemble_ops_def)
next
  case (Cons p ps)
  show ?case
  proof (cases p)
    case (Label_at l)
    with Cons [of "add_label l b"] show ?thesis by (auto simp: add_label_def)
  next
    case (Insn_at x a n)
    with Cons [of "add_insn x a n b"] show ?thesis
      by (auto simp: add_insn_def assemble_ops_def encode_appends [of "o_code (bl_obj b)"])
  next
    case (Const_at s)
    with Cons [of "snd (const_str s b)"] show ?thesis by (auto simp: const_str_def)
  qed
qed

definition built :: "bytes \<Rightarrow> source_fn list \<Rightarrow> obj" where
  "built nm fs = \<lparr>o_name = nm, o_constants = concat (map (\<lambda>f. piece_consts (s_body f)) fs), o_funcs = metas 0 fs,
     o_tools = [], o_code = concat (map fn_code fs), o_jump_tables = [],
     o_entry = (if ascii ''main'' \<in> set (map s_name fs) then Some (ascii ''main'') else None)\<rparr>"

lemma metas_snoc: "metas off (fs @ [f]) = metas off fs @ metas (off + length (concat (map fn_code fs))) [f]"
  by (induction fs arbitrary: off) (simp_all add: add.assoc)

lemma close_write:
  assumes "bl_obj (close_fn b) = built nm fs"
  shows "bl_obj (close_fn (write_fn f b)) = built nm (fs @ [f])"
proof -
  let ?b = "begin_fn (s_name f) (s_args f) (s_returns f) (s_maxstack f) b"
  have b: "bl_obj ?b = built nm fs" "bl_fn ?b = Some (s_name f)" "bl_off ?b = length (concat (map fn_code fs))"
    "bl_args ?b = s_args f" "bl_returns ?b = s_returns f" "bl_maxstack ?b = s_maxstack f"
    using assms by (simp_all add: begin_fn_def Let_def built_def)
  from add_pieces [of "s_body f" ?b] obtain ls where
    w: "write_fn f b = ?b\<lparr>bl_obj := (bl_obj ?b)\<lparr>o_code := o_code (bl_obj ?b) @ assemble_ops (piece_ops (s_body f)),
      o_constants := o_constants (bl_obj ?b) @ piece_consts (s_body f)\<rparr>, bl_labels := ls\<rparr>"
    unfolding write_fn_def by blast
  have "metas 0 (fs @ [f]) = metas 0 fs @ [\<lparr>fm_name = s_name f, fm_code_off = of_nat (length (concat (map fn_code fs))),
      fm_code_len = of_nat (length (fn_code f)), fm_maxstack = s_maxstack f, fm_args = s_args f, fm_returns = s_returns f\<rparr>]"
    by (simp add: metas_snoc)
  then show ?thesis unfolding w by (auto simp: close_fn_def b built_def fn_code_def Let_def)
qed

lemma close_writes:
  "bl_obj (close_fn b) = built nm fs \<Longrightarrow> bl_obj (close_fn (fold write_fn gs b)) = built nm (fs @ gs)"
proof (induction gs arbitrary: b fs)
  case (Cons g gs)
  from Cons.IH [OF close_write [OF Cons.prems, of g]] show ?case by simp
qed simp

theorem builder_result:
  "finish (fold write_fn fs (builder_new nm)) =
     (if ascii ''main'' \<in> set (map s_name fs) then Ok (built nm fs) else fail NoEntryPoint)"
proof -
  have "bl_obj (close_fn (builder_new nm)) = built nm []"
    by (simp add: builder_new_def close_fn_def built_def obj_default_def)
  from close_writes [OF this, of fs] show ?thesis by (simp add: finish_def Let_def) (simp add: built_def)
qed

section \<open>Every function decodes to what was written\<close>

definition decoded_ins :: "op \<times> u8 \<times> u32 \<Rightarrow> decoded" where
  "decoded_ins p = (case p of (x, a, b) \<Rightarrow> \<lparr>d_op = x, d_a = a, d_b = b, d_len = encoded_len b\<rparr>)"

lemma laid_out_ops:
  "\<exists>ats. laid_out (pre @ assemble_ops ys) lo (length pre) (map decoded_ins ys) ats"
proof (induction ys arbitrary: pre)
  case Nil
  have "laid_out (pre @ assemble_ops []) lo (length pre) (map decoded_ins []) []" by (simp add: assemble_ops_def)
  then show ?case by blast
next
  case (Cons p ys)
  obtain x a b where p: "p = (x, a, b)" by (cases p) auto
  have cons: "assemble_ops (p # ys) = fst (encode [] x a b) @ assemble_ops ys" by (simp add: assemble_ops_def p)
  have dec: "decode (pre @ assemble_ops (p # ys)) (length pre) = Some (decoded_ins p)"
    unfolding cons using decode_encode [of pre x a b "assemble_ops ys"] encode_appends [of pre x a b]
    by (simp add: p decoded_ins_def)
  from Cons [of "pre @ fst (encode [] x a b)"] obtain ats where
    "laid_out (pre @ assemble_ops (p # ys)) lo (length pre + unat (encoded_len b)) (map decoded_ins ys) ats"
    by (auto simp: cons length_encoded)
  with dec have "laid_out (pre @ assemble_ops (p # ys)) lo (length pre) (map decoded_ins (p # ys)) (of_nat (lo + length pre) # ats)"
    by (simp add: decoded_ins_def p)
  then show ?case by blast
qed

lemma metas_nth:
  "i < length fs \<Longrightarrow> metas off fs ! i =
     \<lparr>fm_name = s_name (fs ! i), fm_code_off = of_nat (off + length (concat (map fn_code (take i fs)))),
      fm_code_len = of_nat (length (fn_code (fs ! i))), fm_maxstack = s_maxstack (fs ! i),
      fm_args = s_args (fs ! i), fm_returns = s_returns (fs ! i)\<rparr>"
proof (induction fs arbitrary: off i)
  case (Cons f fs)
  then show ?case by (cases i) (simp_all add: add.assoc)
qed simp

lemma length_metas [simp]: "length (metas off fs) = length fs"
  by (induction fs arbitrary: off) simp_all

theorem built_decodes:
  assumes "i < length fs" and "length (concat (map fn_code fs)) < 2 ^ 32"
  shows "\<exists>ats. decode_range (o_code (built nm fs)) (o_funcs (built nm fs) ! i) =
     Ok (map decoded_ins (piece_ops (s_body (fs ! i))), ats)"
proof -
  let ?pre = "concat (map fn_code (take i fs))" and ?body = "fn_code (fs ! i)"
  have "fs = take i fs @ fs ! i # drop (Suc i) fs" using assms(1) by (simp add: id_take_nth_drop)
  then have "map fn_code fs = map fn_code (take i fs) @ ?body # map fn_code (drop (Suc i) fs)"
    by (metis list.simps(9) map_append)
  then have code: "concat (map fn_code fs) = ?pre @ ?body @ concat (map fn_code (drop (Suc i) fs))" by simp
  have "length ?pre + length ?body < 2 ^ 32" using assms(2) unfolding code by simp
  then have off: "unat (of_nat (length ?pre) :: u32) = length ?pre" "unat (of_nat (length ?body) :: u32) = length ?body"
    by (simp_all add: unat_of_nat)
  have "slice_get (concat (map fn_code fs)) (length ?pre) (length ?pre + length ?body) = Some ?body"
    unfolding code by (rule slice_get_at) simp
  moreover obtain ats where "laid_out ?body (length ?pre) 0 (map decoded_ins (piece_ops (s_body (fs ! i)))) ats"
    using laid_out_ops [of "[]"] unfolding fn_code_def by auto
  ultimately have "decode_range (o_code (built nm fs)) (o_funcs (built nm fs) ! i) =
      Ok (map decoded_ins (piece_ops (s_body (fs ! i))), ats)"
    using metas_nth [OF assms(1), of 0] off by (subst decode_range_iff) (simp add: built_def)
  then show ?thesis by blast
qed

end
