(* ===== verification/CV_Verdicts.thy ===== *)
theory CV_Verdicts
  imports CV_Admitted CV_Builder
begin

text \<open>
  Four programs and the verdict of \<open>admit\<close> (\<open>src/src/verify.rs\<close>) on them: a program that underflows,
  one that never meters its loop and one with a wide instruction that is not run as written are
  accepted, and on a fourth the verifier panics.
\<close>

section \<open>Evaluating the verifier\<close>

lemma build_eval:
  assumes "decode_range code f = Ok (ds, ats)" and "partition_blocks ds tables = Ok (bs, ow)"
    and "reverse_postorder bs = Ok rpo" and "dominators bs rpo (rpo_numbers (length bs) rpo) = Some (Ok ids)"
    and "find_back_edges \<lparr>c_insns = ds, c_offsets = ats, c_blocks = bs, c_owner = ow, c_rpo = rpo,
      c_rpo_num = rpo_numbers (length bs) rpo, c_idoms = ids, c_back_edges = []\<rparr> = Some es"
  shows "build code f tables = Some (Ok \<lparr>c_insns = ds, c_offsets = ats, c_blocks = bs, c_owner = ow, c_rpo = rpo,
      c_rpo_num = rpo_numbers (length bs) rpo, c_idoms = ids, c_back_edges = es\<rparr>)"
  using assms by (simp add: build_def Let_def)

lemma check_function_eval:
  assumes "build code f tables = Some (Ok g)" and "fm_maxstack f \<noteq> 0"
    and "scan index (length tables) n (fm_maxstack f) 0 (c_insns g) (0, []) = Ok ()"
    and "list_ex (\<lambda>d. d_op d \<in> {OpRet, OpTail, OpHalt, OpTrap}) (c_insns g)"
  shows "check_function code f index tables n = Some (rbind (check_loops (c_insns g) (c_back_edges g)) (\<lambda>_.
     if fork_balance (c_insns g) \<noteq> 0 then bad ForkImbalance 0 else Ok ()))"
  using assms by (simp add: check_function_def check_graph_def Let_def)

definition narrow :: "op \<Rightarrow> u32 \<Rightarrow> decoded" where
  "narrow x b = \<lparr>d_op = x, d_a = 0, d_b = b, d_len = 4\<rparr>"

lemma narrow_sel [simp]: "d_op (narrow x b) = x" "d_b (narrow x b) = b"
  by (simp_all add: narrow_def)

definition main_of :: "u16 \<Rightarrow> (op \<times> u32) list \<Rightarrow> source_fn" where
  "main_of mx xs = \<lparr>s_name = ascii ''main'', s_args = 0, s_returns = 1, s_maxstack = mx,
     s_body = map (\<lambda>(x, b). Insn_at x 0 b) xs\<rparr>"

lemma piece_ops_main: "piece_ops (s_body (main_of mx xs)) = map (\<lambda>(x, b). (x, 0, b)) xs"
  by (simp add: main_of_def) (induction xs; auto)

lemma fn_code_main: "fn_code (main_of mx xs) = emitted xs"
  by (simp add: fn_code_def piece_ops_main emitted_def)

text \<open>What the builder makes of one function \<open>main\<close>, and what is left to show of it.\<close>

lemma built_main:
  assumes "length (emitted xs) < 2 ^ 32"
  shows "\<exists>ats. decode_range (o_code (built nm [main_of mx xs])) (hd (metas 0 [main_of mx xs])) =
     Ok (map decoded_of xs, ats)"
  using built_decodes [of 0 "[main_of mx xs]" nm] assms
  by (auto simp: fn_code_main piece_ops_main built_def decoded_ins_def decoded_of_def o_def case_prod_beta')

lemma admit_main:
  assumes "check_function (emitted xs) (hd (metas 0 [main_of mx xs])) [(ascii ''main'', 0)] [] 0 = Some r"
    and "seal_check (emitted xs) = Ok ()"
  shows "admit seal_check build_image mark_verified (built nm [main_of mx xs]) = Some (rbind r (\<lambda>_.
     Ok (mark_verified (build_image (built nm [main_of mx xs])))))"
proof -
  have "piece_consts (s_body (main_of mx xs)) = []" by (simp add: main_of_def) (induction xs; auto)
  moreover have "func_index (metas 0 [main_of mx xs]) = [(ascii ''main'', 0)]"
    by (simp add: func_index_def main_of_def)
  ultimately show ?thesis using assms
    by (cases r) (simp_all add: admit_def built_def fn_code_main)
qed

lemma built_fetches:
  assumes "length (emitted xs) < 2 ^ 32" and "\<forall>p\<in>set xs. unat (encoded_len (snd p)) = 4"
    and "closed_on S (map decoded_of xs)"
  shows "fetches (emitted xs) (hd (metas 0 [main_of mx xs])) S (map decoded_of xs)"
proof -
  obtain ats where "decode_range (emitted xs) (hd (metas 0 [main_of mx xs])) = Ok (map decoded_of xs, ats)"
    using built_main [OF assms(1), of _ mx] by (auto simp: built_def fn_code_main)
  from decoded_fetches [OF this _ assms(3)] assms(2) show ?thesis
    by (force simp: decoded_of_def word_unat_eq_iff)
qed

text \<open>Accepted, it runs as the reference machine does.\<close>

lemma built_main_runs:
  assumes "check_function (emitted xs) (hd (metas 0 [main_of mx xs])) [(ascii ''main'', 0)] [] 0 = Some (Ok ())"
    and "seal_check (emitted xs) = Ok ()" and "keeps_parts build_image mark_verified"
    and "fetches (emitted xs) (hd (metas 0 [main_of mx xs])) S ws" and "closed_on S ws" and "0 \<in> S"
    and "max_steps lim \<noteq> -1"
  shows "\<exists>x im s r t. finish (write_fn (main_of mx xs) (builder_new nm)) = Ok x \<and>
     admit seal_check build_image mark_verified x = Some (Ok im) \<and> vm_new im lim = Ok s \<and>
     vm_step None s = Some (r, t) \<and> ends (play (unat (max_steps lim)) (unat mx) ws 0 []) r"
proof -
  let ?x = "built nm [main_of mx xs]" and ?im = "mark_verified (build_image (built nm [main_of mx xs]))"
  let ?f = "hd (metas 0 [main_of mx xs])"
  have x: "finish (write_fn (main_of mx xs) (builder_new nm)) = Ok ?x"
    using builder_result [of "[main_of mx xs]" nm] by (simp add: main_of_def)
  have adm: "admit seal_check build_image mark_verified ?x = Some (Ok ?im)"
    using admit_main [of xs mx _ seal_check, OF assms(1,2)] by simp
  have fs: "o_funcs ?x = [?f]" "o_code ?x = emitted xs" by (simp_all add: built_def fn_code_main)
  have "img_funcs ?im = [?f]" using assms(3) fs by (simp add: keeps_parts_def)
  then obtain s where s: "vm_new ?im lim = Ok s" using vm_new_panic [of ?im lim]
    by (cases "vm_new ?im lim") (auto simp: vm_new_def Let_def split: option.splits)
  from accepted_start [OF adm assms(3) s] fs have at: "about_to (emitted xs) ?f s 0 []"
    and lim: "limits s = lim" "steps s = 0" by auto
  from play_run [OF assms(4,5) at assms(6)] lim assms(7) obtain r t where
    "run_loop s = Some (r, t)" "ends (play (unat (max_steps lim)) (unat mx) ws 0 []) r"
    by (auto simp: main_of_def)
  with x adm s show ?thesis by (auto simp: vm_step_def)
qed

section \<open>An accepted program that underflows\<close>

text \<open>The walk over the instructions goes straight on through the branch.\<close>

definition skip_push :: "(op \<times> u32) list" where
  "skip_push = [(OpBr, 2), (OpLdi, 1), (OpDrop, 0), (OpLdi, 0), (OpHalt, 0)]"

definition skip_blocks :: "block list" where
  "skip_blocks = [\<lparr>b_start = 0, b_end = 1, b_succs = [2], b_preds = []\<rparr>,
     \<lparr>b_start = 1, b_end = 2, b_succs = [2], b_preds = []\<rparr>,
     \<lparr>b_start = 2, b_end = 5, b_succs = [], b_preds = [0, 1]\<rparr>]"

lemma skip_eval:
  "length (emitted skip_push) = 20"
  "partition_blocks (map decoded_of skip_push) [] = Ok (skip_blocks, [0, 1, 2, 2, 2])"
  "reverse_postorder skip_blocks = Ok [0, 2]"
  "scan [(ascii ''main'', 0)] 0 0 1 0 (map decoded_of skip_push) (0, []) = Ok ()"
  "fork_balance (map decoded_of skip_push) = 0"
  "\<forall>n. play (Suc (Suc n)) 1 (map decoded_of skip_push) 0 [] = Fails StackUnderflow"
  by (code_simp, code_simp, code_simp, code_simp, code_simp) (simp add: skip_push_def jump_move_def calc_def calc_op_def decoded_of_def)

lemma skip_dominators:
  "dominators skip_blocks [0, 2] (rpo_numbers (length skip_blocks) [0, 2]) = Some (Ok [0, UNDEF, 0])"
  by (simp add: skip_blocks_def dominators_def rpo_numbers_def UNDEF_def dom_loop.simps intersect.simps climb.simps
      nth_get_def)

lemma skip_build:
  "\<exists>ats. build (emitted skip_push) (hd (metas 0 [main_of 1 skip_push])) [] = Some (Ok
     \<lparr>c_insns = map decoded_of skip_push, c_offsets = ats, c_blocks = skip_blocks,
      c_owner = [0, 1, 2, 2, 2], c_rpo = [0, 2], c_rpo_num = rpo_numbers (length skip_blocks) [0, 2],
      c_idoms = [0, UNDEF, 0], c_back_edges = []\<rparr>)"
proof -
  from built_main [of skip_push nm 1] skip_eval(1) obtain ats where
    dec: "decode_range (emitted skip_push) (hd (metas 0 [main_of 1 skip_push])) = Ok (map decoded_of skip_push, ats)"
    by (auto simp: built_def fn_code_main)
  have "find_back_edges \<lparr>c_insns = map decoded_of skip_push, c_offsets = ats, c_blocks = skip_blocks,
      c_owner = [0, 1, 2, 2, 2], c_rpo = [0, 2], c_rpo_num = rpo_numbers (length skip_blocks) [0, 2],
      c_idoms = [0, UNDEF, 0], c_back_edges = []\<rparr> = Some []"
    by (simp add: find_back_edges_def skip_blocks_def rpo_numbers_def dominates_def UNDEF_def on_chain.simps
        nth_get_def idom_def upt_conv_Cons)
  from build_eval [OF dec skip_eval(2,3) skip_dominators this] show ?thesis by blast
qed

lemma skip_accepted:
  "check_function (emitted skip_push) (hd (metas 0 [main_of 1 skip_push])) [(ascii ''main'', 0)] [] 0 = Some (Ok ())"
proof -
  from skip_build obtain ats where "build (emitted skip_push) (hd (metas 0 [main_of 1 skip_push])) [] = Some (Ok
     \<lparr>c_insns = map decoded_of skip_push, c_offsets = ats, c_blocks = skip_blocks,
      c_owner = [0, 1, 2, 2, 2], c_rpo = [0, 2], c_rpo_num = rpo_numbers (length skip_blocks) [0, 2],
      c_idoms = [0, UNDEF, 0], c_back_edges = []\<rparr>)" by blast
  from check_function_eval [OF this, where n = 0 and index = "[(ascii ''main'', 0)]"] skip_eval(4,5)
  show ?thesis by (simp add: main_of_def skip_push_def)
qed

theorem accepted_program_underflows:
  assumes "seal_check (emitted skip_push) = Ok ()" and "keeps_parts build_image mark_verified"
    and "2 \<le> unat (max_steps lim)" and "max_steps lim \<noteq> -1"
  shows "\<exists>x im s e t. finish (write_fn (main_of 1 skip_push) (builder_new nm)) = Ok x \<and>
     admit seal_check build_image mark_verified x = Some (Ok im) \<and> vm_new im lim = Ok s \<and>
     vm_step None s = Some (Err e, t) \<and> dcode e = StackUnderflow"
proof -
  have on: "closed_on {0, 2, 3, 4} (map decoded_of skip_push)" by code_simp
  have "fetches (emitted skip_push) (hd (metas 0 [main_of 1 skip_push])) {0, 2, 3, 4} (map decoded_of skip_push)"
    by (rule built_fetches [OF _ _ on]) (simp_all add: skip_eval(1), simp add: skip_push_def encoded_len_def)
  moreover obtain n where "unat (max_steps lim) = Suc (Suc n)" using assms(3) by (metis Suc_le_D numeral_2_eq_2 Suc_le_mono)
  ultimately show ?thesis
    using built_main_runs [where xs = skip_push and mx = 1 and S = "{0, 2, 3, 4}" and nm = nm and lim = lim
        and seal_check = seal_check and build_image = build_image and mark_verified = mark_verified,
        OF skip_accepted assms(1,2) _ on] skip_eval(6) assms(4)
    by (fastforce simp: ends_def)
qed

section \<open>An accepted loop that is never metered\<close>

text \<open>The verifier takes the numbers of blocks for positions of instructions: it looks for a
  metering instruction at position 2, in code that is not even reached, while the loop is block 2,
  at positions 3 and 4.\<close>

definition spin :: "(op \<times> u32) list" where
  "spin = [(OpBr, 3), (OpLdi, 0), (OpRelease, 0), (OpLdi, 1), (OpBrnz, 3), (OpLdi, 0), (OpHalt, 0)]"

definition spin_blocks :: "block list" where
  "spin_blocks = [\<lparr>b_start = 0, b_end = 1, b_succs = [2], b_preds = []\<rparr>,
     \<lparr>b_start = 1, b_end = 3, b_succs = [2], b_preds = []\<rparr>,
     \<lparr>b_start = 3, b_end = 5, b_succs = [2, 3], b_preds = [0, 1, 2]\<rparr>,
     \<lparr>b_start = 5, b_end = 7, b_succs = [], b_preds = [2]\<rparr>]"

lemma spin_eval:
  "length (emitted spin) = 28"
  "partition_blocks (map decoded_of spin) [] = Ok (spin_blocks, [0, 1, 1, 2, 2, 3, 3])"
  "reverse_postorder spin_blocks = Ok [0, 2, 3]"
  "scan [(ascii ''main'', 0)] 0 0 1 0 (map decoded_of spin) (0, []) = Ok ()"
  "fork_balance (map decoded_of spin) = 0"
  "check_loops (map decoded_of spin) [(2, 2)] = Ok ()"
  by code_simp+

lemma spin_dominators:
  "dominators spin_blocks [0, 2, 3] (rpo_numbers (length spin_blocks) [0, 2, 3]) = Some (Ok [0, UNDEF, 0, 2])"
  by (simp add: spin_blocks_def dominators_def rpo_numbers_def UNDEF_def dom_loop.simps intersect.simps climb.simps
      nth_get_def)

lemma spin_build:
  "\<exists>ats. build (emitted spin) (hd (metas 0 [main_of 1 spin])) [] = Some (Ok
     \<lparr>c_insns = map decoded_of spin, c_offsets = ats, c_blocks = spin_blocks,
      c_owner = [0, 1, 1, 2, 2, 3, 3], c_rpo = [0, 2, 3], c_rpo_num = rpo_numbers (length spin_blocks) [0, 2, 3],
      c_idoms = [0, UNDEF, 0, 2], c_back_edges = [(2, 2)]\<rparr>)"
proof -
  from built_main [of spin nm 1] spin_eval(1) obtain ats where
    dec: "decode_range (emitted spin) (hd (metas 0 [main_of 1 spin])) = Ok (map decoded_of spin, ats)"
    by (auto simp: built_def fn_code_main)
  have "find_back_edges \<lparr>c_insns = map decoded_of spin, c_offsets = ats, c_blocks = spin_blocks,
      c_owner = [0, 1, 1, 2, 2, 3, 3], c_rpo = [0, 2, 3], c_rpo_num = rpo_numbers (length spin_blocks) [0, 2, 3],
      c_idoms = [0, UNDEF, 0, 2], c_back_edges = []\<rparr> = Some [(2, 2)]"
    by (simp add: find_back_edges_def spin_blocks_def rpo_numbers_def dominates_def UNDEF_def on_chain.simps
        nth_get_def idom_def upt_conv_Cons)
  from build_eval [OF dec spin_eval(2,3) spin_dominators this] show ?thesis by blast
qed

lemma spin_accepted:
  "check_function (emitted spin) (hd (metas 0 [main_of 1 spin])) [(ascii ''main'', 0)] [] 0 = Some (Ok ())"
proof -
  from spin_build obtain ats where "build (emitted spin) (hd (metas 0 [main_of 1 spin])) [] = Some (Ok
     \<lparr>c_insns = map decoded_of spin, c_offsets = ats, c_blocks = spin_blocks,
      c_owner = [0, 1, 1, 2, 2, 3, 3], c_rpo = [0, 2, 3], c_rpo_num = rpo_numbers (length spin_blocks) [0, 2, 3],
      c_idoms = [0, UNDEF, 0, 2], c_back_edges = [(2, 2)]\<rparr>)" by blast
  from check_function_eval [OF this, where n = 0 and index = "[(ascii ''main'', 0)]"] spin_eval(4-6)
  show ?thesis by (simp add: main_of_def spin_def)
qed

lemma spin_plays: "play n 1 (map decoded_of spin) 0 [] = Fails BudgetExceeded"
proof -
  have loop: "play n 1 (map decoded_of spin) 3 [] = Fails BudgetExceeded \<and>
      play n 1 (map decoded_of spin) 4 [1] = Fails BudgetExceeded" for n
  proof (induction n)
    case (Suc n)
    have "imm (decoded_of (OpLdi, 1)) = 1" by code_simp
    then have "jump_move 1 (map decoded_of spin ! 3) 3 [] = Goes 4 [1]" "jump_move 1 (map decoded_of spin ! 4) 4 [1] = Goes 3 []"
      by (simp_all add: spin_def jump_move_def calc_def calc_op_def)
    with Suc show ?case by simp
  qed simp
  have "jump_move 1 (map decoded_of spin ! 0) 0 [] = Goes 3 []" by (simp add: spin_def jump_move_def)
  with loop show ?thesis by (cases n) simp_all
qed

theorem accepted_loop_unmetered:
  assumes "seal_check (emitted spin) = Ok ()" and "keeps_parts build_image mark_verified" and "max_steps lim \<noteq> -1"
  shows "\<exists>x im s e t. finish (write_fn (main_of 1 spin) (builder_new nm)) = Ok x \<and>
     admit seal_check build_image mark_verified x = Some (Ok im) \<and> vm_new im lim = Ok s \<and>
     vm_step None s = Some (Err e, t) \<and> dcode e = BudgetExceeded \<and> closed_on {0, 3, 4, 5, 6} (map decoded_of spin) \<and>
     d_op ` (!) (map decoded_of spin) ` {0, 3, 4, 5, 6} \<inter> set metering = {}"
proof -
  have on: "closed_on {0, 3, 4, 5, 6} (map decoded_of spin)"
    and free: "d_op ` (!) (map decoded_of spin) ` {0, 3, 4, 5, 6} \<inter> set metering = {}" by code_simp+
  have "fetches (emitted spin) (hd (metas 0 [main_of 1 spin])) {0, 3, 4, 5, 6} (map decoded_of spin)"
    by (rule built_fetches [OF _ _ on]) (simp_all add: spin_eval(1), simp add: spin_def encoded_len_def)
  from built_main_runs [where xs = spin and mx = 1 and S = "{0, 3, 4, 5, 6}" and nm = nm and lim = lim
      and seal_check = seal_check and build_image = build_image and mark_verified = mark_verified,
      OF spin_accepted assms(1,2) this on] assms(3)
  obtain x im s r t where run: "finish (write_fn (main_of 1 spin) (builder_new nm)) = Ok x"
    "admit seal_check build_image mark_verified x = Some (Ok im)" "vm_new im lim = Ok s" "vm_step None s = Some (r, t)"
    and ends: "ends (play (unat (max_steps lim)) (unat (1 :: u16)) (map decoded_of spin) 0 []) r" by auto
  have "ends (Fails BudgetExceeded) r" using ends by (simp add: spin_plays [unfolded One_nat_def])
  then obtain e where "r = Err e" "dcode e = BudgetExceeded" by (auto simp: ends_def)
  with run on free show ?thesis by blast
qed

section \<open>A loop the verifier panics on\<close>

text \<open>The loop from block 2 back to block 0: \<open>insns[2..=0]\<close> starts behind its end.\<close>

definition outer_loop :: "line list" where
  "outer_loop = [Lab (ascii ''main''), Ins OpQueryQ (Some 0), Jmp OpBrz (ascii ''main''), Ins OpLdi (Some 1),
     Lab (ascii ''c''), Ins OpLdi (Some 1), Jmp OpBrz (ascii ''main''), Jmp OpBr (ascii ''c''),
     Ins OpLdi (Some 0), Ins OpHalt None]"

definition outer_code :: "(op \<times> u32) list" where
  "outer_code = [(OpQueryQ, 0), (OpBrz, 0), (OpLdi, 1), (OpLdi, 1), (OpBrz, 0), (OpBr, 3), (OpLdi, 0), (OpHalt, 0)]"

definition outer_blocks :: "block list" where
  "outer_blocks = [\<lparr>b_start = 0, b_end = 2, b_succs = [0, 1], b_preds = [0, 2]\<rparr>,
     \<lparr>b_start = 2, b_end = 3, b_succs = [2], b_preds = [0]\<rparr>,
     \<lparr>b_start = 3, b_end = 5, b_succs = [0, 3], b_preds = [1, 3]\<rparr>,
     \<lparr>b_start = 5, b_end = 6, b_succs = [2], b_preds = [2]\<rparr>,
     \<lparr>b_start = 6, b_end = 8, b_succs = [], b_preds = []\<rparr>]"

lemma outer_eval:
  "list_all line_ok outer_loop"
  "\<exists>ls. lines_mean outer_loop ([], []) = Some (ls, outer_code)"
  "length (emitted outer_code) = 32" "one_table_each outer_code = []"
  "partition_blocks (map decoded_of outer_code) [] = Ok (outer_blocks, [0, 0, 1, 2, 2, 3, 4, 4])"
  "reverse_postorder outer_blocks = Ok [0, 1, 2, 3]"
  "scan [(ascii ''main'', 0)] 0 0 2 0 (map decoded_of outer_code) (0, []) = Ok ()"
  "check_loops (map decoded_of outer_code) [(0, 0), (2, 0), (3, 2)] = Panic"
proof -
  have "ascii ''main'' \<noteq> ascii ''c''" by code_simp
  then have "lines_mean outer_loop ([], []) = Some ([(ascii ''main'', 0), (ascii ''c'', 3)], outer_code)"
    by (simp add: outer_loop_def outer_code_def int_operand_def abs_min_def insn_eq mk_row_def length_emitted encoded_len_def)
  then show "\<exists>ls. lines_mean outer_loop ([], []) = Some (ls, outer_code)" by blast
qed code_simp+

lemma outer_dominators:
  "dominators outer_blocks [0, 1, 2, 3] (rpo_numbers (length outer_blocks) [0, 1, 2, 3]) =
     Some (Ok [0, 0, 1, 2, UNDEF])"
  by (simp add: outer_blocks_def dominators_def rpo_numbers_def UNDEF_def dom_loop.simps intersect.simps climb.simps
      nth_get_def)

definition outer_cfg :: cfg where
  "outer_cfg = \<lparr>c_insns = map decoded_of outer_code, c_offsets = starts_at 0 outer_code, c_blocks = outer_blocks,
     c_owner = [0, 0, 1, 2, 2, 3, 4, 4], c_rpo = [0, 1, 2, 3],
     c_rpo_num = rpo_numbers (length outer_blocks) [0, 1, 2, 3],
     c_idoms = [0, 0, 1, 2, UNDEF], c_back_edges = [(0, 0), (2, 0), (3, 2)]\<rparr>"

lemma outer_build: "build (emitted outer_code) (main_meta 2 outer_code) [] = Some (Ok outer_cfg)"
proof -
  have dec: "decode_range (emitted outer_code) (main_meta 2 outer_code) =
      Ok (map decoded_of outer_code, starts_at 0 outer_code)"
    by (rule main_decodes) (simp add: outer_eval(3))
  have "find_back_edges \<lparr>c_insns = map decoded_of outer_code, c_offsets = starts_at 0 outer_code, c_blocks = outer_blocks,
      c_owner = [0, 0, 1, 2, 2, 3, 4, 4], c_rpo = [0, 1, 2, 3],
      c_rpo_num = rpo_numbers (length outer_blocks) [0, 1, 2, 3],
      c_idoms = [0, 0, 1, 2, UNDEF], c_back_edges = []\<rparr> = Some [(0, 0), (2, 0), (3, 2)]"
    by (simp add: find_back_edges_def outer_blocks_def rpo_numbers_def dominates_def UNDEF_def on_chain.simps
        nth_get_def idom_def upt_conv_Cons)
  from build_eval [OF dec outer_eval(5,6) outer_dominators this] show ?thesis by (simp add: outer_cfg_def)
qed

lemma outer_panics:
  "check_function (emitted outer_code) (main_meta 2 outer_code) [(ascii ''main'', 0)] [] 0 = Some Panic"
  using check_function_eval [OF outer_build, where n = 0 and index = "[(ascii ''main'', 0)]"] outer_eval(7,8)
  by (simp add: main_meta_def outer_code_def outer_cfg_def)

theorem verifier_panics_on_loop:
  assumes "seal_check (emitted outer_code) = Ok ()"
  shows "\<exists>x. assemble nm (listing 2 outer_loop) = Ok x \<and> admit seal_check build_image mark_verified x = Some Panic"
proof -
  from outer_eval(2) obtain ls where "lines_mean outer_loop ([], []) = Some (ls, outer_code)" by blast
  from assemble_listing [OF listing_written [OF outer_eval(1)] this] have "assemble nm (listing 2 outer_loop) = Ok (main_obj nm 2 outer_code)" .
  moreover have "func_index [main_meta 2 outer_code] = [(ascii ''main'', 0)]" by (simp add: func_index_def main_meta_def)
  ultimately show ?thesis
    using outer_panics assms outer_eval(4) by (simp add: admit_def main_obj_def)
qed

section \<open>A wide instruction\<close>

text \<open>An instruction of eight bytes counts as one for the verifier, but \<open>pc += 1\<close> moves the
  interpreter by four bytes: it runs the inner word again as an instruction of its own.\<close>

lemma decode_inner:
  assumes "decode code off = Some d" and "d_len d = 8"
  shows "decode code (off + INSN_LEN) = Some (d\<lparr>d_b := ucast (ucast (d_b d) :: u16), d_len := 4\<rparr>)"
proof -
  from assms obtain raw inner x where
    inner: "slice_get code (off + INSN_LEN) (off + 2 * INSN_LEN) = Some inner" "inner ! 0 \<noteq> WIDE_PREFIX"
    "op_from_byte (inner ! 0) = Some x"
    "d = \<lparr>d_op = x, d_a = inner ! 1, d_b = or (push_bit 16 (ucast (u16_of_le [raw ! 2, raw ! 3])))
        (ucast (u16_of_le [inner ! 2, inner ! 3])), d_len = 8\<rparr>"
    by (auto simp: decode_def Let_def Option.bind_eq_Some_conv split: if_splits)
  have low: "ucast (or (push_bit 16 h) (ucast l :: u32)) = (l :: u16)" for h l
    by (rule bit_word_eqI) (auto simp: bit_simps)
  from inner show ?thesis by (simp add: decode_def low mult_2 add.assoc)
qed

definition wide_load :: "(op \<times> u32) list" where
  "wide_load = [(OpLdi, 0x10005), (OpHalt, 0)]"

definition wide_words :: "decoded list" where
  "wide_words = [decoded_of (OpLdi, 0x10005), narrow OpLdi 5, narrow OpHalt 0]"

lemma wide_accepted:
  "check_function (emitted wide_load) (hd (metas 0 [main_of 2 wide_load])) [(ascii ''main'', 0)] [] 0 = Some (Ok ())"
proof -
  let ?b = "\<lparr>b_start = 0, b_end = 2, b_succs = [], b_preds = []\<rparr>"
  have len: "length (emitted wide_load) = 12" by code_simp
  from built_main [of wide_load nm 2] len obtain ats where
    dec: "decode_range (emitted wide_load) (hd (metas 0 [main_of 2 wide_load])) = Ok (map decoded_of wide_load, ats)"
    by (auto simp: built_def fn_code_main)
  have parts: "partition_blocks (map decoded_of wide_load) [] = Ok ([?b], [0, 0])"
    and rpo: "reverse_postorder [?b] = Ok [0]"
    and forks: "fork_balance (map decoded_of wide_load) = 0" by code_simp+
  have scan: "scan [(ascii ''main'', 0)] 0 0 2 0 (map decoded_of wide_load) (0, []) = Ok ()"
    by (simp add: wide_load_def scan_insn_def check_operand_def stack_effect_def insn_eq mk_row_def)
  have doms: "dominators [?b] [0] (rpo_numbers (length [?b]) [0]) = Some (Ok [0])"
    by (simp add: dominators_def dom_loop.simps)
  have "find_back_edges \<lparr>c_insns = map decoded_of wide_load, c_offsets = ats, c_blocks = [?b],
      c_owner = [0, 0], c_rpo = [0], c_rpo_num = rpo_numbers (length [?b]) [0], c_idoms = [0], c_back_edges = []\<rparr> = Some []"
    by (simp add: find_back_edges_def)
  from check_function_eval [OF build_eval [OF dec parts rpo doms this], where n = 0 and index = "[(ascii ''main'', 0)]"]
    scan forks
  show ?thesis by (simp add: main_of_def wide_load_def)
qed

theorem wide_instruction_runs_twice:
  assumes "seal_check (emitted wide_load) = Ok ()" and "keeps_parts build_image mark_verified"
    and "3 \<le> unat (max_steps lim)" and "max_steps lim \<noteq> -1"
  shows "\<exists>x im s t. finish (write_fn (main_of 2 wide_load) (builder_new nm)) = Ok x \<and>
     admit seal_check build_image mark_verified x = Some (Ok im) \<and> vm_new im lim = Ok s \<and>
     imm (decoded_of (hd wide_load)) = 0x10005 \<and> vm_step None s = Some (Ok (Halted 5), t)"
proof -
  have on: "closed_on {0, 1, 2} wide_words"
    by (simp add: closed_on_def wide_words_def narrow_def jump_ops_def plain_ops_def insn_eq mk_row_def)
  let ?pre = "fst (encode [] OpLdi 0 0x10005)"
  have code: "emitted wide_load = ?pre @ fst (encode [] OpHalt 0 0)" by (simp add: wide_load_def emitted_Cons)
  have len: "length ?pre = 8" by (simp add: length_encoded encoded_len_def)
  have at: "decode (emitted wide_load) 0 = Some (decoded_of (OpLdi, 0x10005))"
    "decode (emitted wide_load) 8 = Some (narrow OpHalt 0)"
    using decode_encode [of "[]" OpLdi 0 "0x10005" "fst (encode [] OpHalt 0 0)"]
      decode_encode [of ?pre OpHalt 0 0 "[]"] encode_appends [of ?pre OpHalt 0 0] len
    by (simp_all only: code append_Nil append_Nil2 list.size decoded_of_def narrow_def prod.case)
      (simp_all add: encoded_len_def)
  from decode_inner [OF at(1)] have "decode (emitted wide_load) 4 = Some (narrow OpLdi 5)"
    by (simp add: decoded_of_def encoded_len_def narrow_def INSN_LEN_def)
  with at have "\<forall>k\<in>{0, 1, 2}. decode (emitted wide_load) (0 + k * INSN_LEN) = Some (wide_words ! k)"
    by (simp add: wide_words_def INSN_LEN_def)
  then have "fetches (emitted wide_load) (hd (metas 0 [main_of 2 wide_load])) {0, 1, 2} wide_words"
    by (simp add: fetches_def wide_words_def)
  from built_main_runs [where xs = wide_load and mx = 2 and S = "{0, 1, 2}" and ws = wide_words and nm = nm and lim = lim
      and seal_check = seal_check and build_image = build_image and mark_verified = mark_verified,
      OF wide_accepted assms(1,2) this on] assms(4)
  obtain x im s r t where run: "finish (write_fn (main_of 2 wide_load) (builder_new nm)) = Ok x"
    "admit seal_check build_image mark_verified x = Some (Ok im)" "vm_new im lim = Ok s" "vm_step None s = Some (r, t)"
    and ends: "ends (play (unat (max_steps lim)) 2 wide_words 0 []) r" by auto
  obtain n where "unat (max_steps lim) = Suc (Suc (Suc n))" using assms(3) that [of "unat (max_steps lim) - 3"] by simp
  moreover have imm: "imm (decoded_of (OpLdi, 0x10005)) = 0x10005" "imm (narrow OpLdi 5) = 5"
    by (simp_all add: imm_def decoded_of_def encoded_len_def narrow_def)
  have "jump_move 2 (wide_words ! 0) 0 [] = Goes 1 [0x10005]" "jump_move 2 (wide_words ! 1) 1 [0x10005] = Goes 2 [5, 0x10005]"
    "jump_move 2 (wide_words ! 2) 2 [5, 0x10005] = Halts 5"
    by (simp_all add: wide_words_def jump_move_def calc_def calc_op_def imm)
  then have "play (Suc (Suc (Suc n))) 2 wide_words 0 [] = Halts 5" for n
    by (simp del: One_nat_def)
  ultimately have "r = Ok (Halted 5)" using ends by (simp add: ends_def)
  with run imm(1) show ?thesis by (auto simp: wide_load_def)
qed

end
