(* ===== verification/CV_Disas.thy ===== *)
theory CV_Disas
  imports CV_Verdicts
begin

text \<open>
  The disassembler, \<open>src/src/disas.rs\<close>: the text of an image, one line for each instruction. The
  name of the image, which \<open>image.rs\<close> keeps, is an argument. \<open>expect\<close> on a decode that fails
  panics.
\<close>

definition nl :: bytes where
  "nl = [0x0A]"

text \<open>\<open>{rel:>4}\<close>: right-aligned in four columns.\<close>

definition pad4 :: "bytes \<Rightarrow> bytes" where
  "pad4 s = replicate (4 - length s) 0x20 @ s"

definition render :: "image \<Rightarrow> decoded \<Rightarrow> bytes" where
  "render im d = ascii (mnemonic (insn (d_op d))) @ (let b = unat (d_b d) in case operand (insn (d_op d)) of
     OprNone \<Rightarrow> []
   | OprConst \<Rightarrow> ascii '' ['' @
       (case nth_get (img_constants im) b of Some c \<Rightarrow> utf8_lossy c | None \<Rightarrow> []) @ ascii '']''
   | OprImm \<Rightarrow> ascii '' '' @ show_i64 (imm d)
   | OprTarget \<Rightarrow> ascii '' '' @ show_nat b
   | OprFunc \<Rightarrow> ascii '' '' @ (case nth_get (img_funcs im) b of Some f \<Rightarrow> fm_name f | None \<Rightarrow> [])
   | OprTool \<Rightarrow> ascii '' '' @ (case nth_get (img_tools im) b of Some t \<Rightarrow> t | None \<Rightarrow> [])
   | OprJumpTable \<Rightarrow> ascii '' table:'' @ show_nat b
   | OprSlot \<Rightarrow> ascii '' slot:'' @ show_nat b
   | OprDimension \<Rightarrow> ascii '' dim:'' @ show_nat b)"

definition insn_line :: "image \<Rightarrow> u32 \<Rightarrow> decoded \<Rightarrow> bytes" where
  "insn_line im rel d = ascii ''  '' @ pad4 (show_nat (unat rel)) @ ascii '':  '' @ render im d @ nl"

definition fn_line :: "func_meta \<Rightarrow> bytes" where
  "fn_line f = nl @ ascii ''.fn '' @ fm_name f @ ascii ''() -> '' @
     (if fm_returns f = 0 then ascii ''void'' else ascii ''i32'') @
     ascii '' (maxstack '' @ show_nat (unat (fm_maxstack f)) @ ascii '')'' @ nl"

text \<open>\<open>while off < hi\<close>, with the text so far.\<close>

function emit_from :: "image \<Rightarrow> nat \<Rightarrow> nat \<Rightarrow> nat \<Rightarrow> bytes \<Rightarrow> bytes result" where
  "emit_from im lo hi off out =
     (if off < hi then
        (case decode (img_code im) off of
           None \<Rightarrow> Panic
         | Some d \<Rightarrow> emit_from im lo hi (off + unat (d_len d))
             (out @ insn_line im (of_nat (off - lo) div of_nat INSN_LEN) d))
      else Ok out)"
  by pat_completeness auto
termination
  by (relation "measure (\<lambda>(im, lo, hi, off, out). hi - off)") (auto dest!: decode_len)

declare emit_from.simps [simp del]

fun emit_funcs :: "image \<Rightarrow> func_meta list \<Rightarrow> bytes \<Rightarrow> bytes result" where
  "emit_funcs im [] out = Ok out"
| "emit_funcs im (f # fs) out =
     (let lo = unat (fm_code_off f)
      in rbind (emit_from im lo (lo + unat (fm_code_len f)) lo (out @ fn_line f)) (emit_funcs im fs))"

definition tools_line :: "bytes list \<Rightarrow> bytes" where
  "tools_line ts = (if ts = [] then [] else nl @ ascii ''.tools:'' @ concat (map (\<lambda>t. ascii '' '' @ t) ts) @ nl)"

definition emit_image :: "bytes \<Rightarrow> image \<Rightarrow> bytes result" where
  "emit_image name im =
     rbind (emit_funcs im (img_funcs im) (ascii ''; '' @ name @ ascii '' (cdx/'' @ show_nat (unat ISA_VERSION) @ ascii '')'' @ nl))
       (\<lambda>out. Ok (out @ tools_line (img_tools im)))"

section \<open>What it prints\<close>

text \<open>One line for each instruction of the function, numbered by the words before it.\<close>

fun insn_lines :: "image \<Rightarrow> nat \<Rightarrow> decoded list \<Rightarrow> bytes" where
  "insn_lines im w [] = []"
| "insn_lines im w (d # ds) = insn_line im (of_nat w) d @ insn_lines im (w + unat (d_len d) div INSN_LEN) ds"

lemma emit_laid_out:
  "laid_out body lo off ds ats \<Longrightarrow> slice_get (img_code im) lo (lo + length body) = Some body \<Longrightarrow>
     length body < 2 ^ 32 \<Longrightarrow> off = INSN_LEN * w \<Longrightarrow>
     emit_from im lo (lo + length body) (lo + off) out = Ok (out @ insn_lines im w ds)"
proof (induction body lo off ds ats arbitrary: w out rule: laid_out.induct)
  case (1 body lo off)
  then show ?case by (simp add: emit_from.simps)
next
  case (2 body lo off d ds at ats)
  then have dec: "decode body off = Some d" by simp
  note len = decode_len [OF dec]
  have "decode (img_code im) (lo + off) = Some d" by (rule decode_slice [OF 2(3) dec])
  moreover have "of_nat off div of_nat INSN_LEN = (of_nat w :: u32)"
  proof -
    have "off < 2 ^ 32" using 2(4) len by auto
    moreover from this have "unat (of_nat off :: u32) = off" by (simp add: unat_of_nat)
    moreover have "w < 2 ^ 32" using 2(5) \<open>off < 2 ^ 32\<close> by (simp add: INSN_LEN_def)
    ultimately show ?thesis using 2(5) by (simp add: word_unat_eq_iff unat_div unat_of_nat INSN_LEN_def)
  qed
  moreover have nxt: "off + unat (d_len d) = INSN_LEN * (w + unat (d_len d) div INSN_LEN)"
    using len 2(5) by (auto simp: INSN_LEN_def)
  moreover have "laid_out body lo (off + unat (d_len d)) ds ats" using 2(2) by simp
  note 2(1) [OF this 2(3,4) nxt, of "out @ insn_line im (of_nat w) d"]
  moreover have "off < length body" using len by auto
  ultimately show ?case by (subst emit_from.simps) (simp add: add.assoc)
qed auto


definition fn_text :: "image \<Rightarrow> func_meta \<Rightarrow> decoded list \<Rightarrow> bytes" where
  "fn_text im f ds = fn_line f @ insn_lines im 0 ds"

lemma emit_funcs_text:
  "list_all2 (\<lambda>f ds. \<exists>ats. decode_range (img_code im) f = Ok (ds, ats)) fs dss \<Longrightarrow>
     emit_funcs im fs out = Ok (out @ concat (map2 (fn_text im) fs dss))"
proof (induction fs dss arbitrary: out rule: list_all2_induct)
  case (Cons f fs ds dss)
  then obtain ats body where b: "laid_out body (unat (fm_code_off f)) 0 ds ats"
    and s: "slice_get (img_code im) (unat (fm_code_off f)) (unat (fm_code_off f) + unat (fm_code_len f)) = Some body"
    using decode_range_iff by blast
  have len: "length body = unat (fm_code_len f)" using slice_get_length [OF s] by simp
  have "emit_from im (unat (fm_code_off f)) (unat (fm_code_off f) + unat (fm_code_len f)) (unat (fm_code_off f))
      (out @ fn_line f) = Ok (out @ fn_text im f ds)"
    using emit_laid_out [OF b, of im 0 "out @ fn_line f"] s unat_bound [of "fm_code_len f"]
    by (simp add: len fn_text_def)
  with Cons.IH show ?case by (simp add: Let_def)
qed simp

theorem emit_image_text:
  assumes "list_all2 (\<lambda>f ds. \<exists>ats. decode_range (img_code im) f = Ok (ds, ats)) (img_funcs im) dss"
  shows "emit_image name im = Ok (ascii ''; '' @ name @ ascii '' (cdx/4)'' @ nl @
     concat (map2 (fn_text im) (img_funcs im) dss) @ tools_line (img_tools im))"
proof -
  have "ascii '' (cdx/'' @ show_nat (unat ISA_VERSION) @ ascii '')'' = ascii '' (cdx/4)''" by code_simp
  then have "ascii '' (cdx/'' @ show_nat (unat ISA_VERSION) @ ascii '')'' @ nl = ascii '' (cdx/4)'' @ nl"
    by (metis append.assoc)
  with emit_funcs_text [OF assms] show ?thesis by (simp add: emit_image_def)
qed

text \<open>On code that does not decode it panics.\<close>

lemma emit_funcs_panic:
  assumes "img_funcs im = f # fs" and "decode (img_code im) (unat (fm_code_off f)) = None" and "fm_code_len f \<noteq> 0"
  shows "emit_image name im = Panic"
proof -
  have "unat (fm_code_len f) \<noteq> 0" using assms(3) by (simp add: unat_eq_0)
  with assms show ?thesis by (simp add: emit_image_def Let_def emit_from.simps)
qed

text \<open>An admitted object can be disassembled.\<close>

lemma admitted_decodes:
  assumes "admit seal_check build_image mark_verified x = Some (Ok im)" and "f \<in> set (o_funcs x)"
  shows "\<exists>ds ats. decode_range (o_code x) f = Ok (ds, ats)"
  using check_function_Ok [OF admit_Ok(3) [OF assms]] build_Ok(2) by blast

theorem admitted_disassembles:
  assumes "admit seal_check build_image mark_verified x = Some (Ok im)" and "keeps_parts build_image mark_verified"
  shows "\<exists>dss. list_all2 (\<lambda>f ds. \<exists>ats. decode_range (o_code x) f = Ok (ds, ats)) (o_funcs x) dss \<and>
     emit_image name im = Ok (ascii ''; '' @ name @ ascii '' (cdx/4)'' @ nl @
       concat (map2 (fn_text im) (o_funcs x) dss) @ tools_line (o_tools x))"
proof -
  have im: "img_funcs im = o_funcs x" "img_code im = o_code x" "img_tools im = o_tools x"
    using assms(2) by (simp_all add: admit_Ok(1) [OF assms(1)] keeps_parts_def)
  let ?P = "\<lambda>f ds. \<exists>ats. decode_range (o_code x) f = Ok (ds, ats)"
  have "list_all2 ?P (o_funcs x) (map (\<lambda>f. SOME ds. ?P f ds) (o_funcs x))"
    unfolding list_all2_conv_all_nth using admitted_decodes [OF assms(1)]
    by (auto intro!: someI_ex [of "?P _"])
  with emit_image_text [of im _ name] im show ?thesis by auto
qed

end
