(* ===== verification/CV_Driver.thy ===== *)
theory CV_Driver
  imports CV_Disas
begin

text \<open>
  The runner, \<open>run_image\<close> of \<open>src/src/bin/cinderc.rs\<close>: the loop around \<open>Vm::step\<close> and the exit
  status of the process. Reading the file is not modelled; \<open>Image::from_bytes\<close> and
  \<open>is_verified\<close> of \<open>image.rs\<close> are arguments.
\<close>

section \<open>The loop\<close>

text \<open>Every trap is answered with 0. The result of the step that answers is dropped
  (\<open>vm.step(..)?;\<close>).\<close>

partial_function (option) run_vm :: "vm \<Rightarrow> i64 result option" where
  "run_vm s = (case vm_step None s of
     None \<Rightarrow> None
   | Some (Ok (Halted c), t) \<Rightarrow> Some (Ok c)
   | Some (Ok (StepTrap tr), t) \<Rightarrow> (case vm_step (Some (AnsValue (v_int 0))) t of
       None \<Rightarrow> None
     | Some (Ok x, u) \<Rightarrow> run_vm u
     | Some (Err e, u) \<Rightarrow> Some (Err e)
     | Some (Panic, u) \<Rightarrow> Some Panic)
   | Some (Err e, t) \<Rightarrow> Some (Err e)
   | Some (Panic, t) \<Rightarrow> Some Panic)"

text \<open>\<open>let _ = verify::admit(assemble("reload.cdx", "").unwrap_or_default());\<close>: the result is
  dropped, a panic is not.\<close>

definition reload_check ::
    "(bytes \<Rightarrow> unit result) \<Rightarrow> (obj \<Rightarrow> image) \<Rightarrow> (image \<Rightarrow> image) \<Rightarrow> unit result option" where
  "reload_check seal_check build_image mark_verified =
     (case assemble (ascii ''reload.cdx'') [] of
        Panic \<Rightarrow> Some Panic
      | r \<Rightarrow>
          (let x = (case r of Ok x \<Rightarrow> x | _ \<Rightarrow> obj_default)
           in case admit seal_check build_image mark_verified x of
                None \<Rightarrow> None | Some Panic \<Rightarrow> Some Panic | Some _ \<Rightarrow> Some (Ok ())))"

definition run_image ::
    "(bytes \<Rightarrow> image result) \<Rightarrow> (image \<Rightarrow> bool) \<Rightarrow> (bytes \<Rightarrow> unit result) \<Rightarrow> (obj \<Rightarrow> image) \<Rightarrow>
     (image \<Rightarrow> image) \<Rightarrow> bytes \<Rightarrow> i64 result option" where
  "run_image from_bytes is_verified seal_check build_image mark_verified bytes =
     obind (Some (from_bytes bytes)) (\<lambda>im.
     obind (if is_verified im then Some (Ok ()) else reload_check seal_check build_image mark_verified) (\<lambda>_.
     obind (Some (vm_new im limits_default)) run_vm))"

text \<open>How a process ends: with an exit code, or killed by the abort that is a panic under the release
  profile of \<open>Cargo.toml\<close> (\<open>panic = "abort"\<close>).\<close>

datatype status = Exited u8 | Aborted

text \<open>\<open>code.min(255) as u8\<close>; an error is \<open>ExitCode::FAILURE\<close>.\<close>

definition exit_status :: "i64 result \<Rightarrow> status" where
  "exit_status r = (case r of
     Ok code \<Rightarrow> Exited (if 255 < sint code then 255 else ucast code) | Err e \<Rightarrow> Exited 1 | Panic \<Rightarrow> Aborted)"

section \<open>Halting\<close>

text \<open>Only \<open>ret\<close> and \<open>halt\<close> set the exit code, and they leave no frame.\<close>

definition same_halt :: "vm \<Rightarrow> vm \<Rightarrow> bool" where
  "same_halt s t \<longleftrightarrow> halt t = halt s"

interpretation halting: quiet_relation same_halt
  by unfold_locales (auto simp: same_halt_def)

definition halt_wf :: "vm \<Rightarrow> bool" where
  "halt_wf s \<longleftrightarrow> (halt s \<noteq> None \<longrightarrow> frames s = [])"

lemma same_haltD: "follows same_halt m \<Longrightarrow> m s = (r, t) \<Longrightarrow> halt t = halt s"
  unfolding follows_def same_halt_def by (metis snd_conv)

lemma exec_op_halts:
  assumes "exec_op (d_op d) d s = (Ok a, t)" and "halt s = None"
  shows "halt t = None \<or> frames t = [] \<and> \<not> a"
proof -
  consider "d_op d = OpHalt" | "d_op d = OpRet" | "d_op d \<in> {OpFork, OpCommit, OpAbort}"
    | "d_op d \<notin> {OpFork, OpCommit, OpAbort, OpRet, OpHalt}" by blast
  then show ?thesis
  proof cases
    case 1
    with assms show ?thesis by (auto simp: ex_halt_def split: prod.splits res.splits)
  next
    case 2
    obtain r1 s1 where p: "on_frame (pop_n (frame_returns s)) s = (r1, s1)" by fastforce
    have h: "halt s1 = None" using same_haltD [OF halting.f_on_frame p] assms(2) by simp
    have push: "halt s2 = None"
      if "on_frame (push_all vs) (s1\<lparr>frames := butlast (frames s1)\<rparr>) = (r2, s2)" for vs r2 s2
      using same_haltD [OF halting.f_on_frame that] h by simp
    from 2 assms(1) p h show ?thesis
      by (auto simp: ex_ret_def sbind_def sthen_def sget_def smod_def sret_def dest: push
          split: res.splits if_splits prod.splits)
  next
    case 3
    note push = same_haltD [OF halting.f_push_int(1)]
    from 3 assms show ?thesis
      by (auto dest!: push simp: ex_fork_def ex_commit_def ex_abort_def adv_def sbind_def sthen_def sget_def smod_def sret_def
          slift_def fail_def split: option.splits if_splits res.splits prod.splits)
  next
    case 4
    from same_haltD [OF halting.f_quiet_op [OF 4] assms(1)] assms(2) show ?thesis by simp
  qed
qed

lemma exec_halts:
  assumes "exec d s = (Ok u, t)" and "halt s = None"
  shows "halt_wf t"
proof -
  from assms(1) obtain a s1 where a: "exec_op (d_op d) d s = (Ok a, s1)"
    "(if a then bump_pc (length (frames s) - 1) else sret ()) s1 = (Ok u, t)"
    by (auto simp: exec_def sbind_def sget_def simp del: One_nat_def split: prod.splits res.splits)
  from exec_op_halts [OF a(1) assms(2)] a(2) show ?thesis
    using same_haltD [OF halting.f_bump, of "length (frames s) - 1" s1]
    by (auto simp: halt_wf_def sret_def split: if_splits)
qed

lemma tick_halts:
  assumes "halt_wf s"
  shows "tick s = (Ok None, t) \<Longrightarrow> halt_wf t"
    and "tick s = (Ok (Some (Halted n)), t) \<Longrightarrow> pending t = None \<and> halt t = None \<and> frames t = []"
    and "tick s = (Ok (Some (StepTrap tr)), t) \<Longrightarrow> pending s \<noteq> None \<and> pending t = None \<and> halt_wf t \<and>
      limits t = limits s \<and> steps t = steps s"
proof -
  assume "tick s = (Ok None, t)"
  from tick_continues [OF this] show "halt_wf t" using exec_halts by fastforce
next
  assume "tick s = (Ok (Some (Halted n)), t)"
  with assms show "pending t = None \<and> halt t = None \<and> frames t = []"
    by (auto simp: tick_def halt_wf_def Let_def sbind_def slift_def sthen_def sret_def fail_def
        split: option.splits if_splits prod.splits res.splits)
next
  assume "tick s = (Ok (Some (StepTrap tr)), t)"
  with assms show "pending s \<noteq> None \<and> pending t = None \<and> halt_wf t \<and>
      limits t = limits s \<and> steps t = steps s"
    by (auto simp: tick_def halt_wf_def Let_def sbind_def slift_def sthen_def sret_def fail_def
        split: option.splits if_splits prod.splits res.splits)
qed

text \<open>The machine at which the loop stops; it never counts back.\<close>

lemma run_loop_halts:
  assumes "run_loop s = Some (r, t)" and "halt_wf s" and "unat (steps s) \<le> unat (max_steps (limits s))"
    and "max_steps (limits s) < 0xFFFFFFFFFFFFFFFF"
  shows "case r of
     Ok (Halted n) \<Rightarrow> pending t = None \<and> halt t = None \<and> frames t = []
   | Ok (StepTrap tr) \<Rightarrow> pending t = None \<and> halt_wf t \<and> limits t = limits s \<and> unat (steps s) \<le> unat (steps t) \<and>
       unat (steps t) \<le> unat (max_steps (limits s)) \<and> (pending s = None \<longrightarrow> unat (steps s) < unat (steps t))
   | _ \<Rightarrow> True"
  using assms
proof (induction rule: run_loop_induct)
  case (step f s r t)
  show ?case
  proof (cases "fst (tick s) = Ok None")
    case True
    then obtain u where u: "tick s = (Ok None, u)" by (cases "tick s") auto
    have "\<not> max_steps (limits s) < steps s + 1" by (rule tick_continues(4) [OF u])
    then have b: "unat (steps s + 1) \<le> unat (max_steps (limits s))" by (simp add: word_less_nat_alt not_less)
    have "unat (steps s) + 1 < 2 ^ 64" using step(4,5) by (simp add: word_less_nat_alt)
    then have n: "unat (steps s + 1) = unat (steps s) + 1" by (simp add: unat_word_ariths)
    have "f u = Some (r, t)" using step(2) u by simp
    from step(1) [OF this tick_halts(1) [OF step(3) u]] tick_program(2,3) [OF u] b n step(5)
    show ?thesis by (auto split: res.splits step.splits)
  next
    case False
    with step(2,4) tick_halts(2,3) [OF step(3)] show ?thesis
      by (cases "tick s") (auto split: res.splits option.splits step.splits)
  qed
qed

section \<open>What the runner does\<close>

text \<open>A machine that has halted reports exit code 0 when it is stepped again.\<close>

lemma run_vm_halted: "pending s = None \<Longrightarrow> halt s = None \<Longrightarrow> frames s = [] \<Longrightarrow> run_vm s = Some (Ok 0)"
  by (subst run_vm.simps) (simp add: vm_step_def run_loop.simps tick_def)

lemma push_answer:
  assumes "on_frame (push v) s = (r, t)"
  shows "halt t = halt s" and "pending t = pending s" and "limits t = limits s" and "steps t = steps s"
    and "r = Ok () \<Longrightarrow> frames t \<noteq> []"
  using assms by (auto simp: on_frame_def split: if_splits prod.splits)

lemma answered_step:
  assumes "vm_step (Some (AnsValue v)) s = Some (r, u)" and "halt_wf s" and "pending s = None" and "r = Ok x"
  shows "\<exists>t. run_loop t = Some (r, u) \<and> halt_wf t \<and> pending t = None \<and> limits t = limits s \<and> steps t = steps s"
proof -
  obtain q t where p: "on_frame (push v) s = (q, t)" by fastforce
  with assms have q: "q = Ok ()" "run_loop t = Some (r, u)" by (auto simp: vm_step_def split: res.splits)
  have "frames s \<noteq> []" using p q(1) by (auto simp: on_frame_def)
  with assms(2,3) push_answer [OF p] q show ?thesis by (auto simp: halt_wf_def)
qed

lemma run_vm_returns_from:
  assumes "halt_wf s" and "unat (steps s) \<le> unat (max_steps (limits s))"
    and "max_steps (limits s) < 0xFFFFFFFFFFFFFFFF"
  shows "\<exists>r. run_vm s = Some r"
  using assms
proof (induction "unat (max_steps (limits s)) - unat (steps s)" arbitrary: s rule: less_induct)
  case less
  from run_loop_returns [OF less.prems(3)] obtain r t where l: "run_loop s = Some (r, t)" by fastforce
  then have step: "vm_step None s = Some (r, t)" by (simp add: vm_step_def)
  show ?case
  proof (cases "\<exists>tr. r = Ok (StepTrap tr)")
    case False
    with step show ?thesis by (subst run_vm.simps) (auto split: res.split step.split)
  next
    case True
    then obtain tr where r: "r = Ok (StepTrap tr)" by blast
    with run_loop_halts [OF l less.prems] have t: "pending t = None" "halt_wf t" "limits t = limits s"
      "unat (steps s) \<le> unat (steps t)" "unat (steps t) \<le> unat (max_steps (limits s))" by auto
    obtain q u0 where p: "on_frame (push (v_int 0)) t = (q, u0)" by fastforce
    have "\<exists>y. run_loop u0 = Some y" using run_loop_returns push_answer(3) [OF p] t(3) less.prems(3) by simp
    with p obtain r2 u where a: "vm_step (Some (AnsValue (v_int 0))) t = Some (r2, u)"
      by (cases q) (auto simp: vm_step_def)
    have unfold: "run_vm s = (case r2 of Ok x \<Rightarrow> run_vm u | Err e \<Rightarrow> Some (Err e) | Panic \<Rightarrow> Some Panic)"
      by (subst run_vm.simps) (simp add: step r a)
    have "\<exists>y. run_vm u = Some y" if "r2 = Ok x" for x
    proof -
      from answered_step [OF a t(2,1) that] obtain w where w: "run_loop w = Some (r2, u)" "halt_wf w"
        "pending w = None" "limits w = limits t" "steps w = steps t" by blast
      have b: "unat (steps w) \<le> unat (max_steps (limits w))" "max_steps (limits w) < 0xFFFFFFFFFFFFFFFF"
        using w(4,5) t(3,5) less.prems(3) by simp_all
      show ?thesis
      proof (cases x)
        case (Halted n)
        with run_loop_halts [OF w(1,2) b] that run_vm_halted [of u] show ?thesis by simp
      next
        case (StepTrap tr')
        with run_loop_halts [OF w(1,2) b] that w(3-5) t(3,4) less.prems(3) show ?thesis by (intro less.hyps) auto
      qed
    qed
    with unfold show ?thesis by (cases r2) auto
  qed
qed

lemma vm_new_halt_wf: "vm_new im lim = Ok s \<Longrightarrow> halt_wf s \<and> limits s = lim \<and> steps s = 0"
  by (auto simp: vm_new_def Let_def halt_wf_def split: option.splits)

theorem run_vm_returns:
  assumes "vm_new im lim = Ok s" and "max_steps lim < 0xFFFFFFFFFFFFFFFF"
  shows "\<exists>r. run_vm s = Some r"
  using run_vm_returns_from [of s] vm_new_halt_wf [OF assms(1)] assms(2) by simp

section \<open>Stopping for the host\<close>

text \<open>At an instruction of \<open>trap_ops\<close>: the program counter does not move, so the answer is pushed
  and the same instruction runs again.\<close>

definition same_pending :: "vm \<Rightarrow> vm \<Rightarrow> bool" where
  "same_pending s t \<longleftrightarrow> pending t = pending s"

interpretation hosting: ending_relation same_pending
  by unfold_locales (auto simp: same_pending_def)

lemma plain_keeps_pending:
  assumes "exec d s = (r, t)" and "d_op d \<notin> set trap_ops"
  shows "pending t = pending s"
proof -
  have push: "push_val v a = (q, b) \<Longrightarrow> pending b = pending a" for v a b q
    using hosting.f_push_int(1) unfolding follows_def same_pending_def by (metis snd_conv)
  have "follows same_pending (exec_op (d_op d) d)"
  proof (cases "d_op d \<in> {OpFork, OpCommit, OpAbort}")
    case True
    then show ?thesis
      by (auto dest!: push simp: follows_def same_pending_def ex_fork_def ex_commit_def ex_abort_def adv_def sbind_def
          sthen_def sget_def smod_def sret_def slift_def fail_def split: option.splits res.splits prod.splits)
  next
    case False
    then show ?thesis using assms(2) by (intro hosting.f_ending_op) auto
  qed
  from hosting.f_exec [OF this] assms(1) show ?thesis by (simp add: follows_def same_pending_def) (metis snd_conv)
qed

definition same_place :: "vm \<Rightarrow> vm \<Rightarrow> bool" where
  "same_place s t \<longleftrightarrow> (\<exists>fs f g. frames s = fs @ [f] \<and> frames t = fs @ [g] \<and> func g = func f \<and> pc g = pc f) \<and>
     vm_image t = vm_image s \<and> halt t = halt s"

lemma same_place_fetch: "same_place s t \<Longrightarrow> fetch t = fetch s"
  by (auto simp: same_place_def fetch_def split: option.split)

lemma same_place_trans: "same_place s t \<Longrightarrow> same_place t u \<Longrightarrow> same_place s u"
  unfolding same_place_def by (elim conjE exE) (auto intro!: exI)

lemma on_frame_place:
  assumes "on_frame m s = (Ok x, t)" and "\<And>f r g. m f = (r, g) \<Longrightarrow> func g = func f \<and> pc g = pc f"
  shows "same_place s t"
proof -
  obtain fs f where f: "frames s = fs @ [f]" using assms(1) by (cases "frames s" rule: rev_cases) (auto simp: on_frame_def)
  obtain r g where m: "m f = (r, g)" by fastforce
  with assms(1) f have "t = s\<lparr>frames := fs @ [g]\<rparr>" by (simp add: on_frame_def)
  with f assms(2) [OF m] show ?thesis by (auto simp: same_place_def)
qed

lemma push_place:
  assumes "on_frame (push v) s = (Ok x, t)"
  shows "same_place s t \<and> pending t = pending s"
proof
  show "same_place s t" by (rule on_frame_place [OF assms]) (auto simp: push_def split: if_splits)
  show "pending t = pending s" by (rule push_answer(2) [OF assms])
qed

lemma pop_place: "on_frame pop s = (Ok x, t) \<Longrightarrow> same_place s t"
  by (rule on_frame_place) (auto simp: pop_def Let_def split: if_splits)

lemma same_place_pending: "same_place s t \<Longrightarrow> same_place s (t\<lparr>pending := p\<rparr>)"
  "same_place s t \<Longrightarrow> same_place s (t\<lparr>next_effect := i, pending := p\<rparr>)"
  by (auto simp: same_place_def)

lemma trap_exec:
  assumes "exec d s = (Ok u, t)" and "d_op d \<in> set trap_ops" and "frames s \<noteq> []"
  shows "same_place s t \<and> pending t \<noteq> None"
proof -
  have refl: "same_place s s"
    using assms(3) by (cases "frames s" rule: rev_cases) (auto simp: same_place_def)
  have "\<exists>tr. exec_op (d_op d) d = raise_trap tr \<or> exec_op (d_op d) d = ex_queryq (d_a d) \<or>
      exec_op (d_op d) d = ex_calltool (d_b d)" using assms(2) by (auto simp: trap_ops_def)
  then consider tr where "exec_op (d_op d) d = raise_trap tr" | "exec_op (d_op d) d = ex_queryq (d_a d)"
    | "exec_op (d_op d) d = ex_calltool (d_b d)" by blast
  then show ?thesis
  proof cases
    case 1
    with assms(1) refl show ?thesis
      by (auto simp: exec_def raise_trap_def sbind_def sthen_def sget_def smod_def sret_def same_place_pending)
  next
    case 2
    with assms(1) show ?thesis
      by (auto simp: exec_def ex_queryq_def raise_trap_def sbind_def sthen_def sget_def smod_def sret_def push_val_def
          dest!: push_place intro: same_place_pending split: prod.splits res.splits)
  next
    case 3
    with assms(1) show ?thesis
      by (auto simp: exec_def ex_calltool_def sbind_def sthen_def sget_def smod_def sret_def slift_def push_val_def
          read_arena_def dest!: pop_place push_place intro: same_place_trans same_place_pending
          split: prod.splits res.splits)
  qed
qed

definition stopped :: "vm \<Rightarrow> bool" where
  "stopped s \<longleftrightarrow> pending s = None \<and> halt s = None \<and> frames s \<noteq> [] \<and>
     (\<exists>d. fetch s = Ok d \<and> d_op d \<in> set trap_ops)"

lemma same_place_stopped:
  assumes "same_place s t" and "fetch s = Ok d" and "d_op d \<in> set trap_ops" and "halt s = None"
  shows "stopped (t\<lparr>pending := None\<rparr>)"
  using same_place_fetch [OF same_place_pending(1) [OF assms(1)]] assms by (auto simp: stopped_def same_place_def)

text \<open>A turn of the loop that raises a trap leaves the machine where it was.\<close>

lemma tick_stopped:
  assumes "tick s = (Ok None, t)" and "pending t \<noteq> None"
  shows "stopped (t\<lparr>pending := None\<rparr>)"
proof -
  note c = tick_continues [OF assms(1)]
  let ?s = "s\<lparr>steps := steps s + 1\<rparr>"
  from c(5) obtain d where d: "fetch ?s = Ok d" "exec d ?s = (Ok (), t)" by blast
  have "d_op d \<in> set trap_ops" using plain_keeps_pending [OF d(2)] assms(2) c(1) by auto
  with trap_exec [OF d(2)] c(2,3) d(1) show ?thesis by (intro same_place_stopped [of ?s]) auto
qed

lemma loop_stopped:
  "run_loop s = Some (r, t) \<Longrightarrow> r = Ok (StepTrap tr) \<Longrightarrow>
     pending s \<noteq> None \<longrightarrow> stopped (s\<lparr>pending := None\<rparr>) \<Longrightarrow> stopped t"
proof (induction arbitrary: tr rule: run_loop_induct)
  case (step f s r t)
  show ?case
  proof (cases "fst (tick s) = Ok None")
    case True
    then obtain u where u: "tick s = (Ok None, u)" by (cases "tick s") auto
    with step(2) have "f u = Some (r, t)" by simp
    from step(1) [OF this step(3)] tick_stopped [OF u] show ?thesis by blast
  next
    case False
    then have t: "tick s = (Ok (Some (StepTrap tr)), t)"
      using step(2,3) by (cases "tick s") (auto split: res.splits option.splits)
    show ?thesis
    proof (cases "pending s")
      case None
      with t show ?thesis
        by (auto simp: tick_def Let_def sbind_def slift_def sthen_def sret_def fail_def
            split: option.splits if_splits prod.splits res.splits)
    next
      case (Some p)
      with t step(4) show ?thesis by (auto simp: tick_def)
    qed
  qed
qed

lemma stopped_loop:
  assumes "stopped s" and "run_loop s = Some (r, t)"
  shows "(\<exists>tr. r = Ok (StepTrap tr)) \<or> (\<forall>x. r \<noteq> Ok x)"
proof (cases "fst (tick s) = Ok None")
  case True
  then obtain u where u: "tick s = (Ok None, u)" by (cases "tick s") auto
  note c = tick_continues [OF u]
  from c(5) assms(1) obtain d where d: "exec d (s\<lparr>steps := steps s + 1\<rparr>) = (Ok (), u)" "d_op d \<in> set trap_ops"
    by (auto simp: stopped_def)
  from trap_exec [OF d] c(3) obtain tr where "pending u = Some tr" by auto
  then have "tick u = (Ok (Some (StepTrap tr)), u\<lparr>pending := None\<rparr>)" by (simp add: tick_def)
  with run_loop_tick [OF u] run_loop_stop assms(2) show ?thesis by fastforce
next
  case False
  moreover have "\<And>x. fst (tick s) \<noteq> Ok (Some x)"
    using assms(1) by (auto simp: stopped_def tick_def Let_def sbind_def slift_def sthen_def sret_def fail_def
        split: option.splits if_splits prod.splits res.splits)
  ultimately show ?thesis using assms(2)
    by (cases "tick s"; cases "fst (tick s)") (auto simp: run_loop.simps [of s] split: option.splits)
qed

lemma answered_stopped:
  assumes "stopped s" and "vm_step (Some (AnsValue v)) s = Some (r, u)"
  shows "((\<exists>tr. r = Ok (StepTrap tr)) \<and> stopped u) \<or> (\<forall>x. r \<noteq> Ok x)"
proof -
  obtain q t where push: "on_frame (push v) s = (q, t)" by fastforce
  show ?thesis
  proof (cases q)
    case (Ok y)
    with push assms(2) have l: "run_loop t = Some (r, u)" by (simp add: vm_step_def)
    have "stopped (t\<lparr>pending := None\<rparr>)"
      using push_place [of v s y t] push Ok assms(1) same_place_stopped by (auto simp: stopped_def)
    moreover have "t\<lparr>pending := None\<rparr> = t" using push_answer(2) [OF push] assms(1) by (simp add: stopped_def)
    ultimately have t: "stopped t" by simp
    from stopped_loop [OF t l] loop_stopped [OF l] t show ?thesis by (auto simp: stopped_def)
  qed (use push assms(2) in \<open>auto simp: vm_step_def\<close>)
qed

lemma stopped_never_halts:
  assumes "run_vm s = Some r"
  shows "stopped s \<longrightarrow> r \<noteq> Ok n"
proof (rule run_vm.raw_induct [OF _ assms])
  fix f s r
  assume IH: "\<And>s r. f s = Some r \<Longrightarrow> stopped s \<longrightarrow> r \<noteq> Ok n"
    and run: "(case vm_step None s of
        None \<Rightarrow> None
      | Some (Ok (Halted c), t) \<Rightarrow> Some (Ok c)
      | Some (Ok (StepTrap tr), t) \<Rightarrow> (case vm_step (Some (AnsValue (v_int 0))) t of
          None \<Rightarrow> None | Some (Ok x, u) \<Rightarrow> f u | Some (Err e, u) \<Rightarrow> Some (Err e) | Some (Panic, u) \<Rightarrow> Some Panic)
      | Some (Err e, t) \<Rightarrow> Some (Err e) | Some (Panic, t) \<Rightarrow> Some Panic) = Some r"
  show "stopped s \<longrightarrow> r \<noteq> Ok n"
  proof
    assume s: "stopped s"
    from run obtain q t where q: "vm_step None s = Some (q, t)" by (cases "vm_step None s") auto
    then have l: "run_loop s = Some (q, t)" by (simp add: vm_step_def)
    show "r \<noteq> Ok n"
    proof (cases "\<exists>tr. q = Ok (StepTrap tr)")
      case True
      then have t: "stopped t" using loop_stopped [OF l] s by (auto simp: stopped_def)
      from True q run obtain q2 u where a: "vm_step (Some (AnsValue (v_int 0))) t = Some (q2, u)"
        by (cases "vm_step (Some (AnsValue (v_int 0))) t") auto
      from answered_stopped [OF t a] True q a run IH [of u r] show ?thesis by (cases q2) auto
    next
      case False
      with stopped_loop [OF s l] q run show ?thesis by (cases q) auto
    qed
  qed
qed

theorem run_vm_trap_fails:
  assumes "vm_new im lim = Ok s" and "max_steps lim < 0xFFFFFFFFFFFFFFFF"
    and "vm_step None s = Some (Ok (StepTrap tr), t)"
  shows "\<exists>r. run_vm s = Some r \<and> (\<forall>n. r \<noteq> Ok n)"
proof -
  have "pending s = None" using assms(1) by (auto simp: vm_new_def Let_def split: option.splits)
  moreover have "run_loop s = Some (Ok (StepTrap tr), t)" using assms(3) by (simp add: vm_step_def)
  ultimately have t: "stopped t" using loop_stopped by blast
  from run_vm_returns [OF assms(1,2)] obtain r where r: "run_vm s = Some r" by blast
  then obtain q u where a: "vm_step (Some (AnsValue (v_int 0))) t = Some (q, u)"
    by (cases "vm_step (Some (AnsValue (v_int 0))) t") (auto simp: run_vm.simps [of s] assms(3))
  have unfold: "run_vm s = (case q of Ok x \<Rightarrow> run_vm u | Err e \<Rightarrow> Some (Err e) | Panic \<Rightarrow> Some Panic)"
    by (subst run_vm.simps) (simp add: assms(3) a)
  from answered_stopped [OF t a] stopped_never_halts [of u r] r unfold show ?thesis by (cases q) auto
qed

text \<open>An image is run whether it is verified or not.\<close>

lemma reload_object: "assemble (ascii ''reload.cdx'') [] = fail NoEntryPoint"
  by code_simp

theorem run_image_unverified:
  assumes "from_bytes bytes = Ok im" and "seal_check [] \<noteq> Panic"
  shows "run_image from_bytes is_verified seal_check build_image mark_verified bytes =
     obind (Some (vm_new im limits_default)) run_vm"
proof -
  have "reload_check seal_check build_image mark_verified = Some (Ok ())"
    using assms(2) by (cases "seal_check []")
      (simp_all add: reload_check_def reload_object fail_def admit_def obj_default_def)
  with assms(1) show ?thesis by (simp add: run_image_def)
qed

end
