(* ===== verification/CV_Hash.thy ===== *)
theory CV_Hash
  imports CV_Prelude
begin

text \<open>
  The hashes of \<open>src/src/hash.rs\<close>: FNV-1a over 64 bits and the chaining of two hashes. The
  lemmas show what the journal relies on: hashing goes byte by byte, each byte's round is
  a bijection of the state, so two inputs that differ in exactly one byte never collide.
\<close>

definition FNV_OFFSET :: u64 where
  "FNV_OFFSET = 0xcbf29ce484222325"

definition FNV_PRIME :: u64 where
  "FNV_PRIME = 0x00000100000001b3"

text \<open>One turn of the loop: \<open>h ^= u64::from(b); h = h.wrapping_mul(PRIME)\<close>.\<close>

definition fnv_round :: "u64 \<Rightarrow> u8 \<Rightarrow> u64" where
  "fnv_round h b = xor h (ucast b) * FNV_PRIME"

definition hash_bytes :: "bytes \<Rightarrow> u64" where
  "hash_bytes data = foldl fnv_round FNV_OFFSET data"

definition chain :: "u64 \<Rightarrow> bytes \<Rightarrow> u64" where
  "chain prev data = hash_bytes (u64_le prev @ data)"

text \<open>The prime is odd, so multiplying by it can be undone modulo \<open>2 ^ 64\<close>.\<close>

definition FNV_INV :: u64 where
  "FNV_INV = 0xce965057aff6957b"

lemma FNV_inverse: "FNV_PRIME * FNV_INV = 1"
  by (simp add: FNV_PRIME_def FNV_INV_def)

lemma mult_FNV_PRIME_inject: "a * FNV_PRIME = b * FNV_PRIME \<longleftrightarrow> a = b"
proof
  assume "a * FNV_PRIME = b * FNV_PRIME"
  then have "a * FNV_PRIME * FNV_INV = b * FNV_PRIME * FNV_INV" by simp
  then show "a = b" by (simp add: mult.assoc FNV_inverse)
qed simp

lemma xor_right_inject: "xor a c = xor b c \<longleftrightarrow> a = (b :: u64)"
  by (auto simp: bit_eq_iff bit_xor_iff)

lemma xor_left_inject: "xor c a = xor c b \<longleftrightarrow> a = (b :: u64)"
  by (metis xor_right_inject xor.commute)

lemma fnv_round_state_inject: "fnv_round g b = fnv_round h b \<longleftrightarrow> g = h"
  by (simp add: fnv_round_def mult_FNV_PRIME_inject xor_right_inject)

lemma ucast_u8_inject: "(ucast b :: u64) = ucast c \<longleftrightarrow> b = (c :: u8)"
proof -
  have "(ucast (ucast d :: u64) :: u8) = d" for d :: u8
    by (rule bit_word_eqI) (auto simp: bit_simps)
  then show ?thesis by metis
qed

lemma fnv_round_byte_inject: "fnv_round h b = fnv_round h c \<longleftrightarrow> b = c"
  by (simp add: fnv_round_def mult_FNV_PRIME_inject xor_left_inject ucast_u8_inject)

lemma fnv_fold_state_inject: "foldl fnv_round g bs = foldl fnv_round h bs \<longleftrightarrow> g = h"
  by (induction bs arbitrary: g h) (auto simp: fnv_round_state_inject)

lemma hash_bytes_one_byte:
  assumes "b \<noteq> c"
  shows "hash_bytes (xs @ b # ys) \<noteq> hash_bytes (xs @ c # ys)"
  using assms by (simp add: hash_bytes_def fnv_fold_state_inject fnv_round_byte_inject)

lemma chain_one_byte: "b \<noteq> c \<Longrightarrow> chain p (xs @ b # ys) \<noteq> chain p (xs @ c # ys)"
  unfolding chain_def using hash_bytes_one_byte [of b c "u64_le p @ xs" ys] by simp

lemma chain_split: "chain p data = foldl fnv_round (hash_bytes (u64_le p)) data"
  by (simp add: chain_def hash_bytes_def)

end
