(* ===== verification/CV_Reader.thy ===== *)
theory CV_Reader
  imports CV_Diag
begin

text \<open>
  Reading a byte string front to back. The crate has two private \<open>Cursor\<close> structs, in
  \<open>src/src/cont.rs\<close> and \<open>src/src/journal.rs\<close>, that differ in the error of a short read. The locale
  \<open>reader\<close> is what the deserializers need of either; round trips and truncation errors are
  proved once, by composition.
\<close>

section \<open>Composing reads\<close>

text \<open>\<open>parses rest live p bs x\<close>: wherever the unread input begins with \<open>bs\<close>, \<open>p\<close> consumes exactly
  \<open>bs\<close> and returns \<open>x\<close>.\<close>

definition parses ::
  "('c \<Rightarrow> bytes) \<Rightarrow> ('c \<Rightarrow> bool) \<Rightarrow> ('c, diag, 'a) sm \<Rightarrow> bytes \<Rightarrow> 'a \<Rightarrow> bool" where
  "parses rest live p bs x \<longleftrightarrow>
     (\<forall>c r. live c \<and> rest c = bs @ r \<longrightarrow> (\<exists>c'. p c = (Ok x, c') \<and> live c' \<and> rest c' = r))"

text \<open>\<open>cuts rest live e p bs\<close>: on every proper prefix of \<open>bs\<close>, \<open>p\<close> fails with \<open>e\<close>.\<close>

definition cuts ::
  "('c \<Rightarrow> bytes) \<Rightarrow> ('c \<Rightarrow> bool) \<Rightarrow> code \<Rightarrow> ('c, diag, 'a) sm \<Rightarrow> bytes \<Rightarrow> bool" where
  "cuts rest live e p bs \<longleftrightarrow> (\<forall>c s. live c \<and> s \<noteq> [] \<and> rest c @ s = bs \<longrightarrow> fst (p c) = fail e)"

text \<open>\<open>for _ in 0..n { out.push(p()?) }\<close>\<close>

fun smany :: "nat \<Rightarrow> ('c, diag, 'a) sm \<Rightarrow> ('c, diag, 'a list) sm" where
  "smany 0 p = sret []"
| "smany (Suc n) p = sbind p (\<lambda>x. sbind (smany n p) (\<lambda>xs. sret (x # xs)))"

lemma parsesD:
  "parses rest live p bs x \<Longrightarrow> live c \<Longrightarrow> rest c = bs @ r \<Longrightarrow> \<exists>c'. p c = (Ok x, c') \<and> live c' \<and> rest c' = r"
  by (auto simp: parses_def)

lemma cutsD: "cuts rest live e p bs \<Longrightarrow> live c \<Longrightarrow> rest c @ s = bs \<Longrightarrow> s \<noteq> [] \<Longrightarrow> fst (p c) = fail e"
  by (auto simp: cuts_def)

lemma parses_sret: "parses rest live (sret x) [] x"
  by (simp add: parses_def sret_def)

lemma cuts_Nil: "cuts rest live e p []"
  by (simp add: cuts_def)

lemma parses_slift: "r = Ok x \<Longrightarrow> parses rest live (slift r) [] x"
  by (simp add: parses_def slift_def)

lemma parses_sbind:
  assumes "parses rest live p bs x" and "parses rest live (f x) bs' y"
  shows "parses rest live (sbind p f) (bs @ bs') y"
  unfolding parses_def
proof (intro allI impI)
  fix c r assume c: "live c \<and> rest c = (bs @ bs') @ r"
  with parsesD [OF assms(1), of c "bs' @ r"] obtain c1
    where c1: "p c = (Ok x, c1)" "live c1" "rest c1 = bs' @ r" by auto
  with parsesD [OF assms(2) c1(2,3)] show "\<exists>c'. sbind p f c = (Ok y, c') \<and> live c' \<and> rest c' = r"
    by auto
qed

lemma cuts_sbind:
  assumes "parses rest live p bs x" and "cuts rest live e p bs" and "cuts rest live e (f x) bs'"
  shows "cuts rest live e (sbind p f) (bs @ bs')"
  unfolding cuts_def
proof (intro allI impI)
  fix c s assume c: "live c \<and> s \<noteq> [] \<and> rest c @ s = bs @ bs'"
  then obtain us where "rest c = bs @ us \<and> us @ s = bs' \<or> rest c @ us = bs \<and> s = us @ bs'"
    by (auto simp: append_eq_append_conv2)
  then consider (inside) t where "rest c @ t = bs" "t \<noteq> []" | (past) r where "rest c = bs @ r" "r @ s = bs'"
    by (cases "us = []") auto
  then show "fst (sbind p f c) = fail e"
  proof cases
    case inside
    with cutsD [OF assms(2)] c have "fst (p c) = fail e" by blast
    then show ?thesis by (cases "p c") (simp add: fail_def sbind_def)
  next
    case past
    with parsesD [OF assms(1)] c obtain c1 where "p c = (Ok x, c1)" "live c1" "rest c1 = r" by blast
    with past c cutsD [OF assms(3), of c1 s] show ?thesis by simp
  qed
qed

lemma parses_smany:
  "list_all2 (\<lambda>x bs. parses rest live p bs x) xs bss \<Longrightarrow>
     parses rest live (smany (length xs) p) (concat bss) xs"
proof (induction xs arbitrary: bss)
  case (Cons x xs)
  then obtain b bs where bss: "bss = b # bs" and p: "parses rest live p b x"
    and rest: "list_all2 (\<lambda>x bs. parses rest live p bs x) xs bs" by (auto simp: list_all2_Cons1)
  have "parses rest live (sbind (smany (length xs) p) (\<lambda>xs. sret (x # xs))) (concat bs @ []) (x # xs)"
    by (rule parses_sbind [OF Cons.IH [OF rest]]) (rule parses_sret)
  with parses_sbind [OF p] show ?case by (simp add: bss)
qed (simp add: parses_sret)

lemma cuts_smany:
  "list_all2 (\<lambda>x bs. parses rest live p bs x \<and> cuts rest live e p bs) xs bss \<Longrightarrow>
     cuts rest live e (smany (length xs) p) (concat bss)"
proof (induction xs arbitrary: bss)
  case (Cons x xs)
  then obtain b bs where bss: "bss = b # bs" and p: "parses rest live p b x" "cuts rest live e p b"
    and rest: "list_all2 (\<lambda>x bs. parses rest live p bs x \<and> cuts rest live e p bs) xs bs"
    by (auto simp: list_all2_Cons1)
  then have "parses rest live (smany (length xs) p) (concat bs) xs"
    by (intro parses_smany) (auto elim: list_all2_mono)
  then have "cuts rest live e (sbind (smany (length xs) p) (\<lambda>xs. sret (x # xs))) (concat bs @ [])"
    by (rule cuts_sbind) (rule Cons.IH [OF rest], rule cuts_Nil)
  with cuts_sbind [OF p] show ?case by (simp add: bss)
qed (simp add: cuts_Nil)

text \<open>\<open>trusts rest live E p bs x\<close>: where the unread input and what was cut off it begin with \<open>bs\<close>,
  \<open>p\<close> returns \<open>x\<close> and has consumed \<open>bs\<close>, or fails with a code of \<open>E\<close>.\<close>

definition trusts ::
  "('c \<Rightarrow> bytes) \<Rightarrow> ('c \<Rightarrow> bool) \<Rightarrow> code set \<Rightarrow> ('c, diag, 'a) sm \<Rightarrow> bytes \<Rightarrow> 'a \<Rightarrow> bool" where
  "trusts rest live E p bs x \<longleftrightarrow> (\<forall>c s r. live c \<and> rest c @ s = bs @ r \<longrightarrow> (case p c of
     (Ok y, c') \<Rightarrow> y = x \<and> live c' \<and> rest c' @ s = r
   | (Err e, c') \<Rightarrow> dcode e \<in> E
   | (Panic, c') \<Rightarrow> False))"

lemma trustsD:
  assumes "trusts rest live E p bs x" and "live c" and "rest c @ s = bs @ r"
  shows "(\<exists>c'. p c = (Ok x, c') \<and> live c' \<and> rest c' @ s = r) \<or> (\<exists>e c'. p c = (Err e, c') \<and> dcode e \<in> E)"
proof -
  have "case p c of (Ok y, c') \<Rightarrow> y = x \<and> live c' \<and> rest c' @ s = r | (Err e, c') \<Rightarrow> dcode e \<in> E | (Panic, c') \<Rightarrow> False"
    by (rule assms(1) [unfolded trusts_def, rule_format, OF conjI [OF assms(2,3)]])
  then show ?thesis by (cases "p c") (auto split: res.splits)
qed

lemma trustsI:
  assumes "\<And>c s r. live c \<Longrightarrow> rest c @ s = bs @ r \<Longrightarrow>
     (\<exists>c'. p c = (Ok x, c') \<and> live c' \<and> rest c' @ s = r) \<or> (\<exists>e c'. p c = (Err e, c') \<and> dcode e \<in> E)"
  shows "trusts rest live E p bs x"
  unfolding trusts_def
proof (intro allI impI)
  fix c s r assume "live c \<and> rest c @ s = bs @ r"
  with assms [of c s r] show "case p c of (Ok y, c') \<Rightarrow> y = x \<and> live c' \<and> rest c' @ s = r
      | (Err e, c') \<Rightarrow> dcode e \<in> E | (Panic, c') \<Rightarrow> False" by auto
qed

lemma trusts_sret: "trusts rest live E (sret x) [] x"
  by (rule trustsI) (simp add: sret_def)

lemma trusts_fail: "c \<in> E \<Longrightarrow> trusts rest live E (slift (fail c)) [] x"
  by (rule trustsI) (simp add: slift_def fail_def)

lemma trusts_sbind:
  assumes "trusts rest live E p bs x" and "trusts rest live E (f x) bs' y"
  shows "trusts rest live E (sbind p f) (bs @ bs') y"
proof (rule trustsI)
  fix c s r assume c: "live c" "rest c @ s = (bs @ bs') @ r"
  then have "rest c @ s = bs @ (bs' @ r)" by simp
  from trustsD [OF assms(1) c(1) this] show "(\<exists>c'. sbind p f c = (Ok y, c') \<and> live c' \<and> rest c' @ s = r) \<or>
      (\<exists>e c'. sbind p f c = (Err e, c') \<and> dcode e \<in> E)"
  proof (elim disjE exE conjE)
    fix c1 assume "p c = (Ok x, c1)" "live c1" "rest c1 @ s = bs' @ r"
    with trustsD [OF assms(2), of c1 s r] show ?thesis by (simp add: sbind_def)
  next
    fix e c1 assume "p c = (Err e, c1)" "dcode e \<in> E"
    then show ?thesis by (simp add: sbind_def)
  qed
qed

lemma trusts_slift: "r = Ok x \<Longrightarrow> trusts rest live E (f x) bs y \<Longrightarrow> trusts rest live E (sbind (slift r) f) bs y"
  by (simp add: trusts_def slift_def sbind_def)

lemma trusts_smany_map:
  "(\<And>x. x \<in> set xs \<Longrightarrow> trusts rest live E p (enc x) x) \<Longrightarrow>
     trusts rest live E (smany (length xs) p) (concat (map enc xs)) xs"
proof (induction xs)
  case (Cons x xs)
  have "trusts rest live E (sbind (smany (length xs) p) (\<lambda>xs. sret (x # xs))) (concat (map enc xs) @ []) (x # xs)"
    by (rule trusts_sbind [OF Cons.IH]) (simp_all add: Cons.prems trusts_sret)
  with trusts_sbind [OF Cons.prems [of x]] show ?case by simp
qed (simp add: trusts_sret)

section \<open>The contract of a cursor\<close>

locale reader =
  fixes tk :: "nat \<Rightarrow> ('c, diag, bytes) sm" and rest :: "'c \<Rightarrow> bytes" and live :: "'c \<Rightarrow> bool"
    and short :: code
  assumes take_enough: "live c \<Longrightarrow> n \<le> length (rest c) \<Longrightarrow>
      \<exists>c'. tk n c = (Ok (take n (rest c)), c') \<and> live c' \<and> rest c' = drop n (rest c)"
    and take_short: "live c \<Longrightarrow> length (rest c) < n \<Longrightarrow> tk n c = (fail short, c)"
begin

abbreviation reads :: "('c, diag, 'a) sm \<Rightarrow> bytes \<Rightarrow> 'a \<Rightarrow> bool" where
  "reads p bs x \<equiv> parses rest live p bs x \<and> cuts rest live short p bs"

lemma reads_take: "length bs = n \<Longrightarrow> reads (tk n) bs bs"
proof (intro conjI)
  assume n: "length bs = n"
  show "parses rest live (tk n) bs bs"
    unfolding parses_def
  proof (intro allI impI)
    fix c r assume c: "live c \<and> rest c = bs @ r"
    with take_enough [of c n] n show "\<exists>c'. tk n c = (Ok bs, c') \<and> live c' \<and> rest c' = r" by auto
  qed
  show "cuts rest live short (tk n) bs"
    using take_short n by (auto simp: cuts_def)
qed

lemma reads_sret: "reads (sret x) [] x"
  by (simp add: parses_sret cuts_Nil)

lemma reads_sbind: "reads p bs x \<Longrightarrow> reads (f x) bs' y \<Longrightarrow> reads (sbind p f) (bs @ bs') y"
  by (blast intro: parses_sbind cuts_sbind)

text \<open>A check between two reads consumes nothing.\<close>

lemma reads_slift: "r = Ok x \<Longrightarrow> reads (f x) bs y \<Longrightarrow> reads (sbind (slift r) f) bs y"
  using reads_sbind [of "slift r" "[]" x f bs y] by (simp add: parses_slift cuts_Nil)

lemma reads_map: "reads p bs x \<Longrightarrow> reads (sbind p (\<lambda>x. sret (g x))) bs (g x)"
  using reads_sbind [of p bs x "\<lambda>x. sret (g x)" "[]" "g x"] by (simp add: parses_sret cuts_Nil)

lemma reads_smany:
  "list_all2 (\<lambda>x bs. reads p bs x) xs bss \<Longrightarrow> reads (smany (length xs) p) (concat bss) xs"
  by (intro conjI parses_smany cuts_smany) (auto elim: list_all2_mono)

lemma reads_smany_map:
  "(\<And>x. x \<in> set xs \<Longrightarrow> reads p (enc x) x) \<Longrightarrow>
     reads (smany (length xs) p) (concat (map enc xs)) xs"
  by (intro reads_smany) (auto simp: list_all2_conv_all_nth)

lemma trusts_take:
  assumes "length bs = n" and "short \<in> E"
  shows "trusts rest live E (tk n) bs bs"
proof (rule trustsI)
  fix c s r assume c: "live c" "rest c @ s = bs @ r"
  show "(\<exists>c'. tk n c = (Ok bs, c') \<and> live c' \<and> rest c' @ s = r) \<or> (\<exists>e c'. tk n c = (Err e, c') \<and> dcode e \<in> E)"
  proof (cases "n \<le> length (rest c)")
    case True
    with arg_cong [OF c(2), of "take n"] arg_cong [OF c(2), of "drop n"] assms(1)
    have "take n (rest c) = bs" "drop n (rest c) @ s = r" by simp_all
    with take_enough [OF c(1) True] show ?thesis by auto
  next
    case False
    with take_short [OF c(1), of n] assms(2) show ?thesis by (simp add: fail_def)
  qed
qed

lemma trusts_map: "trusts rest live E p bs x \<Longrightarrow> trusts rest live E (sbind p (\<lambda>x. sret (g x))) bs (g x)"
  using trusts_sbind [OF _ trusts_sret, of rest live E p bs x "\<lambda>x. g x"] by simp

end

section \<open>Little-endian integers\<close>

definition rd_u8 :: "(nat \<Rightarrow> ('c, diag, bytes) sm) \<Rightarrow> ('c, diag, u8) sm" where
  "rd_u8 tk = sbind (tk 1) (\<lambda>bs. sret (bs ! 0))"

definition rd_u16 :: "(nat \<Rightarrow> ('c, diag, bytes) sm) \<Rightarrow> ('c, diag, u16) sm" where
  "rd_u16 tk = sbind (tk 2) (\<lambda>bs. sret (u16_of_le bs))"

definition rd_u32 :: "(nat \<Rightarrow> ('c, diag, bytes) sm) \<Rightarrow> ('c, diag, u32) sm" where
  "rd_u32 tk = sbind (tk 4) (\<lambda>bs. sret (u32_of_le bs))"

definition rd_u64 :: "(nat \<Rightarrow> ('c, diag, bytes) sm) \<Rightarrow> ('c, diag, u64) sm" where
  "rd_u64 tk = sbind (tk 8) (\<lambda>bs. sret (u64_of_le bs))"

context reader
begin

lemma reads_u8: "reads (rd_u8 tk) [b] b"
  using reads_map [OF reads_take [of "[b]" 1], of "\<lambda>bs. bs ! 0"] by (simp add: rd_u8_def)

lemma reads_u16: "reads (rd_u16 tk) (u16_le w) w"
  using reads_map [OF reads_take [of "u16_le w" 2], of u16_of_le] by (simp add: rd_u16_def)

lemma reads_u32: "reads (rd_u32 tk) (u32_le w) w"
  using reads_map [OF reads_take [of "u32_le w" 4], of u32_of_le] by (simp add: rd_u32_def)

lemma reads_u64: "reads (rd_u64 tk) (u64_le w) w"
  using reads_map [OF reads_take [of "u64_le w" 8], of u64_of_le] by (simp add: rd_u64_def)

lemma trusts_u8: "short \<in> E \<Longrightarrow> trusts rest live E (rd_u8 tk) [b] b"
  using trusts_map [OF trusts_take [of "[b]" 1], of E "\<lambda>bs. bs ! 0"] by (simp add: rd_u8_def)

lemma trusts_u16: "short \<in> E \<Longrightarrow> trusts rest live E (rd_u16 tk) (u16_le w) w"
  using trusts_map [OF trusts_take [of "u16_le w" 2], of E u16_of_le] by (simp add: rd_u16_def)

lemma trusts_u32: "short \<in> E \<Longrightarrow> trusts rest live E (rd_u32 tk) (u32_le w) w"
  using trusts_map [OF trusts_take [of "u32_le w" 4], of E u32_of_le] by (simp add: rd_u32_def)

end

end
