(* ===== verification/CV_Journal.thy ===== *)
theory CV_Journal
  imports CV_Hash CV_Reader CV_Value
begin

text \<open>
  The journal, \<open>src/src/journal.rs\<close>: an append-only list of records, each holding the hash of
  everything before it, and its serialized form. The locale \<open>hash_chain\<close> says what tamper
  detection needs of the hash; FNV-1a gives it for changes of a single byte.
\<close>

definition JOURNAL_MAGIC :: bytes where
  "JOURNAL_MAGIC = [0x43, 0x4A, 0x52, 0x4E]"

definition KIND_EFFECT :: u8 where "KIND_EFFECT = 1"
definition KIND_ORACLE :: u8 where "KIND_ORACLE = 2"
definition KIND_LOG :: u8 where "KIND_LOG = 3"

record jrecord =
  r_seq :: u64
  r_kind :: u8
  r_payload :: bytes
  r_prev :: u64

record journal =
  records :: "jrecord list"
  head :: u64

definition journal_new :: journal where
  "journal_new = \<lparr>records = [], head = 0\<rparr>"

definition journal_append :: "u8 \<Rightarrow> bytes \<Rightarrow> (journal, diag, u64) sm" where
  "journal_append kind payload j =
     (let seq = of_nat (length (records j));
          prev = head j;
          hd = chain prev payload
      in (Ok hd,
          j\<lparr>records := records j @ [\<lparr>r_seq = seq, r_kind = kind, r_payload = payload, r_prev = prev\<rparr>],
            head := hd\<rparr>))"

text \<open>The loop of \<open>verify_chain\<close>; it returns the hash after the last record.\<close>

fun walk_chain :: "u64 \<Rightarrow> jrecord list \<Rightarrow> u64 result" where
  "walk_chain prev [] = Ok prev"
| "walk_chain prev (r # rs) =
     (if r_prev r \<noteq> prev then fail ChainBroken else walk_chain (chain prev (r_payload r)) rs)"

definition verify_chain :: "journal \<Rightarrow> unit result" where
  "verify_chain j = rbind (walk_chain 0 (records j)) (\<lambda>prev.
     if head j \<noteq> prev then fail Diverged else Ok ())"

definition journal_answer :: "journal \<Rightarrow> u64 \<Rightarrow> jrecord option" where
  "journal_answer j seq = nth_get (records j) (unat seq)"

definition journal_len :: "journal \<Rightarrow> nat" where
  "journal_len j = length (records j)"

definition record_bytes :: "jrecord \<Rightarrow> bytes" where
  "record_bytes r =
     [r_kind r] @ u64_le (r_seq r) @ u64_le (r_prev r) @ u32_le (of_nat (length (r_payload r)))
       @ r_payload r"

definition journal_to_bytes :: "journal \<Rightarrow> bytes" where
  "journal_to_bytes j =
     JOURNAL_MAGIC @ u64_le (head j) @ u32_le (of_nat (length (records j)))
       @ concat (map record_bytes (records j))"

definition payload_hash :: "jrecord \<Rightarrow> u64" where
  "payload_hash r = hash_bytes (r_payload r)"

definition value_payload :: "val \<Rightarrow> bytes" where
  "value_payload v = value_write v []"

section \<open>Reading a journal back\<close>

record jcursor =
  j_data :: bytes
  j_pos :: nat

definition jtake :: "nat \<Rightarrow> (jcursor, diag, bytes) sm" where
  "jtake n c =
     (let e = j_pos c + n
      in if length (j_data c) < e then (fail RecordMalformed, c)
         else (Ok (take (e - j_pos c) (drop (j_pos c) (j_data c))), c\<lparr>j_pos := e\<rparr>))"

definition rd_record :: "(jcursor, diag, jrecord) sm" where
  "rd_record =
     sbind (rd_u8 jtake) (\<lambda>kind.
     sbind (rd_u64 jtake) (\<lambda>seq.
     sbind (rd_u64 jtake) (\<lambda>prev.
     sbind (rd_u32 jtake) (\<lambda>len.
     sbind (jtake (unat len)) (\<lambda>payload.
     sret \<lparr>r_seq = seq, r_kind = kind, r_payload = payload, r_prev = prev\<rparr>)))))"

definition rd_journal :: "(jcursor, diag, journal) sm" where
  "rd_journal =
     sbind (jtake 4) (\<lambda>magic.
     sbind (slift (if magic \<noteq> JOURNAL_MAGIC then fail RecordMalformed else Ok ())) (\<lambda>_.
     sbind (rd_u64 jtake) (\<lambda>hd.
     sbind (rd_u32 jtake) (\<lambda>n.
     sbind (smany (unat n) rd_record) (\<lambda>rs.
     let j = \<lparr>records = rs, head = hd\<rparr>
     in sbind (slift (verify_chain j)) (\<lambda>_. sret j))))))"

definition journal_from_bytes :: "bytes \<Rightarrow> journal result" where
  "journal_from_bytes bs = fst (rd_journal \<lparr>j_data = bs, j_pos = 0\<rparr>)"

declare journal_new_def [run_defs] journal_append_def [run_defs] journal_answer_def [run_defs]
  KIND_EFFECT_def [run_defs] KIND_ORACLE_def [run_defs]

interpretation journal_cursor: reader jtake "\<lambda>c. drop (j_pos c) (j_data c)"
  "\<lambda>c. j_pos c \<le> length (j_data c)" RecordMalformed
  by unfold_locales (auto simp: jtake_def Let_def add.commute)

section \<open>Chains of hashes\<close>

locale hash_chain =
  fixes link :: "'h \<Rightarrow> 'p \<Rightarrow> 'h"
    and differ :: "'p \<Rightarrow> 'p \<Rightarrow> bool"
  assumes link_differ: "differ p q \<Longrightarrow> link h p \<noteq> link h q"
begin

text \<open>The hashes recorded along a list of payloads: before each one, and after the last.\<close>

fun links :: "'h \<Rightarrow> 'p list \<Rightarrow> 'h list" where
  "links h [] = [h]"
| "links h (p # ps) = h # links (link h p) ps"

lemma links_append: "links h (ps @ qs) = butlast (links h ps) @ links (last (links h ps)) qs"
proof (induction ps arbitrary: h)
  case (Cons p ps)
  have "links (link h p) ps \<noteq> []" by (cases ps) simp_all
  with Cons show ?case by simp
qed simp

lemma length_links: "length (links h ps) = Suc (length ps)"
  by (induction ps arbitrary: h) simp_all

text \<open>A changed payload changes the hash recorded right after it.\<close>

lemma links_changed:
  assumes "i < length ps" and "differ (ps ! i) q"
  shows "links h (ps[i := q]) ! Suc i \<noteq> links h ps ! Suc i"
  using assms
proof (induction ps arbitrary: h i)
  case (Cons p ps)
  have first: "links g qs ! 0 = g" for g qs by (cases qs) simp_all
  show ?case
  proof (cases i)
    case 0
    with Cons.prems link_differ [of p q h] have "link h q \<noteq> link h p" by simp
    with 0 show ?thesis by (simp add: first)
  next
    case (Suc k)
    with Cons show ?thesis by simp
  qed
qed simp

lemma links_unchanged:
  "j \<le> i \<Longrightarrow> i < length ps \<Longrightarrow> links h (ps[i := q]) ! j = links h ps ! j"
proof (induction ps arbitrary: h i j)
  case (Cons p ps)
  then show ?case by (cases i; cases j) auto
qed simp

end

text \<open>Two payloads that differ in exactly one byte.\<close>

definition one_byte_apart :: "bytes \<Rightarrow> bytes \<Rightarrow> bool" where
  "one_byte_apart p q \<longleftrightarrow>
     (\<exists>i < length p. \<exists>b. b \<noteq> p ! i \<and> q = p[i := b])"

lemma chain_one_byte_apart: "one_byte_apart p q \<Longrightarrow> chain h p \<noteq> chain h q"
proof -
  assume "one_byte_apart p q"
  then obtain i b where "i < length p" "b \<noteq> p ! i" "q = p[i := b]"
    by (auto simp: one_byte_apart_def)
  then have "p = take i p @ p ! i # drop (Suc i) p" and "q = take i p @ b # drop (Suc i) p"
    by (simp_all add: id_take_nth_drop upd_conv_take_nth_drop)
  with chain_one_byte [of "p ! i" b h "take i p" "drop (Suc i) p"] \<open>b \<noteq> p ! i\<close>
  show ?thesis by metis
qed

interpretation fnv_chain: hash_chain chain one_byte_apart
  by unfold_locales (rule chain_one_byte_apart)

section \<open>When a journal verifies\<close>

lemma walk_chain_eq:
  "walk_chain h rs =
     (let hs = fnv_chain.links h (map r_payload rs)
      in if map r_prev rs = butlast hs then Ok (last hs) else fail ChainBroken)"
proof (induction rs arbitrary: h)
  case (Cons r rs)
  have "fnv_chain.links g ps \<noteq> []" for g ps by (cases ps) simp_all
  with Cons show ?case by (simp add: Let_def)
qed simp

lemma verify_chain_iff:
  "verify_chain j = Ok () \<longleftrightarrow>
     map r_prev (records j) @ [head j] = fnv_chain.links 0 (map r_payload (records j))"
proof -
  let ?hs = "fnv_chain.links 0 (map r_payload (records j))"
  have ne: "?hs \<noteq> []" using fnv_chain.length_links [of 0 "map r_payload (records j)"] by auto
  have "verify_chain j = Ok () \<longleftrightarrow> map r_prev (records j) = butlast ?hs \<and> head j = last ?hs"
    by (simp add: verify_chain_def walk_chain_eq Let_def)
  also have "\<dots> \<longleftrightarrow> map r_prev (records j) @ [head j] = ?hs"
    using ne by (metis append_butlast_last_id butlast_snoc last_snoc)
  finally show ?thesis .
qed

lemma verify_chain_new: "verify_chain journal_new = Ok ()"
  by (simp add: verify_chain_def journal_new_def)

lemma verify_chain_append:
  "verify_chain j = Ok () \<Longrightarrow> journal_append kind payload j = (r, j') \<Longrightarrow> verify_chain j' = Ok ()"
proof -
  assume ok: "verify_chain j = Ok ()" and app: "journal_append kind payload j = (r, j')"
  let ?hs = "fnv_chain.links 0 (map r_payload (records j))"
  from ok have "?hs = map r_prev (records j) @ [head j]" by (simp add: verify_chain_iff)
  then have "fnv_chain.links 0 (map r_payload (records j) @ [payload]) =
      map r_prev (records j) @ [head j, chain (head j) payload]"
    by (simp add: fnv_chain.links_append)
  with app show "verify_chain j' = Ok ()"
    by (auto simp: verify_chain_iff journal_append_def Let_def)
qed

text \<open>A run of appends from the empty journal.\<close>

definition append_all :: "(u8 \<times> bytes) list \<Rightarrow> journal \<Rightarrow> journal" where
  "append_all xs j = foldl (\<lambda>j (k, p). snd (journal_append k p j)) j xs"

lemma append_all_snoc: "append_all (xs @ [(k, p)]) j = snd (journal_append k p (append_all xs j))"
  by (simp add: append_all_def)

lemma verify_append_all: "verify_chain (append_all xs journal_new) = Ok ()"
proof (induction xs rule: rev_induct)
  case Nil
  then show ?case by (simp add: append_all_def verify_chain_new)
next
  case (snoc x xs)
  obtain k p where x: "x = (k, p)" by fastforce
  obtain r j' where "journal_append k p (append_all xs journal_new) = (r, j')" by fastforce
  with verify_chain_append [OF snoc] show ?case by (simp add: x append_all_snoc)
qed

lemma append_all_contents:
  "map (\<lambda>r. (r_kind r, r_payload r)) (records (append_all xs journal_new)) = xs"
proof (induction xs rule: rev_induct)
  case (snoc x xs)
  then show ?case
    by (cases x) (simp add: append_all_snoc journal_append_def Let_def)
qed (simp add: append_all_def journal_new_def)

section \<open>The serialized form\<close>

lemma unat_of_nat_u32: "n \<le> u32_max \<Longrightarrow> unat (of_nat n :: u32) = n"
  by (simp add: unat_of_nat u32_max_def)

lemma reads_record:
  "length (r_payload r) \<le> u32_max \<Longrightarrow> journal_cursor.reads rd_record (record_bytes r) r"
proof -
  assume len: "length (r_payload r) \<le> u32_max"
  have eta: "\<lparr>r_seq = r_seq r, r_kind = r_kind r, r_payload = r_payload r, r_prev = r_prev r\<rparr> = r"
    by simp
  have payload: "journal_cursor.reads
      (sbind (jtake (unat (of_nat (length (r_payload r)) :: u32)))
        (\<lambda>payload. sret \<lparr>r_seq = r_seq r, r_kind = r_kind r, r_payload = payload, r_prev = r_prev r\<rparr>))
      (r_payload r) r"
    using journal_cursor.reads_map [OF journal_cursor.reads_take [OF refl [of "length (r_payload r)"]],
        where g = "\<lambda>p. \<lparr>r_seq = r_seq r, r_kind = r_kind r, r_payload = p, r_prev = r_prev r\<rparr>"] len
    by (simp add: unat_of_nat_u32 eta)
  show ?thesis
    unfolding rd_record_def record_bytes_def
    by (intro journal_cursor.reads_sbind [OF journal_cursor.reads_u8]
        journal_cursor.reads_sbind [OF journal_cursor.reads_u64]
        journal_cursor.reads_sbind [OF journal_cursor.reads_u32] payload)
qed

text \<open>Journals whose counts fit the thirty-two-bit length fields.\<close>

definition journal_fits :: "journal \<Rightarrow> bool" where
  "journal_fits j \<longleftrightarrow> length (records j) \<le> u32_max \<and>
     (\<forall>r \<in> set (records j). length (r_payload r) \<le> u32_max)"

lemma reads_journal:
  assumes "journal_fits j" and "verify_chain j = Ok ()"
  shows "journal_cursor.reads rd_journal (journal_to_bytes j) j"
proof -
  have recs: "journal_cursor.reads (smany (length (records j)) rd_record)
      (concat (map record_bytes (records j))) (records j)"
    using assms(1) by (intro journal_cursor.reads_smany_map reads_record) (auto simp: journal_fits_def)
  have eta: "\<lparr>records = records j, head = head j\<rparr> = j" by simp
  have fin: "journal_cursor.reads
      (let j' = \<lparr>records = records j, head = head j\<rparr> in sbind (slift (verify_chain j')) (\<lambda>_. sret j')) [] j"
    using journal_cursor.reads_slift [OF assms(2) journal_cursor.reads_sret [of j]]
    by (simp add: Let_def eta)
  have n: "unat (of_nat (length (records j)) :: u32) = length (records j)"
    using assms(1) by (simp add: journal_fits_def unat_of_nat_u32)
  have body: "journal_cursor.reads
      (sbind (smany (unat (of_nat (length (records j)) :: u32)) rd_record)
        (\<lambda>rs. let j' = \<lparr>records = rs, head = head j\<rparr> in sbind (slift (verify_chain j')) (\<lambda>_. sret j')))
      (concat (map record_bytes (records j))) j"
    using journal_cursor.reads_sbind [OF recs, of "\<lambda>rs. let j' = \<lparr>records = rs, head = head j\<rparr>
        in sbind (slift (verify_chain j')) (\<lambda>_. sret j')" "[]" j] fin
    by (simp add: n)
  show ?thesis
    unfolding rd_journal_def journal_to_bytes_def
    by (rule journal_cursor.reads_sbind [OF journal_cursor.reads_take])
      (simp add: JOURNAL_MAGIC_def,
       intro journal_cursor.reads_slift [where x = "()"]
         journal_cursor.reads_sbind [OF journal_cursor.reads_u64]
         journal_cursor.reads_sbind [OF journal_cursor.reads_u32] body, simp)
qed

lemma journal_from_to_bytes:
  assumes "journal_fits j" and "verify_chain j = Ok ()"
  shows "journal_from_bytes (journal_to_bytes j @ trailing) = Ok j"
  using parsesD [OF conjunct1 [OF reads_journal [OF assms]],
      of "\<lparr>j_data = journal_to_bytes j @ trailing, j_pos = 0\<rparr>"]
  by (auto simp: journal_from_bytes_def)

lemma journal_from_truncated:
  assumes "journal_fits j" and "verify_chain j = Ok ()" and "n < length (journal_to_bytes j)"
  shows "journal_from_bytes (take n (journal_to_bytes j)) = fail RecordMalformed"
  unfolding journal_from_bytes_def
  by (rule cutsD [OF conjunct2 [OF reads_journal [OF assms(1,2)]],
        where s = "drop n (journal_to_bytes j)"]) (use assms(3) in simp_all)

section \<open>Tampering\<close>

lemma map_update_payload:
  "i < length rs \<Longrightarrow> map r_payload (rs[i := (rs ! i)\<lparr>r_payload := q\<rparr>]) = (map r_payload rs)[i := q]"
  "i < length rs \<Longrightarrow> map r_prev (rs[i := (rs ! i)\<lparr>r_payload := q\<rparr>]) = map r_prev rs"
  by (simp_all add: map_update list_update_same_conv)

definition tamper :: "nat \<Rightarrow> bytes \<Rightarrow> journal \<Rightarrow> journal" where
  "tamper i q j = j\<lparr>records := (records j)[i := (records j ! i)\<lparr>r_payload := q\<rparr>]\<rparr>"

lemma tamper_detected:
  assumes ok: "verify_chain j = Ok ()" and i: "i < length (records j)"
    and q: "one_byte_apart (r_payload (records j ! i)) q"
  shows "verify_chain (tamper i q j) =
     fail (if Suc i = length (records j) then Diverged else ChainBroken)"
proof -
  let ?ps = "map r_payload (records j)" and ?rs = "records (tamper i q j)"
  let ?hs = "fnv_chain.links 0 ?ps" and ?hs' = "fnv_chain.links 0 (?ps[i := q])"
  have pv: "map r_payload ?rs = ?ps[i := q]" "map r_prev ?rs = map r_prev (records j)"
    using i by (simp_all add: tamper_def map_update_payload)
  have hs: "?hs = map r_prev (records j) @ [head j]" using ok by (simp add: verify_chain_iff)
  have len: "length ?hs' = Suc (length (records j))" by (simp add: fnv_chain.length_links)
  have ch: "?hs' ! Suc i \<noteq> ?hs ! Suc i" using fnv_chain.links_changed [of i ?ps q 0] i q by simp
  have bl: "map r_prev ?rs = butlast ?hs' \<longleftrightarrow> (\<forall>k < length (records j). ?hs ! k = ?hs' ! k)"
    using len by (auto simp: pv list_eq_iff_nth_eq nth_butlast hs nth_append)
  show ?thesis
  proof (cases "Suc i = length (records j)")
    case True
    then have "\<forall>k < length (records j). ?hs ! k = ?hs' ! k"
      using i fnv_chain.links_unchanged [of _ i ?ps 0 q] by auto
    with bl have "map r_prev ?rs = butlast ?hs'" by blast
    moreover have "?hs' \<noteq> []" using len by auto
    then have "last ?hs' \<noteq> head j"
      using ch True len hs by (simp add: last_conv_nth nth_append)
    ultimately show ?thesis
      using True by (simp add: verify_chain_def walk_chain_eq Let_def pv(1)) (simp add: tamper_def)
  next
    case False
    with i have "Suc i < length (records j)" by simp
    with ch bl have "map r_prev ?rs \<noteq> butlast ?hs'" by metis
    with False show ?thesis by (simp add: verify_chain_def walk_chain_eq Let_def pv(1))
  qed
qed

text \<open>The chain covers the payloads only: kinds and sequence numbers can be rewritten freely.\<close>

definition relabel :: "(jrecord \<Rightarrow> u8) \<Rightarrow> (jrecord \<Rightarrow> u64) \<Rightarrow> journal \<Rightarrow> journal" where
  "relabel k q j = j\<lparr>records := map (\<lambda>r. r\<lparr>r_kind := k r, r_seq := q r\<rparr>) (records j)\<rparr>"

lemma relabel_verifies: "verify_chain (relabel k q j) = verify_chain j"
proof -
  have "walk_chain h (map (\<lambda>r. r\<lparr>r_kind := k r, r_seq := q r\<rparr>) rs) = walk_chain h rs" for h rs
    by (induction rs arbitrary: h) simp_all
  then show ?thesis by (simp add: verify_chain_def relabel_def)
qed

lemma journal_fits_relabel [simp]: "journal_fits (relabel k q j) = journal_fits j"
  by (simp add: journal_fits_def relabel_def)

end
