(* ===== verification/CV_Replay.thy ===== *)
theory CV_Replay
  imports CV_Journal CV_Trap
begin

text \<open>
  Replay, \<open>src/src/replay.rs\<close>: the recorder that captures a live host's answers into a journal,
  and the host that serves them back. What comes back of each kind of answer is \<open>replayed\<close>.
\<close>

record recorder =
  rec_journal :: journal

definition recorder_new :: recorder where
  "recorder_new = \<lparr>rec_journal = journal_new\<rparr>"

definition record_payload :: "trap \<Rightarrow> answer \<Rightarrow> bytes" where
  "record_payload t a = (case (t, a) of
     (TrapOracle _, AnsValue v) \<Rightarrow> value_write v []
   | (TrapEffect _ _ _, AnsValue v) \<Rightarrow> value_write v []
   | _ \<Rightarrow> replicate 16 0)"

definition record_kind :: "trap \<Rightarrow> u8" where
  "record_kind t = (case t of TrapOracle _ \<Rightarrow> KIND_ORACLE | _ \<Rightarrow> KIND_EFFECT)"

definition recorder_record :: "trap \<Rightarrow> answer \<Rightarrow> (recorder, diag, unit) sm" where
  "recorder_record t a r =
     (case journal_append (record_kind t) (record_payload t a) (rec_journal r) of
        (Ok _, j) \<Rightarrow> (Ok (), r\<lparr>rec_journal := j\<rparr>)
      | (Err e, j) \<Rightarrow> (Err e, r\<lparr>rec_journal := j\<rparr>)
      | (Panic, j) \<Rightarrow> (Panic, r\<lparr>rec_journal := j\<rparr>))"

record host =
  h_journal :: journal
  h_cursor :: u64

definition from_journal :: "journal \<Rightarrow> host" where
  "from_journal j = \<lparr>h_journal = j, h_cursor = 0\<rparr>"

definition expected_kind :: "trap \<Rightarrow> u8" where
  "expected_kind t = (case t of
     TrapEffect _ _ _ \<Rightarrow> KIND_EFFECT | TrapYield \<Rightarrow> KIND_EFFECT | TrapOracle _ \<Rightarrow> KIND_ORACLE)"

text \<open>A payload shorter than a slot is padded with zeroes.\<close>

definition payload_value :: "bytes \<Rightarrow> val result" where
  "payload_value p =
     (if 16 \<le> length p then value_read p else value_read (p @ replicate (16 - length p) 0))"

definition host_answer :: "trap \<Rightarrow> (host, diag, answer) sm" where
  "host_answer t h =
     (case journal_answer (h_journal h) (h_cursor h) of
        None \<Rightarrow> (fail JournalExhausted, h)
      | Some r \<Rightarrow>
          let h' = h\<lparr>h_cursor := h_cursor h + 1\<rparr>
          in if r_kind r \<noteq> expected_kind t then (fail Diverged, h')
             else (rbind (payload_value (r_payload r)) (\<lambda>v. Ok (AnsValue v)), h'))"

definition host_remaining :: "host \<Rightarrow> nat" where
  "host_remaining h = journal_len (h_journal h) - unat (h_cursor h)"

section \<open>Recording and replaying a run\<close>

text \<open>The interactions of a run, recorded in order.\<close>

definition record_all :: "(trap \<times> answer) list \<Rightarrow> recorder \<Rightarrow> recorder" where
  "record_all xs r = foldl (\<lambda>r (t, a). snd (recorder_record t a r)) r xs"

text \<open>The answers a replay host gives to a list of traps, up to the first error.\<close>

fun answer_all :: "trap list \<Rightarrow> (host, diag, answer list) sm" where
  "answer_all [] = sret []"
| "answer_all (t # ts) = sbind (host_answer t) (\<lambda>a. sbind (answer_all ts) (\<lambda>as. sret (a # as)))"

text \<open>
  What the replay of one interaction gives back: the value, when the host answered an effect
  or an oracle with one; otherwise the void value.
\<close>

fun replayed :: "trap \<times> answer \<Rightarrow> answer" where
  "replayed (TrapOracle _, AnsValue v) = AnsValue v"
| "replayed (TrapEffect _ _ _, AnsValue v) = AnsValue v"
| "replayed _ = AnsValue VOID"

lemma kinds_differ: "KIND_EFFECT \<noteq> KIND_ORACLE"
  by (simp add: KIND_EFFECT_def KIND_ORACLE_def)

lemma expected_kind_record: "expected_kind t = record_kind t"
  by (cases t) (simp_all add: expected_kind_def record_kind_def)

lemma value_read_zeroes: "value_read (replicate 16 0) = Ok VOID"
  by (simp add: value_read_long nth_append VOID_def tag_from_byte_def u64_of_le_def numeral_eq_Suc)

lemma payload_value_slot: "payload_value (value_write v []) = Ok v"
  using length_slot_bytes [of v]
  by (simp add: payload_value_def slot_bytes_def [symmetric] SLOT_LEN_def)

lemma payload_value_record:
  "rbind (payload_value (record_payload t a)) (\<lambda>v. Ok (AnsValue v)) = Ok (replayed (t, a))"
proof -
  have "payload_value (replicate 16 0) = Ok VOID"
    using value_read_zeroes by (simp add: payload_value_def)
  then show ?thesis
    by (cases t; cases a) (simp_all add: record_payload_def payload_value_slot)
qed

lemma record_all_journal:
  "rec_journal (record_all xs r) =
     append_all (map (\<lambda>(t, a). (record_kind t, record_payload t a)) xs) (rec_journal r)"
proof (induction xs arbitrary: r)
  case (Cons x xs)
  obtain t a where "x = (t, a)" by fastforce
  moreover have "rec_journal (snd (recorder_record t a r)) =
      snd (journal_append (record_kind t) (record_payload t a) (rec_journal r))" for t a r
    by (simp add: recorder_record_def journal_append_def Let_def)
  ultimately show ?case
    using Cons by (simp add: record_all_def append_all_def)
qed (simp add: record_all_def append_all_def)

text \<open>The records of \<open>xs\<close> lie in \<open>j\<close> from position \<open>k\<close> on.\<close>

definition recorded :: "journal \<Rightarrow> nat \<Rightarrow> (trap \<times> answer) list \<Rightarrow> bool" where
  "recorded j k xs \<longleftrightarrow> (\<forall>i < length xs. \<exists>r. nth_get (records j) (k + i) = Some r \<and>
      r_kind r = record_kind (fst (xs ! i)) \<and> r_payload r = record_payload (fst (xs ! i)) (snd (xs ! i)))"

lemma recorded_Cons:
  assumes "recorded j k (x # xs)"
  shows "recorded j k [x]" and "recorded j (Suc k) xs"
  using assms unfolding recorded_def by fastforce+

lemma host_answer_recorded:
  assumes "recorded j k [(t, a)]" and "k < 2 ^ 64"
  shows "host_answer t \<lparr>h_journal = j, h_cursor = of_nat k\<rparr> =
     (Ok (replayed (t, a)), \<lparr>h_journal = j, h_cursor = of_nat (Suc k)\<rparr>)"
proof -
  from assms(1) obtain r where r: "nth_get (records j) k = Some r"
    "r_kind r = record_kind t" "r_payload r = record_payload t a" by (auto simp: recorded_def)
  from assms(2) have "unat (of_nat k :: u64) = k" by (simp add: unat_of_nat)
  with r payload_value_record [of t a] show ?thesis
    by (simp add: host_answer_def journal_answer_def expected_kind_record Let_def add.commute)
qed

lemma answer_all_from:
  assumes "recorded j k xs" and "k + length xs < 2 ^ 64"
  shows "answer_all (map fst xs) \<lparr>h_journal = j, h_cursor = of_nat k\<rparr> =
     (Ok (map replayed xs), \<lparr>h_journal = j, h_cursor = of_nat (k + length xs)\<rparr>)"
  using assms
proof (induction xs arbitrary: k)
  case (Cons x xs)
  obtain t a where x: "x = (t, a)" by fastforce
  note r = recorded_Cons [OF Cons.prems(1)]
  have "host_answer t \<lparr>h_journal = j, h_cursor = of_nat k\<rparr> =
      (Ok (replayed x), \<lparr>h_journal = j, h_cursor = of_nat (Suc k)\<rparr>)"
    using host_answer_recorded r(1) Cons.prems(2) unfolding x by simp
  with Cons.IH [OF r(2)] Cons.prems(2) show ?case by (simp add: x sbind_def sret_def)
qed (simp add: sret_def)

lemma record_all_recorded:
  fixes xs :: "(trap \<times> answer) list"
  defines "j \<equiv> rec_journal (record_all xs recorder_new)"
  shows "recorded j 0 xs" and "length (records j) = length xs"
proof -
  let ?ys = "map (\<lambda>(t, a). (record_kind t, record_payload t a)) xs"
  have eq: "map (\<lambda>r. (r_kind r, r_payload r)) (records j) = ?ys"
    using append_all_contents [of ?ys] by (simp add: j_def record_all_journal recorder_new_def)
  show len: "length (records j) = length xs" using arg_cong [OF eq, of length] by simp
  have "(r_kind (records j ! i), r_payload (records j ! i)) = ?ys ! i" if "i < length xs" for i
    using arg_cong [OF eq, of "\<lambda>ys. ys ! i"] len that by simp
  with len show "recorded j 0 xs" by (force simp: recorded_def nth_get_def split: prod.splits)
qed

lemma replay_run:
  assumes "length xs < 2 ^ 64"
  shows "answer_all (map fst xs) (from_journal (rec_journal (record_all xs recorder_new))) =
     (Ok (map replayed xs),
      \<lparr>h_journal = rec_journal (record_all xs recorder_new), h_cursor = of_nat (length xs)\<rparr>)"
  using answer_all_from [OF record_all_recorded(1)] assms by (simp add: from_journal_def)

end
