(* ===== verification/CV_Session.thy ===== *)
theory CV_Session
  imports CV_Driver CV_Replay
begin

text \<open>
  A whole run between the machine and its host, the loop that the documentation of
  \<open>src/src/lib.rs\<close> shows: \<open>Vm::step\<close> runs to the next trap, the host performs it, and its answer goes
  into the next step. With a host that records (\<open>Recorder\<close> of \<open>src/src/replay.rs\<close>) and then with one
  that replays (\<open>Host\<close>), the machine does the same.
\<close>

section \<open>The loop\<close>

partial_function (option) session ::
    "(trap \<Rightarrow> ('h, diag, answer) sm) \<Rightarrow> 'h \<Rightarrow> answer option \<Rightarrow> vm \<Rightarrow> (i64 result \<times> 'h \<times> vm) option" where
  "session ask h a s = (case vm_step a s of
     None \<Rightarrow> None
   | Some (Ok (Halted c), t) \<Rightarrow> Some (Ok c, h, t)
   | Some (Ok (StepTrap tr), t) \<Rightarrow> (case ask tr h of
       (Ok b, h') \<Rightarrow> session ask h' (Some b) t
     | (Err e, h') \<Rightarrow> Some (Err e, h', t)
     | (Panic, h') \<Rightarrow> Some (Panic, h', t))
   | Some (Err e, t) \<Rightarrow> Some (Err e, h, t)
   | Some (Panic, t) \<Rightarrow> Some (Panic, h, t))"

text \<open>A host whose answers are captured before they are given.\<close>

definition recording :: "(trap \<Rightarrow> ('l, diag, answer) sm) \<Rightarrow> trap \<Rightarrow> ('l \<times> recorder, diag, answer) sm" where
  "recording live tr h = (case h of (l, r) \<Rightarrow> (case live tr l of
     (Ok b, l') \<Rightarrow> (case recorder_record tr b r of
         (Ok _, r') \<Rightarrow> (Ok b, (l', r'))
       | (Err e, r') \<Rightarrow> (Err e, (l', r'))
       | (Panic, r') \<Rightarrow> (Panic, (l', r')))
   | (Err e, l') \<Rightarrow> (Err e, (l', r))
   | (Panic, l') \<Rightarrow> (Panic, (l', r))))"

text \<open>A host that always answers, with answers the journal can give back: values to effects and
  oracles, the void value to a yield.\<close>

definition recordable :: "(trap \<Rightarrow> ('l, diag, answer) sm) \<Rightarrow> bool" where
  "recordable live \<longleftrightarrow> (\<forall>tr l. \<exists>b l'. live tr l = (Ok b, l') \<and> replayed (tr, b) = b)"

lemma recording_answers:
  assumes "recordable live"
  shows "\<exists>b l'. recording live tr (l, r) = (Ok b, (l', snd (recorder_record tr b r))) \<and> replayed (tr, b) = b"
proof -
  from assms obtain b l' where b: "live tr l = (Ok b, l')" "replayed (tr, b) = b" unfolding recordable_def by blast
  moreover have "fst (recorder_record tr b r) = Ok ()" by (simp add: recorder_record_def journal_append_def Let_def)
  ultimately show ?thesis by (cases "recorder_record tr b r") (auto simp: recording_def)
qed

section \<open>It ends\<close>

text \<open>A trap costs at least one step.\<close>

lemma step_counts:
  assumes "vm_step a s = Some (Ok (StepTrap tr), t)" and "halt_wf s" and "pending s = None"
    and "unat (steps s) \<le> unat (max_steps (limits s))" and "max_steps (limits s) < 0xFFFFFFFFFFFFFFFF"
  shows "pending t = None \<and> halt_wf t \<and> limits t = limits s \<and> unat (steps s) < unat (steps t) \<and>
     unat (steps t) \<le> unat (max_steps (limits s))"
proof -
  have "\<exists>u. run_loop u = Some (Ok (StepTrap tr), t) \<and> halt_wf u \<and> pending u = None \<and> limits u = limits s \<and> steps u = steps s"
  proof (cases a)
    case None
    with assms(1-3) show ?thesis by (auto simp: vm_step_def)
  next
    case (Some b)
    have "vm_step (Some (AnsValue (into_value b))) s = Some (Ok (StepTrap tr), t)"
      using assms(1) Some by (cases b) (auto simp: vm_step_def)
    from answered_step [OF this assms(2,3) refl] show ?thesis .
  qed
  then obtain u where u: "run_loop u = Some (Ok (StepTrap tr), t)" "halt_wf u" "pending u = None" "limits u = limits s"
    "steps u = steps s" by blast
  from run_loop_halts [OF u(1,2)] u(3-5) assms(4,5) show ?thesis by simp
qed

lemma vm_step_returns:
  assumes "max_steps (limits s) < 0xFFFFFFFFFFFFFFFF"
  shows "\<exists>r t. vm_step a s = Some (r, t)"
proof (cases a)
  case None
  then show ?thesis using run_loop_returns [OF assms] by (fastforce simp: vm_step_def)
next
  case (Some b)
  obtain q u where p: "on_frame (push (into_value b)) s = (q, u)" by fastforce
  have "\<exists>y. run_loop u = Some y" using run_loop_returns push_answer(3) [OF p] assms by simp
  with Some p show ?thesis by (cases b; cases q) (auto simp: vm_step_def)
qed

lemma session_returns_from:
  assumes "recordable live" and "halt_wf s" and "pending s = None" and "unat (steps s) \<le> unat (max_steps (limits s))"
    and "max_steps (limits s) < 0xFFFFFFFFFFFFFFFF"
  shows "\<exists>x l' r' t. session (recording live) (l, r) a s = Some (x, (l', r'), t) \<and>
     length (records (rec_journal r')) + unat (steps s) \<le> length (records (rec_journal r)) + unat (max_steps (limits s))"
  using assms(2-)
proof (induction "unat (max_steps (limits s)) - unat (steps s)" arbitrary: s l r a rule: less_induct)
  case less
  from vm_step_returns [OF less.prems(4)] obtain q t where q: "vm_step a s = Some (q, t)" by blast
  show ?case
  proof (cases "\<exists>tr. q = Ok (StepTrap tr)")
    case False
    with q less.prems(3) show ?thesis by (subst session.simps) (auto split: res.split step.split)
  next
    case True
    then obtain tr where tr: "q = Ok (StepTrap tr)" by blast
    note t = step_counts [OF q [unfolded tr] less.prems]
    from recording_answers [OF assms(1), of tr l r] obtain b l' where
      b: "recording live tr (l, r) = (Ok b, (l', snd (recorder_record tr b r)))" by blast
    have "\<exists>x l'' r' u. session (recording live) (l', snd (recorder_record tr b r)) (Some b) t = Some (x, (l'', r'), u) \<and>
        length (records (rec_journal r')) + unat (steps t) \<le>
          length (records (rec_journal (snd (recorder_record tr b r)))) + unat (max_steps (limits t))"
      using t less.prems by (intro less.hyps) auto
    then obtain x l'' r' u where u: "session (recording live) (l', snd (recorder_record tr b r)) (Some b) t = Some (x, (l'', r'), u)"
      "length (records (rec_journal r')) + unat (steps t) \<le>
        length (records (rec_journal (snd (recorder_record tr b r)))) + unat (max_steps (limits t))" by blast
    have "length (records (rec_journal (snd (recorder_record tr b r)))) = Suc (length (records (rec_journal r)))"
      by (simp add: recorder_record_def journal_append_def Let_def)
    with u t have "length (records (rec_journal r')) + unat (steps s) \<le> length (records (rec_journal r)) + unat (max_steps (limits s))"
      by simp
    moreover have "session (recording live) (l, r) a s = Some (x, (l'', r'), u)"
      using q tr b u(1) by (subst session.simps) simp
    ultimately show ?thesis by blast
  qed
qed

section \<open>The replay\<close>

text \<open>What was recorded, and that a host that finds it in its journal leads the machine the same
  way.\<close>

lemma session_replays:
  assumes "session ask h a s = Some y"
  shows "ask = recording live \<longrightarrow> recordable live \<longrightarrow>
     (\<exists>xs. snd (fst (snd y)) = record_all xs (snd h) \<and> (\<forall>j k. recorded j k xs \<and> k + length xs < 2 ^ 64 \<longrightarrow>
        session host_answer \<lparr>h_journal = j, h_cursor = of_nat k\<rparr> a s =
          Some (fst y, \<lparr>h_journal = j, h_cursor = of_nat (k + length xs)\<rparr>, snd (snd y))))"
proof (rule session.raw_induct [OF _ assms])
  fix f ask h a s and y :: "i64 result \<times> ('a \<times> recorder) \<times> vm"
  assume IH: "\<And>ask h a s y. f ask h a s = Some y \<Longrightarrow> ask = recording live \<longrightarrow> recordable live \<longrightarrow>
      (\<exists>xs. snd (fst (snd y)) = record_all xs (snd h) \<and> (\<forall>j k. recorded j k xs \<and> k + length xs < 2 ^ 64 \<longrightarrow>
        session host_answer \<lparr>h_journal = j, h_cursor = of_nat k\<rparr> a s =
          Some (fst y, \<lparr>h_journal = j, h_cursor = of_nat (k + length xs)\<rparr>, snd (snd y))))"
    and run: "(case vm_step a s of
        None \<Rightarrow> None
      | Some (Ok (Halted c), t) \<Rightarrow> Some (Ok c, h, t)
      | Some (Ok (StepTrap tr), t) \<Rightarrow> (case ask tr h of
          (Ok b, h') \<Rightarrow> f ask h' (Some b) t | (Err e, h') \<Rightarrow> Some (Err e, h', t) | (Panic, h') \<Rightarrow> Some (Panic, h', t))
      | Some (Err e, t) \<Rightarrow> Some (Err e, h, t) | Some (Panic, t) \<Rightarrow> Some (Panic, h, t)) = Some y"
  show "ask = recording live \<longrightarrow> recordable live \<longrightarrow>
      (\<exists>xs. snd (fst (snd y)) = record_all xs (snd h) \<and> (\<forall>j k. recorded j k xs \<and> k + length xs < 2 ^ 64 \<longrightarrow>
        session host_answer \<lparr>h_journal = j, h_cursor = of_nat k\<rparr> a s =
          Some (fst y, \<lparr>h_journal = j, h_cursor = of_nat (k + length xs)\<rparr>, snd (snd y))))"
  proof (intro impI)
    assume ask: "ask = recording live" and live: "recordable live"
    from run obtain q t where q: "vm_step a s = Some (q, t)" by (cases "vm_step a s") auto
    show "\<exists>xs. snd (fst (snd y)) = record_all xs (snd h) \<and> (\<forall>j k. recorded j k xs \<and> k + length xs < 2 ^ 64 \<longrightarrow>
        session host_answer \<lparr>h_journal = j, h_cursor = of_nat k\<rparr> a s =
          Some (fst y, \<lparr>h_journal = j, h_cursor = of_nat (k + length xs)\<rparr>, snd (snd y)))"
    proof (cases "\<exists>tr. q = Ok (StepTrap tr)")
      case False
      then have "fst (snd y) = h" using run q by (auto split: res.splits step.splits)
      moreover have "session host_answer g a s = Some (fst y, g, snd (snd y))" for g
        using False run q by (subst session.simps) (auto split: res.splits step.splits)
      ultimately show ?thesis by (intro exI [of _ "[]"]) (simp add: record_all_def)
    next
      case True
      then obtain tr where tr: "q = Ok (StepTrap tr)" by blast
      from recording_answers [OF live, of tr "fst h" "snd h"] obtain b l' where
        b: "recording live tr h = (Ok b, (l', snd (recorder_record tr b (snd h))))" "replayed (tr, b) = b" by auto
      with run q tr ask have "f ask (l', snd (recorder_record tr b (snd h))) (Some b) t = Some y" by simp
      from IH [OF this] ask live obtain xs where
        xs: "snd (fst (snd y)) = record_all xs (snd (recorder_record tr b (snd h)))"
        and rest: "\<And>j k. recorded j k xs \<Longrightarrow> k + length xs < 2 ^ 64 \<Longrightarrow>
          session host_answer \<lparr>h_journal = j, h_cursor = of_nat k\<rparr> (Some b) t =
            Some (fst y, \<lparr>h_journal = j, h_cursor = of_nat (k + length xs)\<rparr>, snd (snd y))" by auto
      have "session host_answer \<lparr>h_journal = j, h_cursor = of_nat k\<rparr> a s =
          Some (fst y, \<lparr>h_journal = j, h_cursor = of_nat (k + length ((tr, b) # xs))\<rparr>, snd (snd y))"
        if r: "recorded j k ((tr, b) # xs)" "k + length ((tr, b) # xs) < 2 ^ 64" for j k
      proof -
        have "host_answer tr \<lparr>h_journal = j, h_cursor = of_nat k\<rparr> = (Ok b, \<lparr>h_journal = j, h_cursor = of_nat (Suc k)\<rparr>)"
          using host_answer_recorded [OF recorded_Cons(1) [OF r(1)]] r(2) b(2) by simp
        with rest [OF recorded_Cons(2) [OF r(1)]] r(2) q tr show ?thesis by (subst session.simps) simp
      qed
      with xs show ?thesis by (intro exI [of _ "(tr, b) # xs"]) (auto simp: record_all_def)
    qed
  qed
qed

theorem recorded_session_replays:
  assumes "vm_new im lim = Ok s" and "max_steps lim < 0xFFFFFFFFFFFFFFFF" and "recordable live"
  shows "\<exists>x l' r t h. session (recording live) (l, recorder_new) None s = Some (x, (l', r), t) \<and>
     session host_answer (from_journal (rec_journal r)) None s = Some (x, h, t) \<and> host_remaining h = 0"
proof -
  have "pending s = None" using assms(1) by (auto simp: vm_new_def Let_def split: option.splits)
  with session_returns_from [OF assms(3), of s l recorder_new None] vm_new_halt_wf [OF assms(1)] assms(2)
  obtain x l' r t where run: "session (recording live) (l, recorder_new) None s = Some (x, (l', r), t)"
    and len: "length (records (rec_journal r)) \<le> unat (max_steps lim)"
    by (auto simp: recorder_new_def journal_new_def)
  from session_replays [OF run, of live] assms(3) obtain xs where xs: "r = record_all xs recorder_new"
    and rest: "\<And>j k. recorded j k xs \<Longrightarrow> k + length xs < 2 ^ 64 \<Longrightarrow>
      session host_answer \<lparr>h_journal = j, h_cursor = of_nat k\<rparr> None s =
        Some (x, \<lparr>h_journal = j, h_cursor = of_nat (k + length xs)\<rparr>, t)" by auto
  note rec = record_all_recorded [of xs, folded xs]
  have "length xs < 2 ^ 64" using len rec(2) unat_bound [of "max_steps lim"] by simp
  moreover from this have "unat (of_nat (length xs) :: u64) = length xs" by (simp add: unat_of_nat)
  ultimately show ?thesis using run rest [OF rec(1)] rec(2)
    by (auto simp: from_journal_def host_remaining_def journal_len_def)
qed

end
