(* ===== verification/CV_Cont.thy ===== *)
theory CV_Cont
  imports CV_Run CV_Reader
begin

text \<open>
  Continuations, \<open>src/src/cont.rs\<close>: the snapshot of a machine is its arena and its frames;
  \<open>restore\<close> reads them back into a machine, checking magic, version, tags, handles and stack
  pointers on the way. The cursor is an instance of the \<open>reader\<close> contract.
\<close>

definition SNAP_MAGIC :: bytes where
  "SNAP_MAGIC = [0x43, 0x53, 0x4E, 0x50]"

definition SNAP_VERSION :: u16 where
  "SNAP_VERSION = 1"

definition frame_bytes :: "frame \<Rightarrow> bytes" where
  "frame_bytes f =
     u32_le (func f) @ u32_le (pc f) @ u32_le (of_nat (length (slots f)))
       @ foldl (\<lambda>out v. value_write v out) [] (slots f)
       @ u32_le (of_nat (sp f)) @ u16_le (maxstack f) @ [returns f]"

text \<open>What \<open>Vm\<close> of \<open>src/src/interp.rs\<close> offers for it.\<close>

definition arena_bytes :: "vm \<Rightarrow> bytes" where [simp]:
  "arena_bytes s = a_data (arena s)"

definition restore_arena :: "bytes \<Rightarrow> vm \<Rightarrow> vm" where [simp]:
  "restore_arena bs s = s\<lparr>arena := arena_from_bytes bs\<rparr>"

definition frames_snapshot :: "vm \<Rightarrow> frame list" where [simp]:
  "frames_snapshot s = frames s"

definition restore_frames :: "frame list \<Rightarrow> vm \<Rightarrow> vm" where [simp]:
  "restore_frames fs s = s\<lparr>frames := fs\<rparr>"

definition snapshot :: "vm \<Rightarrow> bytes result" where
  "snapshot s = Ok (
     SNAP_MAGIC @ u16_le SNAP_VERSION
       @ u32_le (of_nat (length (arena_bytes s))) @ arena_bytes s
       @ u32_le (of_nat (length (frames_snapshot s))) @ concat (map frame_bytes (frames_snapshot s)))"

section \<open>The cursor\<close>

record scursor =
  s_data :: bytes
  s_pos :: nat

definition stake :: "nat \<Rightarrow> (scursor, diag, bytes) sm" where
  "stake n c =
     (let e = s_pos c + n
      in if length (s_data c) < e then (fail SnapshotCorrupt, c)
         else (Ok (take (e - s_pos c) (drop (s_pos c) (s_data c))), c\<lparr>s_pos := e\<rparr>))"

definition scursor_new :: "bytes \<Rightarrow> scursor" where
  "scursor_new data = \<lparr>s_data = data, s_pos = 0\<rparr>"

definition s_rest :: "scursor \<Rightarrow> bytes" where
  "s_rest c = drop (s_pos c) (s_data c)"

definition s_live :: "scursor \<Rightarrow> bool" where
  "s_live c \<longleftrightarrow> s_pos c \<le> length (s_data c)"

interpretation snap_cursor: reader stake s_rest s_live SnapshotCorrupt
  by unfold_locales (auto simp: stake_def s_rest_def s_live_def Let_def add.commute)

section \<open>Reading a snapshot\<close>

definition read_slot :: "nat \<Rightarrow> (scursor, diag, val) sm" where
  "read_slot alen = sbind (stake 16) (\<lambda>raw. sbind (slift (value_read raw)) (\<lambda>v.
     if v_tag v = TagPending then slift (fail LivePending)
     else if is_arena (v_tag v) then sbind (slift (as_handle v)) (\<lambda>h.
       if alen < unat (handle_end h) then slift (fail BadHandle) else sret v)
     else sret v))"

definition read_frame :: "nat \<Rightarrow> (scursor, diag, frame) sm" where
  "read_frame alen =
     sbind (rd_u32 stake) (\<lambda>fn. sbind (rd_u32 stake) (\<lambda>p. sbind (rd_u32 stake) (\<lambda>n_slots.
     sbind (smany (unat n_slots) (read_slot alen)) (\<lambda>sl.
     sbind (rd_u32 stake) (\<lambda>stp. sbind (rd_u16 stake) (\<lambda>mx. sbind (rd_u8 stake) (\<lambda>rets.
     if length sl < unat stp then slift (fail SnapshotCorrupt)
     else sret \<lparr>func = fn, pc = p, slots = sl, sp = unat stp, maxstack = mx, returns = rets\<rparr>)))))))"

definition read_arena_part :: "(scursor, diag, bytes) sm" where
  "read_arena_part =
     sbind (stake 4) (\<lambda>magic. sbind (slift (if magic \<noteq> SNAP_MAGIC then fail SnapshotCorrupt else Ok ())) (\<lambda>_.
     sbind (rd_u16 stake) (\<lambda>version.
     sbind (slift (if version \<noteq> SNAP_VERSION then fail SnapshotVersion else Ok ())) (\<lambda>_.
     sbind (rd_u32 stake) (\<lambda>alen. stake (unat alen))))))"

definition read_frames_part :: "nat \<Rightarrow> (scursor, diag, frame list) sm" where
  "read_frames_part alen =
     sbind (rd_u32 stake) (\<lambda>n_frames. smany (unat n_frames) (read_frame alen))"

text \<open>\<open>restore_arena\<close> runs before the frames are read, \<open>restore_frames\<close> at the end.\<close>

definition restore :: "bytes \<Rightarrow> (vm, diag, unit) sm" where
  "restore bs s = (case read_arena_part (scursor_new bs) of
     (Ok a, c) \<Rightarrow>
       (let s1 = restore_arena a s
        in case read_frames_part (length a) c of
             (Ok fs, _) \<Rightarrow> (Ok (), restore_frames fs s1)
           | (Err e, _) \<Rightarrow> (Err e, s1)
           | (Panic, _) \<Rightarrow> (Panic, s1))
   | (Err e, _) \<Rightarrow> (Err e, s)
   | (Panic, _) \<Rightarrow> (Panic, s))"

section \<open>What can be snapshotted\<close>

text \<open>A slot that \<open>restore\<close> accepts over an arena of \<open>n\<close> bytes.\<close>

definition slot_ok :: "nat \<Rightarrow> val \<Rightarrow> bool" where
  "slot_ok n v \<longleftrightarrow> v_tag v \<noteq> TagPending \<and>
     (is_arena (v_tag v) \<longrightarrow> unat (handle_end (handle_unchecked v)) \<le> n)"

definition snap_frame_ok :: "nat \<Rightarrow> frame \<Rightarrow> bool" where
  "snap_frame_ok n f \<longleftrightarrow> sp f \<le> length (slots f) \<and> length (slots f) \<le> u32_max \<and> list_all (slot_ok n) (slots f)"

definition snapshottable :: "vm \<Rightarrow> bool" where
  "snapshottable s \<longleftrightarrow> arena_len (arena s) \<le> u32_max \<and> length (frames s) \<le> u32_max \<and>
     list_all (snap_frame_ok (arena_len (arena s))) (frames s)"

lemma unat_of_small: "n \<le> u32_max \<Longrightarrow> unat (of_nat n :: u32) = n"
  by (simp add: unat_of_nat u32_max_def)

lemma reads_slot: "slot_ok n v \<Longrightarrow> snap_cursor.reads (read_slot n) (slot_bytes v) v"
proof -
  assume ok: "slot_ok n v"
  have h: "as_handle v = Ok (handle_unchecked v)" if "is_arena (v_tag v)"
    using that by (simp add: as_handle_def handle_unchecked_def)
  have check: "(if v_tag v = TagPending then slift (fail LivePending)
     else if is_arena (v_tag v) then sbind (slift (as_handle v)) (\<lambda>h.
       if n < unat (handle_end h) then slift (fail BadHandle) else sret v)
     else sret v) = (sret v :: (scursor, diag, val) sm)"
    using ok h by (auto simp: slot_ok_def fun_eq_iff sbind_def slift_def)
  have "snap_cursor.reads (sbind (stake 16) (\<lambda>raw. sbind (slift (value_read raw)) (\<lambda>v.
     if v_tag v = TagPending then slift (fail LivePending)
     else if is_arena (v_tag v) then sbind (slift (as_handle v)) (\<lambda>h.
       if n < unat (handle_end h) then slift (fail BadHandle) else sret v)
     else sret v))) (slot_bytes v @ []) v"
    by (rule snap_cursor.reads_sbind [OF snap_cursor.reads_take], simp add: SLOT_LEN_def,
        rule snap_cursor.reads_slift, rule value_read_slot_bytes', simp only: check,
        rule snap_cursor.reads_sret)
  then show ?thesis by (simp add: read_slot_def)
qed

lemma reads_frame: "snap_frame_ok n f \<Longrightarrow> snap_cursor.reads (read_frame n) (frame_bytes f) f"
proof -
  assume ok: "snap_frame_ok n f"
  then have len: "unat (of_nat (length (slots f)) :: u32) = length (slots f)"
    and sp: "unat (of_nat (sp f) :: u32) = sp f" "sp f \<le> length (slots f)"
    by (auto simp: snap_frame_ok_def intro!: unat_of_small)
  have slots: "snap_cursor.reads (smany (unat (of_nat (length (slots f)) :: u32)) (read_slot n))
      (concat (map slot_bytes (slots f))) (slots f)"
    unfolding len using ok by (intro snap_cursor.reads_smany_map reads_slot) (auto simp: snap_frame_ok_def list_all_iff)
  have bytes: "frame_bytes f = u32_le (func f) @ u32_le (pc f) @ u32_le (of_nat (length (slots f)))
      @ concat (map slot_bytes (slots f)) @ u32_le (of_nat (sp f)) @ u16_le (maxstack f) @ [returns f] @ []"
    by (simp add: frame_bytes_def foldl_value_write)
  have eta: "\<lparr>func = func f, pc = pc f, slots = slots f, sp = sp f, maxstack = maxstack f,
      returns = returns f\<rparr> = f" by simp
  show ?thesis
    unfolding read_frame_def bytes
    apply (rule snap_cursor.reads_sbind [OF snap_cursor.reads_u32])
    apply (rule snap_cursor.reads_sbind [OF snap_cursor.reads_u32])
    apply (rule snap_cursor.reads_sbind [OF snap_cursor.reads_u32])
    apply (rule snap_cursor.reads_sbind [OF slots])
    apply (rule snap_cursor.reads_sbind [OF snap_cursor.reads_u32])
    apply (rule snap_cursor.reads_sbind [OF snap_cursor.reads_u16])
    apply (rule snap_cursor.reads_sbind [OF snap_cursor.reads_u8])
    using sp snap_cursor.reads_sret [of f] by (simp add: eta)
qed

lemma reads_arena_part:
  assumes "length a \<le> u32_max"
  shows "snap_cursor.reads read_arena_part
    (SNAP_MAGIC @ u16_le SNAP_VERSION @ u32_le (of_nat (length a)) @ a) a"
  unfolding read_arena_part_def
  apply (rule snap_cursor.reads_sbind [OF snap_cursor.reads_take])
   apply (simp add: SNAP_MAGIC_def)
  apply (rule snap_cursor.reads_slift [where x = "()"], simp)
  apply (rule snap_cursor.reads_sbind [OF snap_cursor.reads_u16])
  apply (rule snap_cursor.reads_slift [where x = "()"], simp)
  apply (rule snap_cursor.reads_sbind [OF snap_cursor.reads_u32])
  apply (rule snap_cursor.reads_take)
  using assms by (simp add: unat_of_small)

lemma reads_frames_part:
  assumes "length fs \<le> u32_max" and "list_all (snap_frame_ok n) fs"
  shows "snap_cursor.reads (read_frames_part n) (u32_le (of_nat (length fs)) @ concat (map frame_bytes fs)) fs"
proof -
  have "snap_cursor.reads (smany (length fs) (read_frame n)) (concat (map frame_bytes fs)) fs"
    using assms(2) by (intro snap_cursor.reads_smany_map reads_frame) (auto simp: list_all_iff)
  then show ?thesis
    unfolding read_frames_part_def
    by (intro snap_cursor.reads_sbind [OF snap_cursor.reads_u32]) (simp add: unat_of_small assms(1))
qed

section \<open>Round trip, truncation, and what restore establishes\<close>

lemma snapshot_parts:
  "\<exists>hd fb. snapshot s = Ok (hd @ fb) \<and>
     hd = SNAP_MAGIC @ u16_le SNAP_VERSION @ u32_le (of_nat (arena_len (arena s))) @ a_data (arena s) \<and>
     fb = u32_le (of_nat (length (frames s))) @ concat (map frame_bytes (frames s))"
  by (simp add: snapshot_def arena_len_def)

lemma reads_snapshot:
  assumes "snapshottable s"
  shows "snap_cursor.reads read_arena_part
      (SNAP_MAGIC @ u16_le SNAP_VERSION @ u32_le (of_nat (arena_len (arena s))) @ a_data (arena s))
      (a_data (arena s))"
    and "snap_cursor.reads (read_frames_part (length (a_data (arena s))))
      (u32_le (of_nat (length (frames s))) @ concat (map frame_bytes (frames s))) (frames s)"
  using reads_arena_part [of "a_data (arena s)"] reads_frames_part [of "frames s"] assms
  by (simp_all add: snapshottable_def arena_len_def)

lemma restore_snapshot:
  assumes "snapshottable s"
  shows "\<exists>bs. snapshot s = Ok bs \<and> restore (bs @ r) t = (Ok (), t\<lparr>arena := arena s, frames := frames s\<rparr>)"
proof -
  obtain hd fb where sn: "snapshot s = Ok (hd @ fb)"
    and hd: "hd = SNAP_MAGIC @ u16_le SNAP_VERSION @ u32_le (of_nat (arena_len (arena s))) @ a_data (arena s)"
    and fb: "fb = u32_le (of_nat (length (frames s))) @ concat (map frame_bytes (frames s))"
    using snapshot_parts by blast
  note rd = reads_snapshot [OF assms, folded hd fb]
  have "s_live (scursor_new ((hd @ fb) @ r))" "s_rest (scursor_new ((hd @ fb) @ r)) = hd @ (fb @ r)"
    by (simp_all add: s_live_def s_rest_def scursor_new_def)
  from parsesD [OF conjunct1 [OF rd(1)] this] obtain c1
    where c1: "read_arena_part (scursor_new ((hd @ fb) @ r)) = (Ok (a_data (arena s)), c1)"
      "s_live c1" "s_rest c1 = fb @ r" by blast
  from parsesD [OF conjunct1 [OF rd(2)] c1(2,3)] obtain c2
    where "read_frames_part (length (a_data (arena s))) c1 = (Ok (frames s), c2)" by blast
  moreover have "arena_from_bytes (a_data (arena s)) = arena s" by (simp add: arena_from_bytes_def)
  ultimately have "restore ((hd @ fb) @ r) t = (Ok (), t\<lparr>arena := arena s, frames := frames s\<rparr>)"
    using c1(1) by (simp add: restore_def)
  with sn show ?thesis by blast
qed

lemma append_cut: "bs @ s = xs @ ys \<Longrightarrow> s \<noteq> [] \<Longrightarrow>
    (\<exists>t. t \<noteq> [] \<and> bs @ t = xs) \<or> (\<exists>r. bs = xs @ r \<and> r @ s = ys)"
  by (auto simp: append_eq_append_conv2)

text \<open>
  A cut snapshot is refused. Where the cut falls after the arena the machine's arena is
  replaced all the same.
\<close>

lemma restore_cut:
  assumes "snapshottable s" and "snapshot s = Ok (bs @ rest)" and "rest \<noteq> []"
  shows "restore bs t = (fail SnapshotCorrupt,
     if 10 + arena_len (arena s) \<le> length bs then t\<lparr>arena := arena s\<rparr> else t)"
proof -
  obtain hd fb where sn: "snapshot s = Ok (hd @ fb)"
    and hd: "hd = SNAP_MAGIC @ u16_le SNAP_VERSION @ u32_le (of_nat (arena_len (arena s))) @ a_data (arena s)"
    and fb: "fb = u32_le (of_nat (length (frames s))) @ concat (map frame_bytes (frames s))"
    using snapshot_parts by blast
  note rd = reads_snapshot [OF assms(1), folded hd fb]
  have len: "length hd = 10 + arena_len (arena s)"
    by (simp add: hd SNAP_MAGIC_def arena_len_def)
  have new: "s_live (scursor_new bs)" "s_rest (scursor_new bs) = bs"
    by (simp_all add: s_live_def s_rest_def scursor_new_def)
  have "bs @ rest = hd @ fb" using sn assms(2) by simp
  from append_cut [OF this assms(3)] show ?thesis
  proof (elim disjE exE conjE)
    fix u assume u: "u \<noteq> []" "bs @ u = hd"
    with cutsD [OF conjunct2 [OF rd(1)] new(1), of u] new(2)
    have "fst (read_arena_part (scursor_new bs)) = fail SnapshotCorrupt" by simp
    moreover have "length bs < 10 + arena_len (arena s)"
      using arg_cong [OF u(2), of length] u(1) len by (cases u) auto
    ultimately show ?thesis
      by (cases "read_arena_part (scursor_new bs)") (simp add: restore_def fail_def)
  next
    fix r assume r: "bs = hd @ r" "r @ rest = fb"
    with parsesD [OF conjunct1 [OF rd(1)] new(1), of r] new(2) obtain c1
      where c1: "read_arena_part (scursor_new bs) = (Ok (a_data (arena s)), c1)" "s_live c1" "s_rest c1 = r"
      by auto
    with cutsD [OF conjunct2 [OF rd(2)] c1(2), of rest] r(2) assms(3)
    have "fst (read_frames_part (length (a_data (arena s))) c1) = fail SnapshotCorrupt" by simp
    moreover have "10 + arena_len (arena s) \<le> length bs" using len r(1) by simp
    ultimately show ?thesis
      using c1(1) by (cases "read_frames_part (length (a_data (arena s))) c1")
        (simp add: restore_def arena_from_bytes_def fail_def)
  qed
qed

subsection \<open>Any snapshot of a machine whose lengths fit\<close>

text \<open>A snapshot is written for every machine. When slots hold a pending value (a popped one
  included), or a handle beyond the arena, it is refused as a whole. Nothing else is read out of it
  than what was written, whole or cut.\<close>

definition snap_fits :: "vm \<Rightarrow> bool" where
  "snap_fits s \<longleftrightarrow> arena_len (arena s) \<le> u32_max \<and> length (frames s) \<le> u32_max \<and>
     list_all (\<lambda>f. sp f \<le> length (slots f) \<and> length (slots f) \<le> u32_max) (frames s)"

lemma snapshottable_fits:
  "snapshottable s \<longleftrightarrow> snap_fits s \<and> list_all (\<lambda>f. list_all (slot_ok (arena_len (arena s))) (slots f)) (frames s)"
  by (auto simp: snapshottable_def snap_fits_def snap_frame_ok_def list_all_iff)

definition refusals :: "code set" where
  "refusals = {SnapshotCorrupt, LivePending, BadHandle}"

abbreviation trusts_snap :: "(scursor, diag, 'a) sm \<Rightarrow> bytes \<Rightarrow> 'a \<Rightarrow> bool" where
  "trusts_snap \<equiv> trusts s_rest s_live refusals"

lemma refusals_mem [simp]: "SnapshotCorrupt \<in> refusals" "LivePending \<in> refusals" "BadHandle \<in> refusals"
  by (simp_all add: refusals_def)

lemma trusts_slot: "trusts_snap (read_slot n) (slot_bytes v) v"
proof -
  have h: "as_handle v = Ok (handle_unchecked v)" if "is_arena (v_tag v)"
    using that by (simp add: as_handle_def handle_unchecked_def)
  have rest: "trusts_snap (if v_tag v = TagPending then slift (fail LivePending)
     else if is_arena (v_tag v) then sbind (slift (as_handle v)) (\<lambda>h.
       if n < unat (handle_end h) then slift (fail BadHandle) else sret v)
     else sret v) [] v"
    using h by (auto intro!: trusts_fail trusts_sret trusts_slift [OF refl])
  have "trusts_snap (sbind (stake 16) (\<lambda>raw. sbind (slift (value_read raw)) (\<lambda>v.
     if v_tag v = TagPending then slift (fail LivePending)
     else if is_arena (v_tag v) then sbind (slift (as_handle v)) (\<lambda>h.
       if n < unat (handle_end h) then slift (fail BadHandle) else sret v)
     else sret v))) (slot_bytes v @ []) v"
    by (rule trusts_sbind [OF snap_cursor.trusts_take], simp add: SLOT_LEN_def, simp,
        rule trusts_slift, rule value_read_slot_bytes', rule rest)
  then show ?thesis by (simp add: read_slot_def)
qed

lemma trusts_frame:
  assumes "sp f \<le> length (slots f)" and "length (slots f) \<le> u32_max"
  shows "trusts_snap (read_frame n) (frame_bytes f) f"
proof -
  have len: "unat (of_nat (length (slots f)) :: u32) = length (slots f)"
    and sp: "unat (of_nat (sp f) :: u32) = sp f"
    using assms by (auto intro!: unat_of_small)
  have slots: "trusts_snap (smany (unat (of_nat (length (slots f)) :: u32)) (read_slot n))
      (concat (map slot_bytes (slots f))) (slots f)"
    unfolding len by (intro trusts_smany_map trusts_slot)
  have bytes: "frame_bytes f = u32_le (func f) @ u32_le (pc f) @ u32_le (of_nat (length (slots f)))
      @ concat (map slot_bytes (slots f)) @ u32_le (of_nat (sp f)) @ u16_le (maxstack f) @ [returns f] @ []"
    by (simp add: frame_bytes_def foldl_value_write)
  have eta: "\<lparr>func = func f, pc = pc f, slots = slots f, sp = sp f, maxstack = maxstack f,
      returns = returns f\<rparr> = f" by simp
  note int = trusts_sbind [OF snap_cursor.trusts_u32]
  show ?thesis
    unfolding read_frame_def bytes
    apply (rule int, simp)+
    apply (rule trusts_sbind [OF slots])
    apply (rule int, simp)
    apply (rule trusts_sbind [OF snap_cursor.trusts_u16], simp)
    apply (rule trusts_sbind [OF snap_cursor.trusts_u8], simp)
    using sp assms(1) trusts_sret [where x = f] by (simp add: eta)
qed

lemma trusts_frames_part:
  assumes "length fs \<le> u32_max" and "list_all (\<lambda>f. sp f \<le> length (slots f) \<and> length (slots f) \<le> u32_max) fs"
  shows "trusts_snap (read_frames_part n) (u32_le (of_nat (length fs)) @ concat (map frame_bytes fs)) fs"
proof -
  have "trusts_snap (smany (length fs) (read_frame n)) (concat (map frame_bytes fs)) fs"
    using assms(2) by (intro trusts_smany_map trusts_frame) (auto simp: list_all_iff)
  then show ?thesis
    unfolding read_frames_part_def
    by (intro trusts_sbind [OF snap_cursor.trusts_u32]) (simp_all add: unat_of_small assms(1))
qed

lemma smany_all:
  assumes "\<And>c x c'. p c = (Ok x, c') \<Longrightarrow> P x" and "smany n p c = (Ok xs, c')"
  shows "list_all P xs \<and> length xs = n"
  using assms(2)
proof (induction n arbitrary: c xs c')
  case (Suc n)
  then obtain x c1 ys c2 where "p c = (Ok x, c1)" "smany n p c1 = (Ok ys, c2)" "xs = x # ys"
    by (auto simp: sbind_def sret_def split: prod.splits res.splits)
  with Suc.IH assms(1) show ?case by simp
qed (simp add: sret_def)

lemma read_slot_ok: "read_slot n c = (Ok v, c') \<Longrightarrow> slot_ok n v"
  by (auto simp: read_slot_def sbind_def slift_def sret_def fail_def slot_ok_def as_handle_def
      handle_unchecked_def split: prod.splits res.splits if_splits)

lemma read_frame_ok: "read_frame n c = (Ok f, c') \<Longrightarrow> snap_frame_ok n f"
proof -
  assume "read_frame n c = (Ok f, c')"
  then obtain k sl c1 c2 where sl: "smany (unat (k :: u32)) (read_slot n) c1 = (Ok sl, c2)"
    and f: "slots f = sl" "sp f \<le> length sl"
    by (auto simp: read_frame_def sbind_def slift_def sret_def fail_def
        split: prod.splits res.splits if_splits)
  have "list_all (slot_ok n) sl \<and> length sl = unat k"
    by (rule smany_all [OF _ sl]) (rule read_slot_ok)
  moreover have "unat k \<le> u32_max" using unat_bound [of k] by (simp add: u32_max_def)
  ultimately show "snap_frame_ok n f" using f by (simp add: snap_frame_ok_def)
qed

lemma restore_checks:
  assumes "restore bs t = (Ok (), t')"
  shows "list_all (snap_frame_ok (arena_len (arena t'))) (frames t') \<and>
     (\<exists>a fs. t' = t\<lparr>arena := a, frames := fs\<rparr>)"
proof -
  from assms obtain a c fs c' where a: "read_arena_part (scursor_new bs) = (Ok a, c)"
    and fs: "read_frames_part (length a) c = (Ok fs, c')"
    and t': "t' = t\<lparr>arena := arena_from_bytes a, frames := fs\<rparr>"
    by (auto simp: restore_def Let_def split: prod.splits res.splits)
  from fs obtain n c1 c2 where "smany n (read_frame (length a)) c1 = (Ok fs, c2)"
    by (auto simp: read_frames_part_def sbind_def split: prod.splits res.splits)
  then have "list_all (snap_frame_ok (length a)) fs \<and> length fs = n"
    by (rule smany_all [rotated]) (rule read_frame_ok)
  then show ?thesis by (auto simp: t' arena_from_bytes_def arena_len_def)
qed

text \<open>What a snapshot, whole or cut, does to the machine it is restored into.\<close>

lemma restore_kept:
  assumes "snap_fits u" and "snapshot u = Ok (bs @ lost)"
  shows "restore bs t = (Ok (), t\<lparr>arena := arena u, frames := frames u\<rparr>) \<and> lost = [] \<and> snapshottable u \<or>
    (\<exists>e. restore bs t = (Err e, if 10 + arena_len (arena u) \<le> length bs then t\<lparr>arena := arena u\<rparr> else t) \<and>
       dcode e \<in> refusals \<and> (lost = [] \<longrightarrow> \<not> snapshottable u))"
proof -
  obtain hd fb where sn: "snapshot u = Ok (hd @ fb)"
    and hd: "hd = SNAP_MAGIC @ u16_le SNAP_VERSION @ u32_le (of_nat (arena_len (arena u))) @ a_data (arena u)"
    and fb: "fb = u32_le (of_nat (length (frames u))) @ concat (map frame_bytes (frames u))"
    using snapshot_parts by blast
  have ar: "snap_cursor.reads read_arena_part hd (a_data (arena u))"
    unfolding hd arena_len_def using reads_arena_part [of "a_data (arena u)"] assms(1)
    by (simp add: snap_fits_def arena_len_def)
  have fr: "trusts_snap (read_frames_part (length (a_data (arena u)))) fb (frames u)"
    unfolding fb using trusts_frames_part assms(1) by (simp add: snap_fits_def)
  have len: "length hd = 10 + arena_len (arena u)"
    by (simp add: hd SNAP_MAGIC_def arena_len_def)
  have new: "s_live (scursor_new bs)" "s_rest (scursor_new bs) = bs"
    by (simp_all add: s_live_def s_rest_def scursor_new_def)
  have "bs @ lost = hd @ fb" using sn assms(2) by simp
  then consider (short) w where "w \<noteq> []" "bs @ w = hd" "lost \<noteq> []" | (past) r where "bs = hd @ r" "r @ lost = fb"
    by (auto simp: append_eq_append_conv2 append_eq_Cons_conv) (metis append.right_neutral append_is_Nil_conv)
  then show ?thesis
  proof cases
    case short
    with cutsD [OF conjunct2 [OF ar] new(1), of w] new(2)
    have "fst (read_arena_part (scursor_new bs)) = fail SnapshotCorrupt" by simp
    moreover have "length bs < 10 + arena_len (arena u)"
      using arg_cong [OF short(2), of length] short(1) len by (cases w) auto
    ultimately show ?thesis
      using short(3) by (cases "read_arena_part (scursor_new bs)") (auto simp: restore_def fail_def)
  next
    case past
    with parsesD [OF conjunct1 [OF ar] new(1), of r] new(2) obtain c1
      where c1: "read_arena_part (scursor_new bs) = (Ok (a_data (arena u)), c1)" "s_live c1" "s_rest c1 = r"
      by auto
    have le: "10 + arena_len (arena u) \<le> length bs" using len past(1) by simp
    have "s_rest c1 @ lost = fb @ []" using c1(3) past(2) by simp
    from trustsD [OF fr c1(2) this] show ?thesis
    proof (elim disjE exE conjE)
      fix c2 assume c2: "read_frames_part (length (a_data (arena u))) c1 = (Ok (frames u), c2)" "s_rest c2 @ lost = []"
      with c1(1) have r: "restore bs t = (Ok (), t\<lparr>arena := arena u, frames := frames u\<rparr>)"
        by (simp add: restore_def arena_from_bytes_def)
      from restore_checks [OF r] have "list_all (snap_frame_ok (arena_len (arena u))) (frames u)" by simp
      then have "snapshottable u" using assms(1) by (simp add: snapshottable_def snap_fits_def)
      with r c2(2) show ?thesis by simp
    next
      fix e c2 assume c2: "read_frames_part (length (a_data (arena u))) c1 = (Err e, c2)" "dcode e \<in> refusals"
      with c1(1) le have r: "restore bs t = (Err e, if 10 + arena_len (arena u) \<le> length bs then t\<lparr>arena := arena u\<rparr> else t)"
        by (simp add: restore_def arena_from_bytes_def)
      moreover have "\<not> snapshottable u" if "lost = []"
        using restore_snapshot [of u "[]" t] r that assms(2) by auto
      ultimately show ?thesis using c2(2) by blast
    qed
  qed
qed

text \<open>A machine restored from a well-formed one of the same program is well-formed.\<close>

lemma restore_wf:
  assumes "vm_wf s" and "vm_wf t" and "vm_image t = vm_image s" and "limits t = limits s"
  shows "vm_wf (t\<lparr>arena := arena s, frames := frames s\<rparr>)"
  using assms by (simp add: vm_wf_def)

text \<open>
  \<open>restore\<close> compares no function index with the image: a frame of a function the image does
  not have is accepted, and the next \<open>step\<close> indexes \<open>funcs()\<close> out of range.
\<close>

lemma restored_function_unchecked:
  assumes "snapshottable s" and "frames s \<noteq> []"
    and "length (img_funcs (vm_image t)) \<le> unat (func (last (frames s)))"
    and "pending t = None" and "halt t = None" and "steps t < max_steps (limits t)"
  shows "\<exists>bs t1 t2. snapshot s = Ok bs \<and> restore bs t = (Ok (), t1) \<and> vm_step None t1 = Some (Panic, t2)"
proof -
  let ?t1 = "t\<lparr>arena := arena s, frames := frames s\<rparr>"
  from restore_snapshot [OF assms(1), of "[]" t] obtain bs
    where bs: "snapshot s = Ok bs" "restore bs t = (Ok (), ?t1)" by auto
  let ?t2 = "?t1\<lparr>steps := steps t + 1\<rparr>"
  have "fetch ?t2 = Panic" using assms(3) by (simp add: fetch_def nth_get_def)
  moreover have "\<not> max_steps (limits t) < steps t + 1"
    using assms(6) by (simp add: inc_le not_less)
  ultimately have "tick ?t1 = (Panic, ?t2)"
    using assms(2,4,5) by (simp add: tick_def slift_def sbind_def)
  then have "vm_step None ?t1 = Some (Panic, ?t2)"
    by (simp add: vm_step_def) (subst run_loop.simps, simp)
  with bs show ?thesis by blast
qed

end
