(* ===== verification/CV_Hosted.thy ===== *)
theory CV_Hosted
  imports CV_Cont CV_Driver
begin

text \<open>
  What a host can do with a machine over its life: the methods of \<open>src/src/interp.rs\<close> and
  \<open>src/src/cont.rs\<close> in any order. It steps with or without an answer, keeps snapshots, and
  restores what it kept, whole or cut short. The reachable pairs of a machine and the snapshots
  kept are an inductive predicate.
\<close>

section \<open>The host's moves\<close>

text \<open>A step that panics ends the process, so nothing follows it. A new machine of the same program
  may take over what was kept.\<close>

inductive hosted :: "image \<Rightarrow> limits \<Rightarrow> vm \<Rightarrow> bytes list \<Rightarrow> bool" for im lim where
  hosted_new: "vm_new im lim = Ok s \<Longrightarrow> hosted im lim s []"
| hosted_again: "hosted im lim s saves \<Longrightarrow> vm_new im lim = Ok t \<Longrightarrow> hosted im lim t saves"
| hosted_step: "hosted im lim s saves \<Longrightarrow> vm_step ans s = Some (r, t) \<Longrightarrow> r \<noteq> Panic \<Longrightarrow> hosted im lim t saves"
| hosted_save: "hosted im lim s saves \<Longrightarrow> snapshot s = Ok bs \<Longrightarrow> hosted im lim s (bs # saves)"
| hosted_restore: "hosted im lim s saves \<Longrightarrow> bs @ lost \<in> set saves \<Longrightarrow> restore bs s = (r, t) \<Longrightarrow>
    hosted im lim t saves"

inductive_cases hosted_saved: "hosted im lim s (bs # saves)"

section \<open>Steps keep the program\<close>

lemma tick_keeps:
  assumes "tick s = (x, u)"
  shows "vm_image u = vm_image s \<and> limits u = limits s"
proof -
  have "same_program s1 (snd (sthen (exec d) (sret None) s1))" for d s1
    using exec_same_program [of s1 d] by (cases "exec d s1"; cases "fst (exec d s1)") (auto simp: sthen_def sbind_def sret_def)
  then have "same_program s1 (snd (sbind (slift (fetch s1)) (\<lambda>d. sthen (exec d) (sret None)) s1))" for s1
    by (cases "fetch s1") (simp_all add: sbind_def slift_def same_program_def)
  from this [of "s\<lparr>steps := steps s + 1\<rparr>"]
  have "vm_image (snd (tick s)) = vm_image s \<and> limits (snd (tick s)) = limits s"
    by (auto simp: tick_def Let_def same_program_def split: option.splits)
  with assms show ?thesis by simp
qed

lemma run_loop_program:
  assumes "run_loop s = Some (r, t)"
  shows "vm_image t = vm_image s \<and> limits t = limits s"
  using assms
proof (induction rule: run_loop_induct)
  case (step f s r s')
  obtain x u where x: "tick s = (x, u)" by fastforce
  from tick_keeps [OF x] step x show ?case by (auto split: res.splits option.splits)
qed

lemma vm_step_program:
  assumes "vm_step ans s = Some (r, t)"
  shows "vm_image t = vm_image s \<and> limits t = limits s"
proof -
  have push: "vm_image u = vm_image s \<and> limits u = limits s" if "on_frame (push v) s = (q, u)" for v q u
    using program.f_on_frame [of "push v"] that by (auto simp: follows_def same_program_def dest: spec [of _ s])
  show ?thesis
    using assms run_loop_program
    by (auto simp: vm_step_def split: option.splits answer.splits prod.splits res.splits dest!: push)
qed

section \<open>The invariant\<close>

definition saved_of :: "image \<Rightarrow> limits \<Rightarrow> bytes \<Rightarrow> bool" where
  "saved_of im lim bs \<longleftrightarrow> (\<exists>u. vm_wf u \<and> vm_image u = im \<and> limits u = lim \<and> snapshot u = Ok bs)"

definition host_inv :: "image \<Rightarrow> limits \<Rightarrow> vm \<Rightarrow> bytes list \<Rightarrow> bool" where
  "host_inv im lim s saves \<longleftrightarrow> vm_wf s \<and> vm_image s = im \<and> limits s = lim \<and> list_all (saved_of im lim) saves"

text \<open>The lengths in a snapshot fit their fields: a frame has \<open>maxstack\<close> slots.\<close>

lemma vm_wf_fits:
  assumes "vm_wf u" and "max_frames (limits u) \<le> u32_max"
  shows "snap_fits u"
proof -
  have "sp f \<le> length (slots f) \<and> length (slots f) \<le> u32_max" if "f \<in> set (frames u)" for f
  proof -
    have "frame_wf f" "locals f = []" using assms(1) that by (auto simp: vm_wf_def frame_ok_def)
    then have "sp f \<le> length (slots f)" "length (slots f) \<le> unat (maxstack f)" by (auto simp: frame_wf_def locals_def)
    moreover have "unat (maxstack f) \<le> u32_max" using unat_bound [of "maxstack f"] by (simp add: u32_max_def)
    ultimately show ?thesis by simp
  qed
  then show ?thesis
    using assms by (auto simp: snap_fits_def list_all_iff vm_wf_def arena_wf_def arena_len_def u32_max_def)
qed

lemma vm_wf_arena: "vm_wf u \<Longrightarrow> vm_wf s \<Longrightarrow> vm_wf (s\<lparr>arena := arena u\<rparr>)"
  by (simp add: vm_wf_def)

text \<open>A kept snapshot restores its machine, or, cut or refused, at most the arena.\<close>

lemma restore_part:
  assumes "saved_of im lim (bs @ lost)" and "vm_wf s" and "vm_image s = im" and "limits s = lim"
    and "max_frames lim \<le> u32_max" and "restore bs s = (r, t)"
  shows "vm_wf t \<and> vm_image t = im \<and> limits t = lim \<and> r \<noteq> Panic"
proof -
  from assms(1) obtain u where u: "vm_wf u" "vm_image u = im" "limits u = lim" "snapshot u = Ok (bs @ lost)"
    by (auto simp: saved_of_def)
  have "snap_fits u" using vm_wf_fits [OF u(1)] u(3) assms(5) by simp
  from restore_kept [OF this u(4), of s] assms(6) consider "r = Ok ()" "t = s\<lparr>arena := arena u, frames := frames u\<rparr>"
    | e where "r = Err e" "t = s \<or> t = s\<lparr>arena := arena u\<rparr>" by (auto split: if_splits)
  then show ?thesis
  proof cases
    case 1
    with restore_wf [OF u(1) assms(2)] u(2,3) assms(3,4) show ?thesis by simp
  next
    case 2
    with vm_wf_arena [OF u(1) assms(2)] assms(2-4) show ?thesis by auto
  qed
qed

text \<open>A step panics only where the host answers a machine that has no frame.\<close>

definition answers_frameless :: "answer option \<Rightarrow> vm \<Rightarrow> bool" where
  "answers_frameless ans s \<longleftrightarrow> frames s = [] \<and> (case ans of Some (AnsValue v) \<Rightarrow> True | Some (AnsFail v) \<Rightarrow> True | _ \<Rightarrow> False)"

lemma vm_step_panics:
  assumes "vm_wf s" and "max_steps (limits s) < 0xFFFFFFFFFFFFFFFF" and "no_find (img_code (vm_image s))"
  shows "\<exists>r t. vm_step ans s = Some (r, t) \<and> (r = Panic \<longleftrightarrow> answers_frameless ans s) \<and> vm_wf t"
proof (cases "ans = None \<or> frames s \<noteq> []")
  case True
  moreover from this have "\<not> answers_frameless ans s" by (auto simp: answers_frameless_def)
  ultimately show ?thesis using vm_step_safe [OF assms] by blast
next
  case False
  then obtain a where a: "ans = Some a" "frames s = []" by auto
  with assms(1) show ?thesis
    by (cases a) (simp_all add: vm_step_def on_frame_def answers_frameless_def)
qed

theorem hosted_inv:
  assumes "hosted im lim s saves" and "no_find (img_code im)" and "max_steps lim < 0xFFFFFFFFFFFFFFFF"
    and "max_frames lim \<le> u32_max"
  shows "host_inv im lim s saves"
  using assms(1)
proof induction
  case (hosted_new s)
  then show ?case using vm_new_live [THEN vm_live_wf] vm_new_sel by (auto simp: host_inv_def)
next
  case (hosted_again s saves t)
  then show ?case using vm_new_live [THEN vm_live_wf] vm_new_sel by (auto simp: host_inv_def)
next
  case (hosted_step s saves ans r t)
  then have s: "vm_wf s" "vm_image s = im" "limits s = lim" "list_all (saved_of im lim) saves" by (auto simp: host_inv_def)
  have "max_steps (limits s) < 0xFFFFFFFFFFFFFFFF" "no_find (img_code (vm_image s))" using s(2,3) assms(2,3) by simp_all
  from vm_step_panics [OF s(1) this, of ans] hosted_step.hyps(2) have "vm_wf t" by auto
  with vm_step_program [OF hosted_step.hyps(2)] s show ?case by (simp add: host_inv_def)
next
  case (hosted_save s saves bs)
  then show ?case by (auto simp: host_inv_def saved_of_def)
next
  case (hosted_restore s saves bs lost r t)
  then have "saved_of im lim (bs @ lost)" by (auto simp: host_inv_def list_all_iff)
  from restore_part [OF this _ _ _ assms(4) hosted_restore.hyps(3)] hosted_restore.IH show ?case by (auto simp: host_inv_def)
qed

text \<open>So whatever a host has done, the next step returns, and panics only for that answer.\<close>

theorem hosted_step_safe:
  assumes "hosted im lim s saves" and "no_find (img_code im)" and "max_steps lim < 0xFFFFFFFFFFFFFFFF"
    and "max_frames lim \<le> u32_max"
  shows "\<exists>r t. vm_step ans s = Some (r, t) \<and> (r = Panic \<longleftrightarrow> answers_frameless ans s) \<and> vm_wf t \<and>
     (r \<noteq> Panic \<longrightarrow> hosted im lim t saves)"
proof -
  from hosted_inv [OF assms] have s: "vm_wf s" "vm_image s = im" "limits s = lim" by (auto simp: host_inv_def)
  have "max_steps (limits s) < 0xFFFFFFFFFFFFFFFF" "no_find (img_code (vm_image s))" using s(2,3) assms(2,3) by simp_all
  from vm_step_panics [OF s(1) this, of ans] hosted.hosted_step [OF assms(1), of ans] show ?thesis by blast
qed

text \<open>And what it kept restores into the machine it has now, unless the machine it was taken of held
  a pending value, or a handle beyond its arena, in a slot: then it is refused.\<close>

theorem hosted_restores:
  assumes "hosted im lim s saves" and "no_find (img_code im)" and "max_steps lim < 0xFFFFFFFFFFFFFFFF"
    and "max_frames lim \<le> u32_max" and "bs \<in> set saves"
  shows "\<exists>u q t. vm_wf u \<and> vm_image u = im \<and> snapshot u = Ok bs \<and> restore bs s = (q, t) \<and> hosted im lim t saves \<and>
     arena t = arena u \<and> (if snapshottable u then q = Ok () \<and> frames t = frames u
       else frames t = frames s \<and> (\<exists>e. q = Err e \<and> dcode e \<in> refusals))"
proof -
  from hosted_inv [OF assms(1-4)] assms(5) obtain u where u: "vm_wf u" "vm_image u = im" "limits u = lim" "snapshot u = Ok (bs @ [])"
    by (auto simp: host_inv_def list_all_iff saved_of_def)
  obtain q t where r: "restore bs s = (q, t)" by fastforce
  have "10 + arena_len (arena u) \<le> length bs"
    using u(4) by (auto simp: snapshot_def SNAP_MAGIC_def arena_len_def)
  moreover have "snap_fits u" using vm_wf_fits [OF u(1)] u(3) assms(4) by simp
  from restore_kept [OF this u(4), of s] r calculation
  have "(if snapshottable u then q = Ok () \<and> t = s\<lparr>arena := arena u, frames := frames u\<rparr>
      else t = s\<lparr>arena := arena u\<rparr> \<and> (\<exists>e. q = Err e \<and> dcode e \<in> refusals))" by auto
  moreover have "hosted im lim t saves"
    using hosted.hosted_restore [OF assms(1) _ r, of "[]"] assms(5) by simp
  ultimately show ?thesis using u r by (intro exI [of _ u] exI [of _ q] exI [of _ t]) (auto split: if_splits)
qed

end
