(* ===== verification/CV_Tools.thy ===== *)
theory CV_Tools
  imports CV_Driver
begin

text \<open>
  The tools around the library: \<open>build\<close> of \<open>src/src/lib.rs\<close>, the commands \<open>build\<close> and \<open>dis\<close> of
  \<open>src/src/bin/cinderc.rs\<close>, and \<open>explain\<close> of \<open>src/src/bin/cinder.rs\<close>. Files are arguments: what
  reading one gives (\<open>None\<close> when it cannot be read), and whether one can be written. The container
  format of the missing \<open>image.rs\<close> is a pair of arguments, \<open>to_bytes\<close> and \<open>from_bytes\<close>.
\<close>

section \<open>The crate\<close>

definition crate_build ::
    "(bytes \<Rightarrow> unit result) \<Rightarrow> (obj \<Rightarrow> image) \<Rightarrow> (image \<Rightarrow> image) \<Rightarrow> bytes \<Rightarrow> bytes \<Rightarrow> image result option" where
  "crate_build seal_check build_image mark_verified name source =
     obind (Some (assemble name source)) (admit seal_check build_image mark_verified)"

section \<open>Commands\<close>

text \<open>\<open>run_build\<close> returns what it writes and where.\<close>

definition run_build ::
    "(bytes \<Rightarrow> unit result) \<Rightarrow> (obj \<Rightarrow> image) \<Rightarrow> (image \<Rightarrow> image) \<Rightarrow> (image \<Rightarrow> bytes) \<Rightarrow>
     (bytes \<Rightarrow> bytes option) \<Rightarrow> (bytes \<Rightarrow> bool) \<Rightarrow> bytes \<Rightarrow> bytes \<Rightarrow> (bytes \<times> bytes) result option" where
  "run_build seal_check build_image mark_verified to_bytes read_file can_write src out =
     obind (Some (case read_file src of None \<Rightarrow> fail BadNumber | Some source \<Rightarrow> Ok source)) (\<lambda>source.
     obind (Some (assemble src source)) (\<lambda>x.
     obind (admit seal_check build_image mark_verified x) (\<lambda>im.
       Some (if can_write out then Ok (out, to_bytes im) else fail BadNumber))))"

definition disassemble ::
    "(bytes \<Rightarrow> image result) \<Rightarrow> (image \<Rightarrow> bytes) \<Rightarrow> bytes option \<Rightarrow> bytes result" where
  "disassemble from_bytes name_of content =
     rbind (case content of None \<Rightarrow> fail BadNumber | Some bs \<Rightarrow> Ok bs) (\<lambda>bs.
     rbind (from_bytes bs) (\<lambda>im. emit_image (name_of im) im))"

text \<open>\<open>cinder explain\<close>: the code, its explanation and its phase, or the list of what is known.\<close>

definition explain :: "string \<Rightarrow> (string \<times> string \<times> phase) + (string \<times> string) list" where
  "explain arg = (case parse_code arg of
     Some c \<Rightarrow> Inl (as_str c, blurb c, phase_of c)
   | None \<Rightarrow> Inr (map (\<lambda>c. (as_str c, blurb c)) all_codes))"

text \<open>What the arguments of \<open>cinderc\<close> and \<open>cinder\<close> ask for. \<open>str::replace\<close> replaces every
  occurrence, from the left; \<open>position\<close> looks through all arguments.\<close>

function replace_all :: "bytes \<Rightarrow> bytes \<Rightarrow> bytes \<Rightarrow> bytes" where
  "replace_all old new s =
     (if old = [] \<or> length s < length old then s
      else if take (length old) s = old then new @ replace_all old new (drop (length old) s)
      else hd s # replace_all old new (tl s))"
  by pat_completeness auto
termination
  by (relation "measure (\<lambda>(old, new, s). length s)") (auto simp: neq_Nil_conv)

declare replace_all.simps [simp del]

datatype cinderc_request =
    PrintUsage
  | PrintVersion
  | EmitIsaMd
  | BuildFile bytes bytes
  | RunFile bytes bool
  | DisFile bytes
  | UnknownCommand bytes

definition arg_or :: "bytes list \<Rightarrow> bytes \<Rightarrow> bytes" where
  "arg_or args d = (case nth_get args 1 of Some a \<Rightarrow> a | None \<Rightarrow> d)"

definition after_flag :: "bytes \<Rightarrow> bytes list \<Rightarrow> bytes option" where
  "after_flag flag args = (case List.find (\<lambda>i. args ! i = flag) [0..<length args] of
     Some i \<Rightarrow> nth_get args (i + 1) | None \<Rightarrow> None)"

definition cinderc_command :: "bytes list \<Rightarrow> cinderc_request" where
  "cinderc_command args =
     (if args = [] \<or> hd args = ascii ''--help'' \<or> hd args = ascii ''-h'' then PrintUsage
      else if hd args = ascii ''--version'' then PrintVersion
      else if hd args = ascii ''--emit-isa-md'' then EmitIsaMd
      else if hd args = ascii ''build'' then
        (let src = arg_or args (ascii ''in.cdx'')
         in BuildFile src (case after_flag (ascii ''-o'') args of
              Some out \<Rightarrow> out | None \<Rightarrow> replace_all (ascii ''.cdx'') (ascii ''.cdxb'') src))
      else if hd args = ascii ''run'' then
        RunFile (arg_or args (ascii ''out.cdxb'')) (ascii ''--trace'' \<in> set args)
      else if hd args = ascii ''dis'' then DisFile (arg_or args (ascii ''out.cdxb''))
      else UnknownCommand (hd args))"

datatype cinder_request = CinderUsage | CinderVersion | ExplainCode bytes | StartCinderc bytes | CinderUnknown bytes

definition cinder_command :: "bytes list \<Rightarrow> cinder_request" where
  "cinder_command args =
     (case args of
        [] \<Rightarrow> CinderUsage
      | a # _ \<Rightarrow>
          if a = ascii ''--help'' \<or> a = ascii ''-h'' then CinderUsage
          else if a = ascii ''--version'' then CinderVersion
          else if a = ascii ''explain'' then ExplainCode (arg_or args [])
          else if a = ascii ''run'' then StartCinderc (arg_or args (ascii ''out.cdxb''))
          else CinderUnknown a)"

section \<open>What they do\<close>

text \<open>An image that \<open>build\<close> returns has one function, \<open>main\<close>, over the whole code, and operands in
  range.\<close>

theorem crate_build_image:
  assumes "crate_build seal_check build_image mark_verified name source = Some (Ok im)"
    and "keeps_parts build_image mark_verified" and "length (img_code im) < 2 ^ 32"
  shows "\<exists>x xs f. assemble name source = Ok x \<and> one_main x xs \<and> img_funcs im = [f] \<and> fm_name f = ascii ''main'' \<and>
     img_code im = emitted xs \<and> decode_range (img_code im) f = Ok (map decoded_of xs, starts_at 0 xs) \<and>
     (\<forall>d\<in>set (map decoded_of xs). in_range x (length xs) d)"
proof -
  from assms(1) obtain x where x: "assemble name source = Ok x" "admit seal_check build_image mark_verified x = Some (Ok im)"
    by (auto simp: crate_build_def obind_Some_Ok)
  from assemble_one_main [OF x(1)] obtain xs where xs: "one_main x xs" by blast
  then obtain f where f: "o_funcs x = [f]" "fm_name f = ascii ''main''" "o_code x = emitted xs" by (auto simp: one_main_def)
  have im: "img_funcs im = [f]" "img_code im = o_code x"
    using assms(2) f(1) by (simp_all add: admit_Ok(1) [OF x(2)] keeps_parts_def)
  have dec: "decode_range (o_code x) f = Ok (map decoded_of xs, starts_at 0 xs)"
    using assembled_decodes [OF xs] f(1) assms(3) im(2) by simp
  have "in_range x (length xs) d" if "d \<in> set (map decoded_of xs)" for d
    using admitted_operands_in_range [where seal_check = seal_check and build_image = build_image
        and mark_verified = mark_verified, OF x(2) _ dec that] f(1) by simp
  with x xs f im dec show ?thesis by auto
qed

text \<open>A container that comes back from disk as it was written is disassembled to the listing of what
  was assembled.\<close>

theorem build_then_dis:
  assumes "run_build seal_check build_image mark_verified to_bytes read_file can_write src out = Some (Ok (file, bs))"
    and "keeps_parts build_image mark_verified"
    and "\<And>x. assemble src (the (read_file src)) = Ok x \<Longrightarrow>
      from_bytes (to_bytes (mark_verified (build_image x))) = Ok (mark_verified (build_image x))"
  shows "\<exists>x im dss. assemble src (the (read_file src)) = Ok x \<and> file = out \<and>
     disassemble from_bytes name_of (Some bs) = Ok (ascii ''; '' @ name_of im @ ascii '' (cdx/4)'' @ nl @
       concat (map2 (fn_text im) (o_funcs x) dss) @ tools_line (o_tools x)) \<and>
     list_all2 (\<lambda>f ds. \<exists>ats. decode_range (o_code x) f = Ok (ds, ats)) (o_funcs x) dss"
proof -
  from assms(1) obtain source x im where r: "read_file src = Some source" "assemble src source = Ok x"
    "admit seal_check build_image mark_verified x = Some (Ok im)" "file = out" "bs = to_bytes im"
    by (auto simp: run_build_def obind_Some_Ok fail_def split: option.splits if_splits)
  from admitted_disassembles [where seal_check = seal_check and build_image = build_image and mark_verified = mark_verified,
      OF r(3) assms(2), of "name_of im"] obtain dss where
    "list_all2 (\<lambda>f ds. \<exists>ats. decode_range (o_code x) f = Ok (ds, ats)) (o_funcs x) dss"
    "emit_image (name_of im) im = Ok (ascii ''; '' @ name_of im @ ascii '' (cdx/4)'' @ nl @
       concat (map2 (fn_text im) (o_funcs x) dss) @ tools_line (o_tools x))" by blast
  moreover have "from_bytes (to_bytes im) = Ok im" using assms(3) [of x] r(1,2) admit_Ok(1) [OF r(3)] by simp
  ultimately show ?thesis using r by (auto simp: disassemble_def)
qed

text \<open>A listing is built and run from its container: the exit status is what the reference
  machine computes.\<close>

lemma run_vm_halts: "vm_step None s = Some (Ok (Halted n), t) \<Longrightarrow> run_vm s = Some (Ok n)"
  by (subst run_vm.simps) simp

theorem build_then_run:
  assumes "written mx lns content" and "lines_mean lns ([], []) = Some (ls, xs)"
    and "plain_straight (map decoded_of xs)" and "mx \<noteq> 0"
    and "scan [(ascii ''main'', 0)] 0 0 mx 0 (map decoded_of xs) (0, []) = Ok ()" and "length xs \<le> 1000000"
    and "seal_check (emitted xs) = Ok ()" and "keeps_parts build_image mark_verified"
    and "from_bytes (to_bytes (mark_verified (build_image (main_obj src mx xs)))) =
      Ok (mark_verified (build_image (main_obj src mx xs)))"
    and "read_file src = Some content" and "can_write out" and "\<And>im. is_verified (mark_verified im)"
  shows "\<exists>bs n st. run_build seal_check build_image mark_verified to_bytes read_file can_write src out = Some (Ok (out, bs)) \<and>
     calc_all (butlast (map decoded_of xs)) [] = Some (n # st) \<and>
     run_image from_bytes is_verified seal_check build_image mark_verified bs = Some (Ok n)"
proof -
  have small: "length xs < 2 ^ 30" "length xs \<le> unat (max_steps limits_default)"
    using assms(6) by (simp_all add: limits_default_def)
  from straight_listing_halts [where seal_check = seal_check and build_image = build_image and mark_verified = mark_verified
      and nm = src and lim = limits_default, OF assms(1-5) small assms(7,8)] obtain x im s n st t where
    r: "assemble src content = Ok x" "admit seal_check build_image mark_verified x = Some (Ok im)"
      "vm_new im limits_default = Ok s" "vm_step None s = Some (Ok (Halted n), t)"
    and n: "calc_all (butlast (map decoded_of xs)) [] = Some (n # st)" by blast
  have "run_build seal_check build_image mark_verified to_bytes read_file can_write src out = Some (Ok (out, to_bytes im))"
    using r(1,2) assms(10,11) by (simp add: run_build_def)
  moreover have "run_image from_bytes is_verified seal_check build_image mark_verified (to_bytes im) = Some (Ok n)"
    using r(3) run_vm_halts [OF r(4)] assms(9,12) admit_Ok(1) [OF r(2)] r(1) assemble_listing [OF assms(1,2), of src]
    by (simp add: run_image_def)
  ultimately show ?thesis using n by blast
qed

text \<open>Without \<open>-o\<close>, a source whose name does not contain \<open>.cdx\<close> is overwritten by the container.\<close>

lemma replace_absent:
  "old \<noteq> [] \<Longrightarrow> \<forall>a b. s \<noteq> a @ old @ b \<Longrightarrow> replace_all old new s = s"
proof (induction old new s rule: replace_all.induct)
  case (1 old new s)
  show ?case
  proof (cases "length s < length old")
    case True
    then show ?thesis by (simp add: replace_all.simps)
  next
    case False
    have "take (length old) s \<noteq> old"
    proof
      assume "take (length old) s = old"
      then have "s = [] @ old @ drop (length old) s" by (metis append_Nil append_take_drop_id)
      with 1(4) show False by blast
    qed
    moreover have "s \<noteq> []" using False 1(3) by auto
    moreover have "\<forall>a b. tl s \<noteq> a @ old @ b"
    proof (intro allI notI)
      fix a b assume "tl s = a @ old @ b"
      with \<open>s \<noteq> []\<close> have "s = (hd s # a) @ old @ b" by (cases s) auto
      with 1(4) show False by blast
    qed
    ultimately have "replace_all old new (tl s) = tl s" using 1(2) [OF _ _ 1(3)] 1(3) False by simp
    with False \<open>take (length old) s \<noteq> old\<close> \<open>s \<noteq> []\<close> 1(3) show ?thesis by (subst replace_all.simps) simp
  qed
qed

theorem build_overwrites_source:
  assumes "\<forall>a b. src \<noteq> a @ ascii ''.cdx'' @ b" and "src \<noteq> ascii ''-o''"
  shows "cinderc_command [ascii ''build'', src] = BuildFile src src"
proof -
  have ne: "ascii ''build'' \<noteq> ascii ''-o''" "ascii ''.cdx'' \<noteq> []" by code_simp+
  have "after_flag (ascii ''-o'') [ascii ''build'', src] = None" using assms(2) ne(1) by (simp add: after_flag_def upt_conv_Cons)
  moreover have "arg_or [ascii ''build'', src] d = src" for d by (simp add: arg_or_def nth_get_def)
  moreover have "ascii ''build'' \<notin> {ascii ''--help'', ascii ''-h'', ascii ''--version'', ascii ''--emit-isa-md''}" by code_simp
  ultimately show ?thesis using replace_absent [OF ne(2) assms(1)] by (simp add: cinderc_command_def)
qed

text \<open>\<open>explain\<close> knows exactly the codes of the table.\<close>

theorem explain_known: "explain s = Inl e \<longleftrightarrow> (\<exists>c. s = as_str c \<and> e = (s, blurb c, phase_of c))"
  using parse_as_str parse_code_SomeD by (fastforce simp: explain_def split: option.splits)

end
