(* ===== verification/CV_Refused.thy ===== *)
theory CV_Refused
  imports CV_Listing
begin

text \<open>
  Listings that \<open>src/src/asm.rs\<close> refuses: the first line whose operand does not fit its opcode
  decides, whatever follows. And the layout in which the programs of the repository are written:
  labels at the margin, instructions four blanks in.
\<close>

section \<open>Sources\<close>

abbreviation plain :: "tok \<Rightarrow> gap \<times> tok" where "plain t \<equiv> (([], None), t)"
abbreviation blank :: "tok \<Rightarrow> gap \<times> tok" where "blank t \<equiv> (([0x20], None), t)"
abbreviation inner :: "tok \<Rightarrow> gap \<times> tok" where "inner t \<equiv> (([0x20, 0x20, 0x20, 0x20], None), t)"

fun line_layout :: "line \<Rightarrow> (gap \<times> tok) list" where
  "line_layout (Lab l) = [plain (TLabel l), plain TNewline]"
| "line_layout (Ins x None) = [inner (TIdent (mnem x)), plain TNewline]"
| "line_layout (Ins x (Some n)) = [inner (TIdent (mnem x)), blank (TInt n), plain TNewline]"
| "line_layout (Jmp x l) = [inner (TIdent (mnem x)), blank (TIdent l), plain TNewline]"
| "line_layout Blank = [plain TNewline]"

definition main_layout :: "u16 \<Rightarrow> line list \<Rightarrow> (gap \<times> tok) list" where
  "main_layout mx ls = [plain (TDirective (ascii ''fn'')), blank (TIdent (ascii ''main'')), plain (TIdent (ascii ''('')),
     plain (TIdent (ascii '')'')), blank (TIdent (ascii ''->'')), blank (TIdent (ascii ''i32'')), plain TNewline,
     plain (TDirective (ascii ''maxstack'')), blank (TInt (ucast mx)), plain TNewline] @ concat (map line_layout ls)"

definition main_source :: "u16 \<Rightarrow> line list \<Rightarrow> bytes" where
  "main_source mx ls = typeset (main_layout mx ls) ([], None)"

lemma ends_newline: "\<not> ident_byte 0x0A" "\<not> is_digit 0x0A" "\<not> name_byte 0x0A" "\<not> ident_byte 0x28"
  by (simp_all add: ident_byte_def name_byte_def is_digit_def is_alpha_def)

lemma line_layout_ok:
  assumes "line_ok l" and "layout_ok ts g"
  shows "layout_ok (line_layout l @ ts) g"
  using assms line_toks_ok [OF assms(1)]
  by (induction l rule: line_layout.induct)
    (auto simp: gap_ok_def show_gap_def ends_before_def byte_classes ends_newline simp del: tok_ok.simps)

lemma line_layouts_ok: "list_all line_ok ls \<Longrightarrow> layout_ok (concat (map line_layout ls)) ([], None)"
  by (induction ls) (auto simp: gap_ok_def intro: line_layout_ok)

theorem main_source_written:
  assumes "list_all line_ok ls"
  shows "written mx ls (main_source mx ls)"
proof -
  have "map snd (line_layout l) = line_toks l" for l by (induction l rule: line_layout.induct) simp_all
  then have "map snd (main_layout mx ls) = head_toks mx @ concat (map line_toks ls)"
    by (simp add: main_layout_def head_toks_def map_concat comp_def)
  moreover have "layout_ok (main_layout mx ls) ([], None)"
    using line_layouts_ok [OF assms] head_toks_ok [of mx]
    by (simp add: main_layout_def head_toks_def gap_ok_def show_gap_def ends_before_def byte_classes ends_newline ascii_def
        del: tok_ok.simps)
  ultimately show ?thesis unfolding written_def main_source_def by blast
qed

section \<open>The first line that does not fit\<close>

lemma lines_mean_append: "lines_mean (as @ bs) = (\<lambda>st. Option.bind (lines_mean as st) (lines_mean bs))"
  by (induction as; rule ext; simp)

lemma asm_loop_fails: "i < length ts \<Longrightarrow> asm_step ts i a = Err e \<Longrightarrow> asm_loop ts i a = Err e"
  by (subst asm_loop.simps) simp

definition refusal :: "operand \<Rightarrow> code" where
  "refusal k = (if k = OprNone then UnexpectedOperand else MissingOperand)"

lemma operand_refused:
  assumes "int_operand k n = None" and "toks_from ts i ((case n of None \<Rightarrow> [] | Some m \<Rightarrow> [TInt m]) @ TNewline # us)"
  shows "read_operand k ts i at a = err_at (refusal k) at"
proof (cases n)
  case None
  with toks_from_Cons(1,2) [of ts i TNewline us] assms show ?thesis
    by (cases k) (auto simp: read_operand_def int_operand_def refusal_def tok_at_eq)
next
  case (Some m)
  with toks_from_Cons(1,2) [of ts i "TInt m" "TNewline # us"] assms show ?thesis
    by (cases k) (auto simp: read_operand_def int_operand_def refusal_def tok_at_eq)
qed

text \<open>Text that starts as a listing and may go on in any way.\<close>

definition starts_as :: "u16 \<Rightarrow> line list \<Rightarrow> bytes \<Rightarrow> bool" where
  "starts_as mx ls src \<longleftrightarrow> (\<exists>ts g us. src = typeset ts g \<and> layout_ok ts g \<and>
     map snd ts = head_toks mx @ concat (map line_toks ls) @ us)"

lemma written_starts: "written mx (ls @ ms) src \<Longrightarrow> starts_as mx ls src"
  unfolding written_def starts_as_def by (metis append_assoc concat_append map_append)

theorem assemble_refused:
  assumes "starts_as mx (pre @ [Ins x n]) src" and "lines_mean pre ([], []) = Some (ls, xs)"
    and "int_operand (operand (insn x)) n = None"
  shows "\<exists>at. assemble nm src = err_at (refusal (operand (insn x))) at"
proof -
  from assms(1) obtain lay g us0 where src: "src = typeset lay g" "layout_ok lay g"
    "map snd lay = head_toks mx @ concat (map line_toks (pre @ [Ins x n])) @ us0" by (auto simp: starts_as_def)
  let ?us = "us0 @ [TEnd]"
  from lex_typeset [OF src(2)] src obtain ts where ts: "lex src = Ok ts"
    "map t_tok ts = head_toks mx @ concat (map line_toks pre) @ line_toks (Ins x n) @ ?us" by auto
  then have "toks_from ts 0 (head_toks mx @ concat (map line_toks pre) @ line_toks (Ins x n) @ ?us)"
    by (simp add: toks_from_def)
  from asm_head [OF this] obtain a where
    a: "asm_loop ts 0 (asm_start nm) = asm_loop ts 10 a" "inside nm a mx [] []"
    "toks_from ts 10 (concat (map line_toks pre) @ line_toks (Ins x n) @ ?us)" by blast
  from asm_lines [OF a(2) assms(2) a(3)] obtain b j where
    b: "asm_loop ts 10 a = asm_loop ts j b" "inside nm b mx ls xs" "toks_from ts j (line_toks (Ins x n) @ ?us)" by blast
  have "line_toks (Ins x n) @ ?us = TIdent (mnem x) # (case n of None \<Rightarrow> [] | Some m \<Rightarrow> [TInt m]) @ TNewline # ?us"
    by (cases n) simp_all
  note t = toks_from_Cons [OF b(3) [unfolded this]]
  have "asm_step ts j b = err_at (refusal (operand (insn x))) (t_span (ts ! j))"
    using t(2) b(2) operand_refused [OF assms(3) t(3)]
    by (simp add: asm_step_def Let_def instruction_def find_mnem insn_eq inside_def)
  with asm_loop_fails [OF t(1)] ts(1) a(1) b(1) show ?thesis
    by (auto simp: assemble_def err_at_def)
qed

text \<open>\<open>.isa\<close> does not take its argument, which is then read as an instruction outside a function.\<close>

theorem isa_argument_refused:
  assumes "layout_ok ts g" and "map snd ts = TDirective (ascii ''isa'') # TIdent s # us"
  shows "\<exists>at. assemble nm (typeset ts g) = err_at BadOperand at"
proof -
  from lex_typeset [OF assms(1)] assms(2) obtain xs where xs: "lex (typeset ts g) = Ok xs"
    "map t_tok xs = TDirective (ascii ''isa'') # TIdent s # us @ [TEnd]" by auto
  then have "toks_from xs 0 (TDirective (ascii ''isa'') # TIdent s # us @ [TEnd])" by (simp add: toks_from_def)
  note t = toks_from_Cons [OF this]
  note t2 = toks_from_Cons [OF t(3)]
  have "asm_step xs 0 (asm_start nm) = Ok (asm_start nm, Suc 0)"
    using t(2) by (simp add: asm_step_def Let_def directive_def)
  moreover have "asm_step xs (Suc 0) (asm_start nm) = err_at BadOperand (t_span (xs ! Suc 0))"
    using t2(2) by (simp add: asm_step_def Let_def instruction_def asm_start_def)
  ultimately show ?thesis
    using asm_loop_next [OF t(1)] asm_loop_fails [OF t2(1)] xs(1) by (auto simp: assemble_def err_at_def)
qed

end
