(* ===== verification/CV_Cli.thy ===== *)
theory CV_Cli
  imports CV_Tools CV_Refused CV_Admitted
begin

text \<open>
  \<open>main\<close> of \<open>src/src/bin/cinderc.rs\<close> and of \<open>src/src/bin/cinder.rs\<close>: from the arguments and the
  files there are to the exit code of the process and the files there are then. Files are a map; a
  name can be written where \<open>writable\<close> says so. What the missing \<open>image.rs\<close> provides is the record
  \<open>container\<close>. The executables are those of the release profile of \<open>Cargo.toml\<close>, where a panic aborts
  the process. What is printed is not modelled.
\<close>

section \<open>The programs\<close>

type_synonym files = "bytes \<Rightarrow> bytes option"

record container =
  k_seal :: "bytes \<Rightarrow> unit result"
  k_build :: "obj \<Rightarrow> image"
  k_mark :: "image \<Rightarrow> image"
  k_to_bytes :: "image \<Rightarrow> bytes"
  k_from_bytes :: "bytes \<Rightarrow> image result"
  k_verified :: "image \<Rightarrow> bool"
  k_name :: "image \<Rightarrow> bytes"

text \<open>\<open>read_to_string\<close> fails on text that is not UTF-8.\<close>

definition read_text :: "files \<Rightarrow> bytes \<Rightarrow> bytes option" where
  "read_text fs f = (case fs f of Some bs \<Rightarrow> if valid_utf8 bs then Some bs else None | None \<Rightarrow> None)"

text \<open>\<open>ExitCode::SUCCESS\<close> and \<open>ExitCode::FAILURE\<close> of a command that prints.\<close>

definition printed :: "'a result \<Rightarrow> status" where
  "printed r = (case r of Ok x \<Rightarrow> Exited 0 | Err e \<Rightarrow> Exited 1 | Panic \<Rightarrow> Aborted)"

definition cinderc_build :: "container \<Rightarrow> (bytes \<Rightarrow> bool) \<Rightarrow> bytes \<Rightarrow> bytes \<Rightarrow> files \<Rightarrow> (status \<times> files) option" where
  "cinderc_build k writable src out fs =
     map_option (\<lambda>r. (printed r, case r of Ok (f, bs) \<Rightarrow> fs(f \<mapsto> bs) | _ \<Rightarrow> fs))
       (run_build (k_seal k) (k_build k) (k_mark k) (k_to_bytes k) (read_text fs) writable src out)"

definition cinderc_run :: "container \<Rightarrow> bytes \<Rightarrow> files \<Rightarrow> status option" where
  "cinderc_run k f fs = (case fs f of
     None \<Rightarrow> Some (Exited 1)
   | Some bs \<Rightarrow> map_option exit_status
       (run_image (k_from_bytes k) (k_verified k) (k_seal k) (k_build k) (k_mark k) bs))"

definition cinderc_main ::
    "container \<Rightarrow> (bytes \<Rightarrow> bool) \<Rightarrow> bytes list \<Rightarrow> files \<Rightarrow> (status \<times> files) option" where
  "cinderc_main k writable args fs = (case cinderc_command args of
     BuildFile src out \<Rightarrow> cinderc_build k writable src out fs
   | RunFile f trace \<Rightarrow> map_option (\<lambda>e. (e, fs)) (cinderc_run k f fs)
   | DisFile f \<Rightarrow> Some (printed (disassemble (k_from_bytes k) (k_name k) (fs f)), fs)
   | UnknownCommand a \<Rightarrow> Some (Exited 1, fs)
   | _ \<Rightarrow> Some (Exited 0, fs))"

text \<open>\<open>cinder run\<close> starts \<open>cinderc run\<close>, if there is one, and passes its exit code on, 1 when there is
  none because it was killed (\<open>status.code().unwrap_or(1)\<close>).\<close>

definition passed_on :: "status \<Rightarrow> status" where
  "passed_on st = Exited (case st of Exited c \<Rightarrow> c | Aborted \<Rightarrow> 1)"

definition cinder_main ::
    "container \<Rightarrow> bool \<Rightarrow> (bytes \<Rightarrow> bool) \<Rightarrow> bytes list \<Rightarrow> files \<Rightarrow> (status \<times> files) option" where
  "cinder_main k installed writable args fs = (case cinder_command args of
     StartCinderc f \<Rightarrow>
       (if installed then map_option (map_prod passed_on id) (cinderc_main k writable [ascii ''run'', f] fs)
        else Some (Exited 1, fs))
   | ExplainCode c \<Rightarrow> Some (Exited (if \<exists>x\<in>set all_codes. ascii (as_str x) = c then 0 else 1), fs)
   | CinderUnknown a \<Rightarrow> Some (Exited 1, fs)
   | _ \<Rightarrow> Some (Exited 0, fs))"

section \<open>They end, and write one file at most\<close>

lemma obind_returns:
  assumes "\<exists>r. m = Some r" and "\<And>x. \<exists>r. f x = Some r"
  shows "\<exists>r. obind m f = Some r"
proof -
  obtain r where "m = Some r" using assms(1) by blast
  with assms(2) show ?thesis by (cases r) simp_all
qed

lemma run_image_returns: "\<exists>r. run_image from_bytes is_verified seal_check build_image mark_verified bs = Some r"
proof -
  have check: "\<exists>r. reload_check seal_check build_image mark_verified = Some r"
  proof -
    obtain q where "admit seal_check build_image mark_verified
        (case assemble (ascii ''reload.cdx'') [] of Ok x \<Rightarrow> x | _ \<Rightarrow> obj_default) = Some q" using admit_returns by blast
    then show ?thesis
      by (cases "assemble (ascii ''reload.cdx'') []"; cases q) (simp_all add: reload_check_def Let_def)
  qed
  have run: "\<exists>r. obind (Some (vm_new im limits_default)) run_vm = Some r" for im
  proof (cases "vm_new im limits_default")
    case (Ok s)
    with run_vm_returns [OF Ok] show ?thesis by (simp add: limits_default_def)
  qed simp_all
  have "\<exists>r. (if b then Some (Ok ()) else reload_check seal_check build_image mark_verified) = Some r" for b
    using check by simp
  then show ?thesis unfolding run_image_def by (intro obind_returns run) auto
qed

lemma run_build_returns: "\<exists>r. run_build seal_check build_image mark_verified to_bytes read_file writable src out = Some r"
proof (cases "read_file src")
  case (Some content)
  show ?thesis
  proof (cases "assemble src content")
    case (Ok x)
    obtain q where "admit seal_check build_image mark_verified x = Some q" using admit_returns by blast
    with Some Ok show ?thesis by (cases q) (simp_all add: run_build_def)
  qed (use Some in \<open>simp_all add: run_build_def\<close>)
qed (simp add: run_build_def fail_def)

lemma cinderc_run_returns: "\<exists>st. cinderc_run k f fs = Some st"
  using run_image_returns by (auto simp: cinderc_run_def split: option.split)

theorem cinderc_main_returns:
  "\<exists>e fs'. cinderc_main k writable args fs = Some (e, fs') \<and>
     (\<forall>f. fs' f \<noteq> fs f \<longrightarrow> writable f \<and> (\<exists>src. cinderc_command args = BuildFile src f))"
proof -
  have out: "run_build sc bi mv tb rf w src out = Some (Ok (f, bs)) \<Longrightarrow> f = out \<and> w out" for sc bi mv tb rf w src out f bs
    by (auto simp: run_build_def obind_Some_Ok split: if_splits)
  show ?thesis
  proof (cases "cinderc_command args")
    case (BuildFile src f)
    obtain r where r: "run_build (k_seal k) (k_build k) (k_mark k) (k_to_bytes k) (read_text fs) writable src f = Some r"
      using run_build_returns by blast
    show ?thesis
    proof (cases r)
      case (Ok x)
      with out r have "fst x = f" "writable f" by (metis prod.collapse)+
      with r Ok BuildFile show ?thesis
        by (auto simp: cinderc_main_def cinderc_build_def split: prod.splits if_splits)
    qed (use r BuildFile in \<open>simp_all add: cinderc_main_def cinderc_build_def\<close>)
  next
    case (RunFile f trace)
    with cinderc_run_returns [of k f fs] show ?thesis by (auto simp: cinderc_main_def)
  qed (simp_all add: cinderc_main_def)
qed

lemma run_command: "cinderc_command [ascii ''run'', f] = RunFile f (f = ascii ''--trace'')"
proof -
  have "ascii ''run'' \<noteq> ascii ''--trace''"
    "ascii ''run'' \<notin> {ascii ''--help'', ascii ''-h'', ascii ''--version'', ascii ''--emit-isa-md'', ascii ''build''}"
    by code_simp+
  then show ?thesis by (auto simp: cinderc_command_def arg_or_def nth_get_def)
qed

text \<open>\<open>cinder\<close> always has an exit code, and writes nothing.\<close>

theorem cinder_main_returns: "\<exists>c. cinder_main k installed writable args fs = Some (Exited c, fs)"
proof (cases "\<exists>f. cinder_command args = StartCinderc f \<and> installed")
  case True
  then obtain f where f: "cinder_command args = StartCinderc f" installed by blast
  obtain st where "cinderc_run k f fs = Some st" using cinderc_run_returns by blast
  with f show ?thesis by (simp add: cinder_main_def cinderc_main_def run_command passed_on_def)
next
  case False
  then show ?thesis by (auto simp: cinder_main_def split: cinder_request.split)
qed

section \<open>From the source file to the exit code\<close>

text \<open>\<open>cinderc build\<close> and then \<open>cinderc run\<close>, in the file system that the first has left.\<close>

lemma build_command:
  assumes "src \<noteq> ascii ''-o''"
  shows "cinderc_command [ascii ''build'', src, ascii ''-o'', out] = BuildFile src out"
proof -
  have "ascii ''build'' \<noteq> ascii ''-o''"
    "ascii ''build'' \<notin> {ascii ''--help'', ascii ''-h'', ascii ''--version'', ascii ''--emit-isa-md''}"
    by code_simp+
  with assms show ?thesis
    by (auto simp: cinderc_command_def after_flag_def arg_or_def nth_get_def upt_conv_Cons)
qed

lemma cinder_run_command: "cinder_command [ascii ''run'', out] = StartCinderc out"
proof -
  have "ascii ''run'' \<notin> {ascii ''--help'', ascii ''-h'', ascii ''--version'', ascii ''explain''}" by code_simp
  then show ?thesis by (simp add: cinder_command_def arg_or_def nth_get_def)
qed

theorem build_then_run_files:
  assumes "written mx lns content" and "lines_mean lns ([], []) = Some (ls, xs)"
    and "plain_straight (map decoded_of xs)" and "mx \<noteq> 0"
    and "scan [(ascii ''main'', 0)] 0 0 mx 0 (map decoded_of xs) (0, []) = Ok ()" and "length xs \<le> 1000000"
    and "k_seal k (emitted xs) = Ok ()" and "keeps_parts (k_build k) (k_mark k)"
    and "k_from_bytes k (k_to_bytes k (k_mark k (k_build k (main_obj src mx xs)))) =
      Ok (k_mark k (k_build k (main_obj src mx xs)))"
    and "\<And>im. k_verified k (k_mark k im)"
    and "fs src = Some content" and "valid_utf8 content" and "writable out" and "src \<noteq> ascii ''-o''"
  shows "\<exists>fs' n st. cinderc_main k writable [ascii ''build'', src, ascii ''-o'', out] fs = Some (Exited 0, fs') \<and>
     calc_all (butlast (map decoded_of xs)) [] = Some (n # st) \<and>
     cinderc_main k writable [ascii ''run'', out] fs' = Some (exit_status (Ok n), fs') \<and>
     cinder_main k True writable [ascii ''run'', out] fs' = Some (exit_status (Ok n), fs')"
proof -
  have "read_text fs src = Some content" using assms(11,12) by (simp add: read_text_def)
  from build_then_run [where seal_check = "k_seal k" and build_image = "k_build k" and mark_verified = "k_mark k"
      and to_bytes = "k_to_bytes k" and from_bytes = "k_from_bytes k" and is_verified = "k_verified k"
      and read_file = "read_text fs" and can_write = writable, OF assms(1-8,9) this assms(13,10)]
  obtain bs n st where b: "run_build (k_seal k) (k_build k) (k_mark k) (k_to_bytes k) (read_text fs) writable src out =
      Some (Ok (out, bs))" "calc_all (butlast (map decoded_of xs)) [] = Some (n # st)"
    "run_image (k_from_bytes k) (k_verified k) (k_seal k) (k_build k) (k_mark k) bs = Some (Ok n)" by blast
  let ?fs = "fs(out \<mapsto> bs)"
  have "cinderc_main k writable [ascii ''build'', src, ascii ''-o'', out] fs = Some (Exited 0, ?fs)"
    using b(1) by (simp add: cinderc_main_def build_command [OF assms(14)] cinderc_build_def printed_def)
  moreover have run: "cinderc_main k writable [ascii ''run'', out] ?fs = Some (exit_status (Ok n), ?fs)"
    using b(3) by (simp add: cinderc_main_def run_command cinderc_run_def)
  moreover have "cinder_main k True writable [ascii ''run'', out] ?fs = Some (exit_status (Ok n), ?fs)"
    using run by (simp add: cinder_main_def cinder_run_command passed_on_def exit_status_def)
  ultimately show ?thesis using b(2) by blast
qed

text \<open>Any text that is assembled and admitted is built, and \<open>run\<close> runs the image of it.\<close>

lemma build_admitted:
  assumes "fs src = Some content" and "valid_utf8 content" and "writable out" and "src \<noteq> ascii ''-o''"
    and "assemble src content = Ok x" and "admit (k_seal k) (k_build k) (k_mark k) x = Some (Ok im)"
  shows "cinderc_main k writable [ascii ''build'', src, ascii ''-o'', out] fs = Some (Exited 0, fs(out \<mapsto> k_to_bytes k im))"
  using assms
  by (simp add: cinderc_main_def build_command cinderc_build_def run_build_def read_text_def printed_def)

lemma run_built:
  assumes "k_from_bytes k (k_to_bytes k im) = Ok im" and "k_verified k im" and "fs out = Some (k_to_bytes k im)"
    and "vm_new im limits_default = Ok s" and "run_vm s = Some r"
  shows "cinderc_main k writable [ascii ''run'', out] fs = Some (exit_status r, fs)"
    and "cinder_main k True writable [ascii ''run'', out] fs = Some (passed_on (exit_status r), fs)"
proof -
  from assms show run: "cinderc_main k writable [ascii ''run'', out] fs = Some (exit_status r, fs)"
    by (simp add: cinderc_main_def run_command cinderc_run_def run_image_def)
  show "cinder_main k True writable [ascii ''run'', out] fs = Some (passed_on (exit_status r), fs)"
    by (simp add: cinder_main_def cinder_run_command run)
qed

text \<open>The exit code of an accepted program of integer instructions and branches is what the reference
  machine \<open>play\<close> halts with, as a byte, and 1 where that fails.\<close>

definition play_status :: "move \<Rightarrow> status" where
  "play_status m = (case m of Halts n \<Rightarrow> exit_status (Ok n) | _ \<Rightarrow> Exited 1)"

lemma play_status_passed_on: "passed_on (play_status m) = play_status m"
  by (simp add: play_status_def passed_on_def exit_status_def split: move.split)

theorem integer_file_runs:
  assumes "fs src = Some content" and "valid_utf8 content" and "writable out" and "src \<noteq> ascii ''-o''"
    and "assemble src content = Ok x" and "admit (k_seal k) (k_build k) (k_mark k) x = Some (Ok im)"
    and "keeps_parts (k_build k) (k_mark k)" and "k_from_bytes k (k_to_bytes k im) = Ok im" and "k_verified k im"
    and "o_funcs x = [f]" and "decode_range (o_code x) f = Ok (ds, ats)"
    and "\<forall>d\<in>set ds. d_len d = 4 \<and> d_op d \<in> set jump_ops"
  shows "\<exists>fs' e. cinderc_main k writable [ascii ''build'', src, ascii ''-o'', out] fs = Some (Exited 0, fs') \<and>
     e = play_status (play 1000000 (unat (fm_maxstack f)) ds 0 []) \<and>
     cinderc_main k writable [ascii ''run'', out] fs' = Some (e, fs') \<and>
     cinder_main k True writable [ascii ''run'', out] fs' = Some (e, fs')"
proof -
  let ?fs = "fs(out \<mapsto> k_to_bytes k im)"
  have "img_funcs im = [f]"
    using assms(7,10) admit_Ok(1) [OF assms(6)] by (auto simp: keeps_parts_def)
  then have "vm_new im limits_default \<noteq> Panic" by (simp add: vm_new_panic)
  then obtain s where s: "vm_new im limits_default = Ok s"
    by (cases "vm_new im limits_default") (auto simp: vm_new_def Let_def split: option.splits)
  have lim: "max_steps limits_default \<noteq> -1" "max_steps limits_default = 1000000" by (simp_all add: limits_default_def)
  from admitted_integer_program_runs [OF assms(6,7) s _ lim(1)] assms(10-12) lim(2) obtain r t where
    r: "vm_step None s = Some (r, t)" "ends (play 1000000 (unat (fm_maxstack f)) ds 0 []) r" by fastforce
  have "\<exists>q. run_vm s = Some q \<and> exit_status q = play_status (play 1000000 (unat (fm_maxstack f)) ds 0 [])"
    using r by (auto simp: ends_def play_status_def exit_status_def run_vm.simps [of s] split: move.splits)
  then obtain q where q: "run_vm s = Some q" "exit_status q = play_status (play 1000000 (unat (fm_maxstack f)) ds 0 [])"
    by blast
  from run_built [OF assms(8,9) _ s q(1), of ?fs out] build_admitted [where k = k and fs = fs and src = src and writable = writable, OF assms(1-6)] q(2) show ?thesis
    by (simp add: play_status_passed_on)
qed

end
