(* ===== verification/CV_Wire.thy ===== *)
theory CV_Wire
  imports CV_Diag CV_Text
begin

text \<open>
  The supervisor protocol, \<open>src/src/wire.rs\<close>: length-prefixed frames. A string is its UTF-8
  bytes; \<open>decode_wire\<close> slices the body without checking its length, so a frame shorter than
  its kind requires is a panic.
\<close>

definition WIRE_VERSION :: u8 where
  "WIRE_VERSION = 1"

datatype message = Hello bytes | MsgTrap u64 u8 | MsgAnswer u64 bytes | MsgSnapshot | MsgShutdown

definition wire_body :: "message \<Rightarrow> bytes" where
  "wire_body m = [WIRE_VERSION] @ (case m of
     Hello name \<Rightarrow> [0] @ u32_le (of_nat (length name)) @ name
   | MsgTrap seq kind \<Rightarrow> [1] @ u64_le seq @ [kind]
   | MsgAnswer seq payload \<Rightarrow> [2] @ u64_le seq @ u32_le (of_nat (length payload)) @ payload
   | MsgSnapshot \<Rightarrow> [3]
   | MsgShutdown \<Rightarrow> [4])"

definition encode_wire :: "message \<Rightarrow> bytes" where
  "encode_wire m = (let body = wire_body m in u32_le (of_nat (length body)) @ body)"

text \<open>\<open>body[lo..hi]\<close> and \<open>body[i]\<close>: panic out of range.\<close>

definition index_range :: "'a list \<Rightarrow> nat \<Rightarrow> nat \<Rightarrow> 'a list result" where
  "index_range xs lo hi = (case slice_get xs lo hi of None \<Rightarrow> Panic | Some ys \<Rightarrow> Ok ys)"

definition index_at :: "'a list \<Rightarrow> nat \<Rightarrow> 'a result" where
  "index_at xs i = (if i < length xs then Ok (xs ! i) else Panic)"

definition decode_body :: "bytes \<Rightarrow> message result" where
  "decode_body body =
     rbind (index_at body 1) (\<lambda>kind.
       if kind = 0 then
         rbind (index_range body 2 6) (\<lambda>nb. let n = unat (u32_of_le nb) in
         rbind (index_range body 6 (6 + n)) (\<lambda>name.
         if valid_utf8 name then Ok (Hello name) else fail RecordMalformed))
       else if kind = 1 then
         rbind (index_range body 2 10) (\<lambda>sb.
         rbind (index_at body 10) (\<lambda>k. Ok (MsgTrap (u64_of_le sb) k)))
       else if kind = 2 then
         rbind (index_range body 2 10) (\<lambda>sb.
         rbind (index_range body 10 14) (\<lambda>nb. let n = unat (u32_of_le nb) in
         rbind (index_range body 14 (14 + n)) (\<lambda>p. Ok (MsgAnswer (u64_of_le sb) p))))
       else if kind = 3 then Ok MsgSnapshot
       else if kind = 4 then Ok MsgShutdown
       else fail RecordMalformed)"

definition decode_wire :: "bytes \<Rightarrow> (message \<times> nat) option result" where
  "decode_wire buf =
     (if length buf < 4 then Ok None
      else let len = unat (u32_of_le (take 4 buf))
           in if length buf < 4 + len then Ok None
              else let body = take len (drop 4 buf)
                   in if body = [] \<or> body ! 0 \<noteq> WIRE_VERSION then fail RecordMalformed
                      else rbind (decode_body body) (\<lambda>msg. Ok (Some (msg, 4 + len))))"

text \<open>Messages the protocol can carry: the name is a string, the counts fit thirty-two bits.\<close>

definition wire_ok :: "message \<Rightarrow> bool" where
  "wire_ok m \<longleftrightarrow> length (wire_body m) \<le> u32_max \<and> (case m of Hello name \<Rightarrow> valid_utf8 name | _ \<Rightarrow> True)"

lemma unat_u32_of_nat: "n \<le> u32_max \<Longrightarrow> unat (of_nat n :: u32) = n"
  by (simp add: unat_of_nat u32_max_def)

lemma decode_body_wire_body:
  assumes "wire_ok m"
  shows "decode_body (wire_body m) = Ok m"
proof (cases m)
  case (Hello name)
  with assms have "length name \<le> u32_max" "valid_utf8 name" by (auto simp: wire_ok_def wire_body_def)
  with Hello show ?thesis
    by (simp add: decode_body_def wire_body_def index_at_def index_range_def slice_get_def
        unat_u32_of_nat Let_def)
next
  case (MsgAnswer seq p)
  with assms have "length p \<le> u32_max" by (auto simp: wire_ok_def wire_body_def)
  with MsgAnswer show ?thesis
    by (simp add: decode_body_def wire_body_def index_at_def index_range_def slice_get_def
        unat_u32_of_nat Let_def)
qed (simp_all add: decode_body_def wire_body_def index_at_def index_range_def slice_get_def nth_append)

lemma decode_encode_wire:
  assumes "wire_ok m"
  shows "decode_wire (encode_wire m @ rest) = Ok (Some (m, length (encode_wire m)))"
proof -
  have "length (wire_body m) \<le> u32_max" using assms by (simp add: wire_ok_def)
  moreover have "wire_body m \<noteq> []" "wire_body m ! 0 = WIRE_VERSION" by (simp_all add: wire_body_def)
  ultimately show ?thesis
    using decode_body_wire_body [OF assms]
    by (simp add: decode_wire_def encode_wire_def Let_def unat_u32_of_nat)
qed

lemma decode_partial_wire:
  assumes "wire_ok m" and "n < length (encode_wire m)"
  shows "decode_wire (take n (encode_wire m)) = Ok None"
proof (cases "n < 4")
  case False
  have len: "length (wire_body m) \<le> u32_max" using assms by (simp add: wire_ok_def)
  from False have "take 4 (take n (encode_wire m)) = u32_le (of_nat (length (wire_body m)))"
    by (simp add: encode_wire_def Let_def min_def)
  with assms(2) False len show ?thesis
    by (simp add: decode_wire_def Let_def unat_u32_of_nat encode_wire_def)
next
  case True
  then have "length (take n (encode_wire m)) < 4" by simp
  then show ?thesis by (simp add: decode_wire_def del: length_take)
qed

text \<open>A frame announcing one byte, holding only the version: the kind byte is read past its end.\<close>

lemma decode_wire_short_body: "decode_wire (u32_le 1 @ [WIRE_VERSION]) = Panic"
  by (simp add: decode_wire_def Let_def decode_body_def index_at_def)

end
