(* ===== verification/CV_Instances.thy ===== *)
theory CV_Instances
  imports CV_Cont CV_Programs CV_Replay CV_Wire
begin

text \<open>
  Concrete machines, images and journals on which the theorems about the components are applied.
\<close>

text \<open>The program \<open>2 + 3\<close>, a started machine for it, and machines with chosen operands.\<close>

definition sum_vm :: vm where
  "sum_vm = (case vm_new (sum_image 2 3) limits_default of Ok s \<Rightarrow> s | _ \<Rightarrow> demo_vm (sum_image 2 3) [] [] 0)"

definition ins :: "op \<Rightarrow> u32 \<Rightarrow> decoded" where
  "ins x b = \<lparr>d_op = x, d_a = 0, d_b = b, d_len = 4\<rparr>"

lemma ins_sel [simp]: "d_op (ins x b) = x" "d_b (ins x b) = b" "d_a (ins x b) = 0"
  by (simp_all add: ins_def)

lemma sum_vm_new: "vm_new (sum_image 2 3) limits_default = Ok sum_vm"
proof -
  have "\<exists>s. vm_new (sum_image 2 3) limits_default = Ok s"
    by (simp add: vm_new_def sum_image_def nth_get_def)
  then show ?thesis by (auto simp: sum_vm_def)
qed

lemma sum_vm_live: "vm_live sum_vm"
  by (rule vm_new_live [OF sum_vm_new])

lemma sum_vm_sel: "vm_image sum_vm = sum_image 2 3" "limits sum_vm = limits_default"
  using vm_new_sel [OF sum_vm_new] by auto

lemma limits_default_small: "max_steps limits_default < 0xFFFFFFFFFFFFFFFF"
  by (simp add: limits_default_def)

definition text_vm :: "bytes \<Rightarrow> bytes \<Rightarrow> vm" where
  "text_vm xs ys = demo_vm (sum_image 2 3) (xs @ ys)
     [v_str (handle_new 0 (of_nat (length xs))), v_str (handle_new (of_nat (length xs)) (of_nat (length ys)))] 1"

lemma text_vm_runs: "runs (text_vm xs ys) [] (last (frames (text_vm xs ys)))
   [v_str (handle_new 0 (of_nat (length xs))), v_str (handle_new (of_nat (length xs)) (of_nat (length ys)))]"
  by (simp add: text_vm_def demo_runs)

definition snap_vm :: vm where
  "snap_vm = demo_vm (sum_image 2 3) [104, 105, 0, 0, 0, 0, 0, 0] [v_int 4, v_str (handle_new 0 2)] 1"

lemma snap_vm_ok: "snapshottable snap_vm"
  by (simp add: snap_vm_def snapshottable_def arena_len_def arena_from_bytes_def u32_max_def
      snap_frame_ok_def demo_frame_def slot_ok_def VOID_def v_int_def v_str_def handle_unchecked_def
      handle_new_def handle_end_def)

lemma seq_vm_runs:
  "fst (exec_seq [ins OpFork 0, ins OpArgv 0, ins OpCommit 0] (demo_vm (sum_image 2 3) [] [] 4)) = Ok ()"
  "fst (exec_seq [ins OpFork 0, ins OpArgv 0, ins OpAbort 0] (demo_vm (sum_image 2 3) [] [] 4)) = Ok ()"
  by (simp_all add: run_defs exec_def adv_def ex_fork_def ex_argv_def ex_commit_def ex_abort_def push_val_def
      bump_pc_def demo_vm_def demo_frame_def arena_from_bytes_def aligned_len_def u32_max_def)

definition call_image :: image where
  "call_image = (sum_image 2 3)\<lparr>
     img_funcs := img_funcs (sum_image 2 3) @ [\<lparr>fm_name = ascii ''f'', fm_code_off = 8, fm_code_len = 8,
       fm_maxstack = 1, fm_args = 0, fm_returns = 0\<rparr>],
     img_code := assemble_ops [(OpCall, 0, 1), (OpHalt, 0, 0), (OpNop, 0, 0), (OpRet, 0, 0)]\<rparr>"

definition now_image :: image where
  "now_image = (sum_image 2 3)\<lparr>img_code := assemble_ops [(OpNow, 0, 0), (OpHalt, 0, 0)]\<rparr>"

lemma pack_vm_ok:
  "\<exists>s1. ex_pack 2 (demo_vm (sum_image 2 3) [] [v_int 1, v_int 2, v_int 3] 0) = (Ok (), s1)"
proof -
  have "fst (ex_pack 2 (demo_vm (sum_image 2 3) [] [v_int 1, v_int 2, v_int 3] 0)) = Ok ()"
    by (simp add: run_defs ex_pack_def push_val_def demo_vm_def demo_frame_def arena_from_bytes_def
        aligned_len_def u32_max_def value_write_append SLOT_LEN_def)
  then show ?thesis by (metis prod.collapse)
qed

definition log_journal :: journal where
  "log_journal = append_all [(KIND_LOG, [1, 2]), (KIND_ORACLE, [3])] journal_new"

lemma log_journal_ok: "journal_fits log_journal" "verify_chain log_journal = Ok ()"
proof -
  show "verify_chain log_journal = Ok ()" by (simp add: log_journal_def verify_append_all)
  show "journal_fits log_journal"
    by (simp add: log_journal_def append_all_def journal_append_def journal_new_def Let_def
        journal_fits_def u32_max_def)
qed

lemma wire_hello_ok: "wire_ok (Hello [104, 105])"
  by (simp add: wire_ok_def wire_body_def u32_max_def valid_utf8_ascii)

end
