(* ===== verification/CV_Further.thy ===== *)
theory CV_Further
  imports CV_Instances
begin

text \<open>
  Further facts about single components, each with an instance where it has a hypothesis.
\<close>

section \<open>The machine is safe and returns\<close>

text \<open>\<open>Vm::new\<close> starts a well-formed machine in the function named \<open>main\<close>, or the first
  one, and panics exactly on an image without functions.\<close>

theorem vm_new_starts:
  "case vm_new im lim of
     Ok s \<Rightarrow> vm_live s \<and> img_funcs im \<noteq> [] \<and> vm_image s = im \<and> limits s = lim \<and>
       unat (func (last (frames s))) < length (img_funcs im)
   | Err _ \<Rightarrow> False
   | Panic \<Rightarrow> img_funcs im = []"
proof (cases "vm_new im lim")
  case (Ok s)
  then have "img_funcs im \<noteq> []" "vm_image s = im" "limits s = lim"
    using vm_new_panic [of im lim] vm_new_sel [OF Ok] by auto
  with vm_new_live [OF Ok] Ok show ?thesis
    by (auto simp: vm_live_def vm_wf_def frame_ok_def)
next
  case (Err e)
  then show ?thesis by (auto simp: vm_new_def Let_def split: option.splits)
next
  case Panic
  moreover from this have "img_funcs im = []" by (simp add: vm_new_panic)
  ultimately show ?thesis by simp
qed

section \<open>What instructions compute\<close>

text \<open>\<open>div\<close> and \<open>mod\<close> by zero fail with \<open>E_DIV0\<close> whatever the dividend.\<close>

theorem exec_division_by_zero:
  assumes "d_op d \<in> {OpDiv, OpMod}" and "runs s fs f (vs @ [v_int a, v_int 0])"
  shows "fst (exec d s) = fail DivideByZero"
  using assms by (rule exec_div_zero)

lemma exec_division_by_zero_witness:
  "fst (exec (ins OpMod 0) (demo_vm (sum_image 2 3) [] [v_int 1, v_int 0] 0)) = fail DivideByZero"
  by (rule exec_division_by_zero [of _ _ "[]" "demo_frame [v_int 1, v_int 0] 0" "[]" 1])
    (use demo_runs [of "[v_int 1, v_int 0]" 0] in simp_all)

text \<open>The program \<open>ldi m; ldi n; add; halt\<close>, encoded to bytes by \<open>encode\<close>, loaded by
  \<open>Vm::new\<close> and run by one \<open>step\<close>, halts with the sum of the sign-extended immediates under
  every limit of at least four steps.\<close>

theorem sum_program_halts:
  assumes "4 \<le> max_steps lim"
  shows "\<exists>s t. vm_new (sum_image m n) lim = Ok s \<and>
     vm_step None s = Some (Ok (Halted (scast m + scast n)), t) \<and> frames t = []"
  using assms by (rule sum_program_runs)

lemma sum_program_halts_witness:
  "\<exists>s t. vm_new (sum_image 2 3) limits_default = Ok s \<and>
     vm_step None s = Some (Ok (Halted 5), t) \<and> frames t = []"
  using sum_program_halts [of limits_default 2 3] by (simp add: limits_default_def)

text \<open>\<open>find\<close> with an empty needle panics, in the standard library's \<open>windows(0)\<close>.\<close>

theorem find_empty_needle_panics:
  assumes "d_op d = OpFind" and "runs s fs f (vs @ [v_str hay, v_str needle])"
    and "arena_get (arena s) hay = Ok hs" and "arena_get (arena s) needle = Ok []"
  shows "fst (exec d s) = Panic"
proof -
  obtain t where "ex_find s = (Panic, t)"
    using find_view(1) [OF assms(2-4)] by (metis prod.collapse)
  with assms(1) show ?thesis by (simp add: exec_def adv_def sthen_def sbind_def sget_def)
qed

lemma find_empty_needle_panics_witness: "fst (exec (ins OpFind 0) (text_vm [1, 2] [])) = Panic"
proof -
  have "arena_get (arena (text_vm [1, 2] [])) (handle_new 0 2) = Ok [1, 2]"
    and "arena_get (arena (text_vm [1, 2] [])) (handle_new 2 0) = Ok []"
    by (simp_all add: text_vm_def arena_from_bytes_def arena_get_def slice_get_def handle_new_def
        handle_end_def u32_max_def)
  with find_empty_needle_panics [of "ins OpFind 0" "text_vm [1, 2] []" "[]" _ "[]" "handle_new 0 2"
      "handle_new 2 0" "[1, 2]"] text_vm_runs [of "[1, 2]" "[]"]
  show ?thesis by simp
qed

section \<open>Snapshots\<close>

text \<open>\<open>restore\<close> does not compare a frame's function with the image: a snapshot whose top
  frame names a function the image does not have is accepted, and the next \<open>step\<close> panics.\<close>

theorem restore_function_unchecked:
  assumes "snapshottable s" and "frames s \<noteq> []"
    and "length (img_funcs (vm_image t)) \<le> unat (func (last (frames s)))"
    and "pending t = None" and "halt t = None" and "steps t < max_steps (limits t)"
  shows "\<exists>bs t1 t2. snapshot s = Ok bs \<and> restore bs t = (Ok (), t1) \<and> vm_step None t1 = Some (Panic, t2)"
  using assms by (rule restored_function_unchecked)

lemma restore_function_unchecked_witness:
  "\<exists>bs t1 t2. snapshot (snap_vm\<lparr>frames := [(demo_frame [] 1)\<lparr>func := 1\<rparr>]\<rparr>) = Ok bs \<and>
     restore bs (demo_vm (sum_image 2 3) [] [] 1) = (Ok (), t1) \<and> vm_step None t1 = Some (Panic, t2)"
  by (rule restore_function_unchecked)
    (simp_all add: snap_vm_def snapshottable_def arena_len_def arena_from_bytes_def u32_max_def
      snap_frame_ok_def demo_frame_def slot_ok_def VOID_def sum_image_def limits_default_def)

section \<open>The arena across instructions, and forks\<close>

text \<open>\<open>abort\<close> keeps every arena write made since its \<open>fork\<close>: the arena is the one built up so
  far, which only grew since before the fork.\<close>

theorem fork_abort_keeps:
  assumes "d_op df = OpFork" and "d_op da = OpAbort" and "list_all (\<lambda>d. d_op d \<noteq> OpCommit) ds"
    and "exec_seq (df # ds) s = (Ok (), u)" and "exec da u = (Ok (), t)"
  shows "arena t = arena u \<and> arena_grows s t \<and> staged t = None \<and> fork_depth t = 0"
  using assms by (rule fork_then_abort)

lemma fork_abort_keeps_witness:
  "\<exists>u t. exec_seq (ins OpFork 0 # [ins OpArgv 0]) (demo_vm (sum_image 2 3) [] [] 4) = (Ok (), u) \<and>
     exec (ins OpAbort 0) u = (Ok (), t) \<and> arena t = arena u"
proof -
  obtain t where "exec_seq [ins OpFork 0, ins OpArgv 0, ins OpAbort 0] (demo_vm (sum_image 2 3) [] [] 4) = (Ok (), t)"
    using seq_vm_runs(2) by (metis prod.collapse)
  then obtain u where u: "exec_seq (ins OpFork 0 # [ins OpArgv 0]) (demo_vm (sum_image 2 3) [] [] 4) = (Ok (), u)"
    "exec (ins OpAbort 0) u = (Ok (), t)"
    by (auto simp: sthen_def sbind_def sret_def split: prod.splits res.splits)
  from fork_abort_keeps [OF _ _ _ u] u show ?thesis by auto
qed

section \<open>Calls, traps and slots\<close>

text \<open>No machine started by \<open>Vm::new\<close> ever has frame-local slots: \<open>ldl\<close> and \<open>stl\<close> fail with
  \<open>E_UNDERFLOW\<close> on every well-formed machine.\<close>

theorem local_slots_never_exist:
  assumes "vm_live s" and "d_op d \<in> {OpLdl, OpStl}"
  shows "fst (exec d s) = fail StackUnderflow"
  using assms by (rule local_slots_absent)

lemma local_slots_never_exist_witness: "fst (exec (ins OpLdl 0) sum_vm) = fail StackUnderflow"
  by (rule local_slots_never_exist) (simp_all add: sum_vm_live)

text \<open>A tool receives exactly the operands that were packed for it, under the next effect
  identifier, and the program is left with that pending effect on top.\<close>

theorem tool_receives_packed:
  assumes "runs s fs f (vs @ ws)" and "ex_pack (length ws) s = (Ok (), s1)"
  shows "\<exists>s2 f2. ex_calltool tool s1 = (Ok False, s2) \<and>
     pending s2 = Some (TrapEffect (EffectId (next_effect s1)) tool ws) \<and>
     next_effect s2 = next_effect s1 + 1 \<and>
     runs s2 fs f2 (vs @ [v_pending (EffectId (next_effect s1))])"
proof -
  from assms obtain h f1 where "runs s1 fs f1 (vs @ [v_list h])" "get_list (arena s1) h = Ok ws"
    by (rule pack_view)
  from calltool_traps [OF this, of tool] show ?thesis by (auto simp: runs_def)
qed

lemma tool_receives_packed_witness:
  "\<exists>s1 s2. ex_pack 2 (demo_vm (sum_image 2 3) [] [v_int 1, v_int 2, v_int 3] 0) = (Ok (), s1) \<and>
     ex_calltool 4 s1 = (Ok False, s2) \<and>
     pending s2 = Some (TrapEffect (EffectId (next_effect s1)) 4 [v_int 2, v_int 3])"
proof -
  obtain s1 where s1: "ex_pack 2 (demo_vm (sum_image 2 3) [] [v_int 1, v_int 2, v_int 3] 0) = (Ok (), s1)"
    using pack_vm_ok by blast
  have "runs (demo_vm (sum_image 2 3) [] [v_int 1, v_int 2, v_int 3] 0) []
      (demo_frame [v_int 1, v_int 2, v_int 3] 0) ([v_int 1] @ [v_int 2, v_int 3])"
    using demo_runs [of "[v_int 1, v_int 2, v_int 3]" 0] by simp
  from tool_receives_packed [OF this, of s1 4] s1 show ?thesis by (auto simp: numeral_2_eq_2)
qed

section \<open>Metering and frames\<close>

text \<open>What is pushed onto a frame with room comes off by one \<open>pop_n\<close>, in order, and leaves
  the operands as they were; without room the push that overflows fails with \<open>E_MAXSTACK\<close>.\<close>

theorem frame_push_pop:
  assumes "frame_wf f"
  shows "if length vs \<le> stack_room f
     then \<exists>f'. sthen (push_all vs) (pop_n (length vs)) f = (Ok vs, f') \<and> frame_wf f' \<and> operands f' = operands f
     else \<exists>f'. push_all vs f = (fail MaxstackExceeded, f') \<and> frame_wf f'"
  using frame_stack.put_list_take_top [OF assms, of vs] frame_stack.put_list_full [OF assms, of vs]
  by (auto simp: push_all_stack)

lemma frame_push_pop_witness:
  "\<exists>f'. sthen (push_all [v_int 1, v_int 2]) (pop_n 2) (demo_frame [] 2) = (Ok [v_int 1, v_int 2], f') \<and>
     frame_wf f' \<and> operands f' = []"
proof -
  have "frame_wf (demo_frame [] 2)" "stack_room (demo_frame [] 2) = 2" "operands (demo_frame [] 2) = []"
    by (simp_all add: demo_frame_def frame_wf_def stack_room_def operands_def)
  with frame_push_pop [of "demo_frame [] 2" "[v_int 1, v_int 2]"] show ?thesis
    by (simp add: numeral_2_eq_2)
qed

section \<open>The arena\<close>

text \<open>After any number of allocations every one of the handles they returned reads back the
  bytes it was given, and what could be read before still can.\<close>

theorem arena_reads_back:
  assumes "arena_store.put_all bss a = (Ok hs, a')"
  shows "list_all2 (\<lambda>h bs. arena_get a' h = Ok bs) hs bss \<and>
     (\<forall>h bs. arena_get a h = Ok bs \<longrightarrow> arena_get a' h = Ok bs)"
  using arena_store.put_all_reads_back [OF assms] arena_store.put_all_keeps [OF assms] by blast

lemma arena_reads_back_witness:
  "\<exists>hs a'. arena_store.put_all [[1], [2, 3]] arena_new = (Ok hs, a') \<and>
     list_all2 (\<lambda>h bs. arena_get a' h = Ok bs) hs [[1], [2, 3]]"
proof -
  have "\<exists>hs a'. arena_store.put_all [[1], [2, 3]] arena_new = (Ok hs, a')"
    by (simp add: run_defs arena_new_def aligned_len_def u32_max_def)
  then obtain hs a' where r: "arena_store.put_all [[1], [2, 3]] arena_new = (Ok hs, a')" by blast
  from arena_reads_back [OF r] r show ?thesis by blast
qed

text \<open>A list of values written into the arena reads back as it was, and still does after any
  further allocations.\<close>

theorem list_survives_allocations:
  assumes "alloc_list vs a = (Ok h, a1)" and "arena_store.put_all bss a1 = (r, a2)"
  shows "get_list a1 h = Ok vs \<and> get_list a2 h = Ok vs"
proof
  show one: "get_list a1 h = Ok vs" using assms(1) by (rule get_list_alloc_list)
  have "arena_get a1 h = Ok raw \<Longrightarrow> arena_get a2 h = Ok raw" for raw
    using arena_store.put_all_keeps [OF assms(2)] .
  with one show "get_list a2 h = Ok vs"
    by (cases "arena_get a1 h") (auto simp: get_list_def)
qed

lemma list_survives_allocations_witness:
  "\<exists>h a1 r a2. alloc_list [v_int 5, v_bool True] arena_new = (Ok h, a1) \<and>
     arena_store.put_all [[1]] a1 = (r, a2) \<and> get_list a2 h = Ok [v_int 5, v_bool True]"
proof -
  have "fst (alloc_list [v_int 5, v_bool True] arena_new) \<noteq> fail ArenaExhausted"
    by (simp add: run_defs arena_new_def aligned_len_def u32_max_def value_write_append SLOT_LEN_def fail_def)
  then obtain h a1 where a1: "alloc_list [v_int 5, v_bool True] arena_new = (Ok h, a1)"
    by (cases rule: alloc_cases [of arena_new "foldl (\<lambda>buf v. value_write v buf) [] [v_int 5, v_bool True]"])
      (auto simp: alloc_list_def)
  obtain r a2 where a2: "arena_store.put_all [[1]] a1 = (r, a2)" by fastforce
  from list_survives_allocations [OF a1 a2] a1 a2 show ?thesis by blast
qed

section \<open>Encodings\<close>

text \<open>An immediate between \<open>-2 ^ 15\<close> and \<open>2 ^ 15 - 1\<close>, emitted in the narrow form, is the one
  \<open>ldi\<close> pushes. One between \<open>2 ^ 15\<close> and \<open>2 ^ 16 - 1\<close>, passed to \<open>encode\<close> as it is, also takes the
  narrow form and comes back negative.\<close>

theorem immediate_roundtrip:
  "(if - (2 ^ 15) \<le> sint n \<and> sint n < 2 ^ 15
    then imm \<lparr>d_op = OpLdi, d_a = 0, d_b = ucast (ucast (n :: i64) :: u16),
              d_len = encoded_len (ucast (ucast n :: u16))\<rparr> = n
    else True) \<and>
   (if 2 ^ 15 \<le> unat b \<and> unat b < 2 ^ 16
    then sint (imm \<lparr>d_op = OpLdi, d_a = 0, d_b = b, d_len = encoded_len b\<rparr>) = int (unat b) - 2 ^ 16
    else True)"
  using imm_narrow [of n OpLdi 0] imm_high [of b OpLdi 0] by simp

text \<open>The instruction table and its lookup agree: every opcode byte decodes to its opcode,
  every opcode finds its own row, bytes of no opcode (and the wide prefix) find none, and no two
  rows share a mnemonic.\<close>

theorem opcode_table_lookup:
  "op_from_byte (op_byte x) = Some x \<and> i_op (insn x) = x \<and>
   (case op_from_byte c of None \<Rightarrow> c \<notin> op_byte ` UNIV | Some y \<Rightarrow> op_byte y = c) \<and>
   op_from_byte WIDE_PREFIX = None \<and> (mnemonic (insn x) = mnemonic (insn y) \<longleftrightarrow> x = y)"
proof -
  have wide: "op_from_byte WIDE_PREFIX = None"
  proof (cases "op_from_byte WIDE_PREFIX")
    case (Some y)
    then show ?thesis using op_from_byte_SomeD op_byte_ne_wide by (force simp: WIDE_PREFIX_def)
  qed
  show ?thesis
    using wide op_from_byte_SomeD [of c] op_from_byte_op_byte
    by (auto simp: op_from_byte_op_byte insn_eq mnemonic_inj [unfolded insn_eq] split: option.split)
qed

text \<open>The stable text of a diagnostic code parses to that code, and no other text does.\<close>

theorem error_codes_roundtrip: "parse_code s = Some c \<longleftrightarrow> s = as_str c"
  using parse_as_str parse_code_SomeD by auto

text \<open>A value written to its sixteen-byte slot reads back, whatever follows; and what reads as
  a value has its tag byte first and its payload in bytes 8 to 15.\<close>

theorem slot_roundtrip:
  "value_read (value_write v [] @ rest) = Ok v \<and>
   (case value_read buf of
      Ok w \<Rightarrow> \<exists>pad rest. length pad = 7 \<and> buf = tag_byte (v_tag w) # pad @ u64_le (v_payload w) @ rest
    | Err e \<Rightarrow> dcode e = SnapshotCorrupt
    | Panic \<Rightarrow> False)"
proof -
  have "value_read buf = Err e \<Longrightarrow> dcode e = SnapshotCorrupt" for e
    by (cases "16 \<le> length buf")
      (auto simp: value_read_short value_read_long fail_def SLOT_LEN_def split: option.splits)
  then show ?thesis
    using value_read_slot_bytes [of v rest] value_read_OkD [of buf]
    by (auto simp: slot_bytes_def split: res.split)
qed

section \<open>Journal and replay\<close>

text \<open>A journal built by any sequence of appends verifies and holds exactly what was appended.\<close>

theorem journal_append_verifies:
  "verify_chain (append_all xs journal_new) = Ok () \<and>
   map (\<lambda>r. (r_kind r, r_payload r)) (records (append_all xs journal_new)) = xs"
  by (simp add: verify_append_all append_all_contents)

text \<open>Every proper prefix of such a journal's bytes is refused with \<open>E_RECORD\<close>.\<close>

theorem journal_truncation_refused:
  assumes "journal_fits j" and "verify_chain j = Ok ()" and "n < length (journal_to_bytes j)"
  shows "journal_from_bytes (take n (journal_to_bytes j)) = fail RecordMalformed"
  using assms by (rule journal_from_truncated)

lemma journal_truncation_refused_witness:
  "journal_from_bytes (take 3 (journal_to_bytes log_journal)) = fail RecordMalformed"
  by (rule journal_truncation_refused [OF log_journal_ok])
    (simp add: journal_to_bytes_def JOURNAL_MAGIC_def)

text \<open>Kinds and sequence numbers are outside the chain: rewriting them in every record changes
  nothing about verification, and a relabelled journal is accepted from its bytes.\<close>

theorem journal_kind_uncovered:
  "verify_chain (relabel k q j) = verify_chain j \<and>
   (if journal_fits j \<and> verify_chain j = Ok ()
    then journal_from_bytes (journal_to_bytes (relabel k q j)) = Ok (relabel k q j) else True)"
  using journal_from_to_bytes [of "relabel k q j" "[]"] by (simp add: relabel_verifies)

section \<open>The supervisor protocol\<close>

text \<open>Of a frame that has not fully arrived \<open>decode\<close> reports that more is needed.\<close>

theorem wire_partial_frame:
  assumes "wire_ok m" and "n < length (encode_wire m)"
  shows "decode_wire (take n (encode_wire m)) = Ok None"
  using assms by (rule decode_partial_wire)

lemma wire_partial_frame_witness: "decode_wire (take 5 (encode_wire (Hello [104, 105]))) = Ok None"
  by (rule wire_partial_frame [OF wire_hello_ok]) (simp add: encode_wire_def wire_body_def Let_def)

text \<open>A complete frame whose body is the version byte alone is not refused but panics: the kind
  byte is read past the end of the body.\<close>

theorem wire_short_frame_panics: "decode_wire (u32_le 1 @ [WIRE_VERSION] @ []) = Panic"
  using decode_wire_short_body by simp

text \<open>\<open>unpack\<close> undoes \<open>pack\<close>: the packed operands come back in their places.\<close>

theorem pack_unpack_restores:
  assumes "runs s fs f (vs @ ws)" and "ex_pack (length ws) s = (Ok (), s1)"
  shows "\<exists>f1 s2. ex_unpack s1 = (Ok (), s2) \<and> same_frame f f1 \<and> became s1 fs f1 (vs @ ws) 0 s2"
  using assms by (rule pack_unpack)

lemma pack_unpack_restores_witness:
  "\<exists>s1 f1 s2. ex_pack 2 (demo_vm (sum_image 2 3) [] [v_int 1, v_int 2, v_int 3] 0) = (Ok (), s1) \<and>
     ex_unpack s1 = (Ok (), s2) \<and> became s1 [] f1 [v_int 1, v_int 2, v_int 3] 0 s2"
proof -
  obtain s1 where s1: "ex_pack 2 (demo_vm (sum_image 2 3) [] [v_int 1, v_int 2, v_int 3] 0) = (Ok (), s1)"
    using pack_vm_ok by blast
  have "runs (demo_vm (sum_image 2 3) [] [v_int 1, v_int 2, v_int 3] 0) []
      (demo_frame [v_int 1, v_int 2, v_int 3] 0) ([v_int 1] @ [v_int 2, v_int 3])"
    using demo_runs [of "[v_int 1, v_int 2, v_int 3]" 0] by simp
  from pack_unpack_restores [OF this, of s1] s1 show ?thesis by (auto simp: numeral_2_eq_2)
qed

end
