(* ===== verification/CV_Fuzz.thy ===== *)
theory CV_Fuzz
  imports CV_Driver CV_Refused
begin

text \<open>
  The fuzzer, \<open>src/src/bin/cinder_fuzz.rs\<close>: the generator, the source text made of what it
  draws, and the loop that assembles, verifies and runs it and counts the outcomes.
\<close>

section \<open>The generator\<close>

definition next_u64 :: "u64 \<Rightarrow> u64" where
  "next_u64 s =
     (let s1 = xor s (push_bit 13 s); s2 = xor s1 (drop_bit 7 s1) in xor s2 (push_bit 17 s2))"

definition fuzz_ops :: "op list" where
  "fuzz_ops = [OpLdi, OpLdc, OpDup, OpDrop, OpSwap, OpAdd, OpSub, OpMul, OpDiv, OpEq, OpLt, OpNot,
     OpBrz, OpBrnz, OpRet, OpHalt, OpReserve, OpRelease, OpPack, OpLen, OpCtxCost, OpNop]"

text \<open>The state of the generator after the call, and the code.\<close>

definition random_insn :: "u64 \<Rightarrow> bytes \<Rightarrow> u64 \<times> bytes" where
  "random_insn s out =
     (let s1 = next_u64 s; x = fuzz_ops ! unat (s1 mod of_nat (length fuzz_ops));
          s2 = next_u64 s1; a = ucast (and s2 0xFF);
          s3 = next_u64 s2; b = ucast (and s3 0x7FFF)
      in (s3, fst (encode out x a b)))"

fun random_code :: "nat \<Rightarrow> u64 \<Rightarrow> bytes \<Rightarrow> u64 \<times> bytes" where
  "random_code 0 s out = (s, out)"
| "random_code (Suc n) s out = (case random_insn s out of (s', out') \<Rightarrow> random_code n s' out')"

section \<open>The source text\<close>

definition fuzz_line :: "bytes \<Rightarrow> bytes" where
  "fuzz_line c = ascii ''    '' @
     (case decode c 0 of Some d \<Rightarrow> ascii (mnemonic (insn (d_op d))) | None \<Rightarrow> ascii ''nop'')"

fun join_lines :: "bytes list \<Rightarrow> bytes" where
  "join_lines [] = []"
| "join_lines [l] = l"
| "join_lines (l # ls) = l @ nl @ join_lines ls"

definition fuzz_source :: "bytes \<Rightarrow> bytes" where
  "fuzz_source code = ascii ''.fn main() -> i32'' @ nl @ ascii ''.maxstack 8'' @ nl @ ascii ''main:'' @ nl @
     ascii ''    ldi 0'' @ nl @ join_lines (map fuzz_line (chunks_exact 4 code)) @ nl @ ascii ''    halt'' @ nl"

section \<open>Running\<close>

definition fuzz_limits :: limits where
  "fuzz_limits = \<lparr>max_steps = 1000, max_frames = 16, max_arena = push_bit 20 1\<rparr>"

text \<open>Whether the interpreter reported an error.\<close>

partial_function (option) fuzz_drive :: "vm \<Rightarrow> bool result option" where
  "fuzz_drive s = (case vm_step None s of
     None \<Rightarrow> None
   | Some (Ok (Halted c), t) \<Rightarrow> Some (Ok False)
   | Some (Ok (StepTrap tr), t) \<Rightarrow> (case vm_step (Some (AnsValue (v_int 0))) t of
       None \<Rightarrow> None
     | Some (Ok x, u) \<Rightarrow> fuzz_drive u
     | Some (Err e, u) \<Rightarrow> Some (Ok True)
     | Some (Panic, u) \<Rightarrow> Some Panic)
   | Some (Err e, t) \<Rightarrow> Some (Ok True)
   | Some (Panic, t) \<Rightarrow> Some Panic)"

record fuzz_state =
  fz_rng :: u64
  fz_accepted :: u64
  fz_rejected :: u64
  fz_crashed :: u64

definition fuzz_object :: "bytes \<Rightarrow> obj result" where
  "fuzz_object source = (case assemble (ascii ''fuzz.cdx'') source of
     Ok x \<Rightarrow> Ok x | Err e \<Rightarrow> Ok obj_default | Panic \<Rightarrow> Panic)"

definition fuzz_one ::
    "(bytes \<Rightarrow> unit result) \<Rightarrow> (obj \<Rightarrow> image) \<Rightarrow> (image \<Rightarrow> image) \<Rightarrow> fuzz_state \<Rightarrow> fuzz_state result option" where
  "fuzz_one seal_check build_image mark_verified z =
     (let s1 = next_u64 (fz_rng z); n = unat (s1 mod 24 + 1) in
      case random_code n s1 [] of (s2, code) \<Rightarrow>
        obind (Some (fuzz_object (fuzz_source code))) (\<lambda>x.
        (case admit seal_check build_image mark_verified x of
           None \<Rightarrow> None
         | Some Panic \<Rightarrow> Some Panic
         | Some (Err e) \<Rightarrow> Some (Ok (z\<lparr>fz_rng := s2, fz_rejected := fz_rejected z + 1\<rparr>))
         | Some (Ok im) \<Rightarrow>
             obind (Some (vm_new im fuzz_limits)) (\<lambda>s.
             obind (fuzz_drive s) (\<lambda>bad.
               Some (Ok (z\<lparr>fz_rng := s2, fz_accepted := fz_accepted z + 1,
                           fz_crashed := fz_crashed z + (if bad then 1 else 0)\<rparr>)))))))"

fun fuzz_run ::
    "(bytes \<Rightarrow> unit result) \<Rightarrow> (obj \<Rightarrow> image) \<Rightarrow> (image \<Rightarrow> image) \<Rightarrow> nat \<Rightarrow> fuzz_state \<Rightarrow> fuzz_state result option" where
  "fuzz_run seal_check build_image mark_verified 0 z = Some (Ok z)"
| "fuzz_run seal_check build_image mark_verified (Suc n) z =
     obind (fuzz_one seal_check build_image mark_verified z) (fuzz_run seal_check build_image mark_verified n)"

text \<open>The iterations, and the exit status.\<close>

definition fuzz_main ::
    "(bytes \<Rightarrow> unit result) \<Rightarrow> (obj \<Rightarrow> image) \<Rightarrow> (image \<Rightarrow> image) \<Rightarrow> u8 result option" where
  "fuzz_main seal_check build_image mark_verified =
     obind (fuzz_run seal_check build_image mark_verified 200000
         \<lparr>fz_rng = 0x9E3779B97F4A7C15, fz_accepted = 0, fz_rejected = 0, fz_crashed = 0\<rparr>)
       (\<lambda>z. Some (Ok (if 0 < fz_crashed z then 1 else 0)))"

section \<open>The generator never sticks\<close>

text \<open>Each of the three steps can be undone, so different states stay different and only 0 leads
  to 0.\<close>

lemma xor_shift_left_inject:
  fixes a b :: "'a::len word"
  assumes "0 < k" and "xor a (push_bit k a) = xor b (push_bit k b)"
  shows "a = b"
proof (rule bit_word_eqI)
  fix n assume "n < LENGTH('a)"
  then show "bit a n \<longleftrightarrow> bit b n"
  proof (induction n rule: less_induct)
    case (less n)
    have "bit (xor a (push_bit k a)) n \<longleftrightarrow> bit (xor b (push_bit k b)) n" using assms(2) by simp
    with less assms(1) show ?case by (cases "n < k") (auto simp: bit_simps)
  qed
qed

lemma xor_shift_right_inject:
  fixes a b :: "'a::len word"
  assumes "0 < k" and "xor a (drop_bit k a) = xor b (drop_bit k b)"
  shows "a = b"
proof (rule bit_word_eqI)
  fix n assume "n < LENGTH('a)"
  then show "bit a n \<longleftrightarrow> bit b n"
  proof (induction "LENGTH('a) - n" arbitrary: n rule: less_induct)
    case less
    have e: "bit (xor a (drop_bit k a)) n \<longleftrightarrow> bit (xor b (drop_bit k b)) n" using assms(2) by simp
    show ?case
    proof (cases "n + k < LENGTH('a)")
      case True
      with less assms(1) have "bit a (n + k) \<longleftrightarrow> bit b (n + k)" by simp
      with e show ?thesis by (auto simp: bit_simps add.commute)
    next
      case False
      then have "\<not> bit a (n + k)" "\<not> bit b (n + k)" using bit_imp_le_length by blast+
      with e show ?thesis by (auto simp: bit_simps add.commute)
    qed
  qed
qed

theorem next_u64_inject: "next_u64 s = next_u64 t \<longleftrightarrow> s = t"
proof
  let ?f = "\<lambda>s :: u64. xor s (push_bit 13 s)" and ?g = "\<lambda>s :: u64. xor s (drop_bit 7 s)"
  assume "next_u64 s = next_u64 t"
  then have "xor (?g (?f s)) (push_bit 17 (?g (?f s))) = xor (?g (?f t)) (push_bit 17 (?g (?f t)))"
    by (simp only: next_u64_def Let_def)
  then have "?g (?f s) = ?g (?f t)" by (rule xor_shift_left_inject [rotated]) simp
  then have "?f s = ?f t" by (rule xor_shift_right_inject [rotated]) simp
  then show "s = t" by (rule xor_shift_left_inject [rotated]) simp
qed simp

lemma next_u64_nonzero: "next_u64 s = 0 \<longleftrightarrow> s = 0"
  using next_u64_inject [of s 0] by (simp add: next_u64_def)

section \<open>What is drawn\<close>

lemma fuzz_op_drawn: "fuzz_ops ! unat ((s :: u64) mod of_nat (length fuzz_ops)) \<in> set fuzz_ops"
proof (rule nth_mem)
  have "length fuzz_ops = 22" by (simp add: fuzz_ops_def)
  then show "unat (s mod of_nat (length fuzz_ops)) < length fuzz_ops" by (simp add: unat_mod)
qed

lemma small_operand: "ucast (and (s :: u64) 0x7FFF) \<le> (0x7FFF :: u32)"
proof -
  have "and s 0x7FFF \<le> 0x7FFF" by (rule word_and_le1)
  then have "unat (and s 0x7FFF) \<le> 0x7FFF" by (simp add: word_le_nat_alt)
  then show ?thesis by (simp add: word_le_nat_alt unsigned_ucast_eq take_bit_nat_eq_self)
qed

text \<open>One word for each instruction, which reads back as an opcode of the list.\<close>

theorem random_insn_word:
  "\<exists>w d. snd (random_insn s out) = out @ w \<and> length w = 4 \<and> decode w 0 = Some d \<and>
     d_op d \<in> set fuzz_ops \<and> d_b d \<le> 0x7FFF \<and> d_len d = 4"
proof -
  let ?x = "fuzz_ops ! unat (next_u64 s mod of_nat (length fuzz_ops))"
  let ?a = "ucast (and (next_u64 (next_u64 s)) 0xFF)"
  let ?b = "ucast (and (next_u64 (next_u64 (next_u64 s))) 0x7FFF) :: u32"
  let ?w = "fst (encode [] ?x ?a ?b)"
  have narrow: "\<not> 0xFFFF < ?b"
    using small_operand [of "next_u64 (next_u64 (next_u64 s))"] unfolding word_less_nat_alt word_le_nat_alt by simp
  have "snd (random_insn s out) = out @ ?w"
    by (simp add: random_insn_def Let_def) (subst encode_appends, simp)
  moreover have "length ?w = 4" by (rule length_encode [OF narrow])
  moreover have "decode ?w 0 = Some \<lparr>d_op = ?x, d_a = ?a, d_b = ?b, d_len = 4\<rparr>"
    using decode_encode [of "[]" ?x ?a ?b "[]"] narrow by (simp add: encoded_len_def)
  ultimately show ?thesis
    using fuzz_op_drawn small_operand
    by (intro exI [of _ ?w] exI [of _ "\<lparr>d_op = ?x, d_a = ?a, d_b = ?b, d_len = 4\<rparr>"]) simp
qed

text \<open>So the text has one line for each instruction drawn, with its mnemonic.\<close>

lemma chunks_word: "length w = 4 \<Longrightarrow> chunks_exact 4 (w @ ws) = w # chunks_exact 4 ws"
  by (simp add: chunks_exact.simps [of 4 "w @ ws"])

definition drawn_op :: "bytes \<Rightarrow> op option" where
  "drawn_op c = map_option d_op (decode c 0)"

lemma random_code_lines:
  "\<exists>ws xs. snd (random_code n s out) = out @ concat ws \<and> length xs = n \<and> set xs \<subseteq> set fuzz_ops \<and>
     map drawn_op (chunks_exact 4 (concat ws)) = map Some xs"
proof (induction n arbitrary: s out)
  case 0
  then show ?case by (intro exI [of _ "[]"]) (simp add: chunks_exact.simps)
next
  case (Suc n)
  obtain s' out' where r: "random_insn s out = (s', out')" by fastforce
  with random_insn_word [of s out] obtain w d where w: "out' = out @ w" "length w = 4" "decode w 0 = Some d"
    "d_op d \<in> set fuzz_ops" by auto
  from Suc [of s' out'] obtain ws xs where "snd (random_code n s' out') = out' @ concat ws" "length xs = n"
    "set xs \<subseteq> set fuzz_ops" "map drawn_op (chunks_exact 4 (concat ws)) = map Some xs" by blast
  moreover have "drawn_op w = Some (d_op d)" using w(3) by (simp add: drawn_op_def)
  ultimately show ?case
    using r w by (intro exI [of _ "w # ws"] exI [of _ "d_op d # xs"]) (simp add: chunks_word)
qed

definition fuzz_lines :: "op list \<Rightarrow> line list" where
  "fuzz_lines xs = [Lab (ascii ''main''), Ins OpLdi (Some 0)] @ map (\<lambda>x. Ins x None) xs @ [Ins OpHalt None]"

lemma typeset_append:
  "typeset (ts @ us) g = concat (map (\<lambda>(h, t). show_gap h @ show_tok t) ts) @ typeset us g"
  by (induction ts) auto

lemma join_lines_ends: "ls \<noteq> [] \<Longrightarrow> join_lines ls @ nl = concat (map (\<lambda>l. l @ nl) ls)"
  by (induction ls rule: join_lines.induct) simp_all

lemma fuzz_source_written:
  assumes "map drawn_op (chunks_exact 4 code) = map Some xs" and "xs \<noteq> []"
  shows "written 8 (fuzz_lines xs) (fuzz_source code)"
proof -
  let ?line = "\<lambda>x. ascii ''    '' @ mnem x"
  have lines: "map fuzz_line cs = map ?line ys" if "map drawn_op cs = map Some ys" for cs ys
    using that by (induction cs arbitrary: ys) (auto simp: Cons_eq_map_conv fuzz_line_def drawn_op_def mnem_def)
  have body: "concat (map (\<lambda>(h, t). show_gap h @ show_tok t) (concat (map (\<lambda>x. line_layout (Ins x None)) ys))) =
      concat (map (\<lambda>l. l @ nl) (map ?line ys))" for ys
    by (induction ys) (simp_all add: show_gap_def nl_def ascii_def)
  have "join_lines (map ?line xs) @ nl = concat (map (\<lambda>l. l @ nl) (map ?line xs))"
    using join_lines_ends [of "map ?line xs"] assms(2) by simp
  then have "join_lines (map ?line xs) @ nl @ r = concat (map (\<lambda>l. l @ nl) (map ?line xs)) @ r" for r
    by (metis append_assoc)
  moreover have "main_layout 8 (fuzz_lines xs) = main_layout 8 [Lab (ascii ''main''), Ins OpLdi (Some 0)] @
      concat (map (\<lambda>x. line_layout (Ins x None)) xs) @ line_layout (Ins OpHalt None)"
    by (simp add: main_layout_def fuzz_lines_def map_concat comp_def)
  moreover have "concat (map (\<lambda>(h, t). show_gap h @ show_tok t)
      (main_layout 8 [Lab (ascii ''main''), Ins OpLdi (Some 0)])) = ascii ''.fn main() -> i32'' @ nl @
      ascii ''.maxstack 8'' @ nl @ ascii ''main:'' @ nl @ ascii ''    ldi 0'' @ nl" by code_simp
  moreover have "typeset (line_layout (Ins OpHalt None)) ([], None) = ascii ''    halt'' @ nl" by code_simp
  ultimately have "main_source 8 (fuzz_lines xs) = fuzz_source code"
    by (simp add: main_source_def typeset_append body fuzz_source_def lines [OF assms(1)] del: line_layout.simps)
  moreover have "list_all line_ok (fuzz_lines xs)"
    by (auto simp: fuzz_lines_def list_all_iff name_ok_def ascii_def ident_start_def ident_byte_def name_byte_def is_alpha_def)
  ultimately show ?thesis using main_source_written by metis
qed

text \<open>The operands are not printed, so the assembler refuses whatever needs one.\<close>

lemma fuzz_source_refused:
  assumes "map drawn_op (chunks_exact 4 code) = map Some xs" and "x \<in> set xs" and "operand (insn x) \<noteq> OprNone"
  shows "\<exists>at. assemble nm (fuzz_source code) = err_at MissingOperand at"
proof -
  from assms(2,3) obtain ys x zs where xs: "xs = ys @ x # zs" "\<forall>y\<in>set ys. operand (insn y) = OprNone"
    "operand (insn x) \<noteq> OprNone" using split_list_first_prop [of xs "\<lambda>x. operand (insn x) \<noteq> OprNone"] by auto
  have bare: "\<exists>us. lines_mean (map (\<lambda>x. Ins x None) ys) st = Some us"
    if "\<forall>y\<in>set ys. operand (insn y) = OprNone" for ys st
    using that by (induction ys arbitrary: st) (auto simp: int_operand_def split: prod.splits)
  let ?pre = "[Lab (ascii ''main''), Ins OpLdi (Some 0)] @ map (\<lambda>x. Ins x None) ys"
  obtain st where st: "lines_mean [Lab (ascii ''main''), Ins OpLdi (Some 0)] ([], []) = Some st"
    by (simp add: int_operand_def insn_eq mk_row_def)
  have "lines_mean ?pre ([], []) = lines_mean (map (\<lambda>x. Ins x None) ys) st"
    by (simp only: lines_mean_append st Option.bind.simps)
  with bare [OF xs(2), of st] have "\<exists>ls us. lines_mean ?pre ([], []) = Some (ls, us)" by (metis prod.collapse)
  moreover have "starts_as 8 (?pre @ [Ins x None]) (fuzz_source code)"
    by (rule written_starts [of _ _ "map (\<lambda>x. Ins x None) zs @ [Ins OpHalt None]"])
      (use fuzz_source_written [OF assms(1)] xs(1) in \<open>simp add: fuzz_lines_def\<close>)
  ultimately show ?thesis
    using assemble_refused [where x = x and n = None] xs(3) by (fastforce simp: int_operand_def refusal_def split: operand.splits)
qed

theorem fuzz_one_rejects:
  assumes "random_code (unat (next_u64 (fz_rng z) mod 24 + 1)) (next_u64 (fz_rng z)) [] = (s, code)"
    and "Some x \<in> drawn_op ` set (chunks_exact 4 code)" and "operand (insn x) \<noteq> OprNone" and "seal_check [] \<noteq> Panic"
  shows "fuzz_one seal_check build_image mark_verified z =
     Some (Ok (z\<lparr>fz_rng := s, fz_rejected := fz_rejected z + 1\<rparr>))"
proof -
  from random_code_lines [of "unat (next_u64 (fz_rng z) mod 24 + 1)" "next_u64 (fz_rng z)" "[]"] assms(1)
  obtain xs where xs: "map drawn_op (chunks_exact 4 code) = map Some xs" by auto
  have "Some x \<in> set (map drawn_op (chunks_exact 4 code))" using assms(2) by simp
  then have "x \<in> set xs" unfolding xs by auto
  from fuzz_source_refused [OF xs this assms(3)] obtain at where
    "assemble (ascii ''fuzz.cdx'') (fuzz_source code) = err_at MissingOperand at" by blast
  then have "fuzz_object (fuzz_source code) = Ok obj_default" by (simp add: fuzz_object_def err_at_def)
  moreover have "\<exists>e. admit seal_check build_image mark_verified obj_default = Some (Err e)"
    using assms(4) by (cases "seal_check []") (simp_all add: admit_def obj_default_def fail_def)
  ultimately show ?thesis using assms(1) by (auto simp: fuzz_one_def Let_def)
qed

lemma random_code_appends: "\<exists>ws. snd (random_code n s out) = out @ ws"
proof (induction n arbitrary: s out)
  case (Suc n)
  obtain s' out' where r: "random_insn s out = (s', out')" by fastforce
  with random_insn_word [of s out] Suc [of s' out'] show ?case by auto
qed simp

text \<open>The opcode that is drawn first.\<close>

definition first_drawn :: "u64 \<Rightarrow> op" where
  "first_drawn s = fuzz_ops ! unat (next_u64 s mod of_nat (length fuzz_ops))"

lemma first_drawn_in:
  assumes "random_code n s [] = (t, code)" and "0 < n"
  shows "Some (first_drawn s) \<in> drawn_op ` set (chunks_exact 4 code)"
proof -
  obtain s' w where r: "random_insn s [] = (s', w)" by fastforce
  with random_insn_word [of s "[]"] have w: "length w = 4" by auto
  have "\<exists>d. decode w 0 = Some d \<and> d_op d = first_drawn s"
    using r decode_encode [of "[]" "first_drawn s" _ _ "[]"] by (auto simp: random_insn_def first_drawn_def Let_def)
  then have "drawn_op w = Some (first_drawn s)" by (auto simp: drawn_op_def)
  moreover from assms r random_code_appends [of "n - 1" s' w] obtain ws where "code = w @ ws" by (cases n) auto
  ultimately show ?thesis using w by (simp add: chunks_word)
qed

section \<open>The fuzzer ends\<close>

text \<open>Its loop around \<open>Vm::step\<close> is the one of \<open>cinderc run\<close>, which returns.\<close>

lemma fuzz_drive_runs:
  assumes "run_vm s = Some r"
  shows "fuzz_drive s = Some (case r of Ok n \<Rightarrow> Ok False | Err e \<Rightarrow> Ok True | Panic \<Rightarrow> Panic)"
proof (rule run_vm.raw_induct [OF _ assms])
  fix f s r
  assume IH: "\<And>s r. f s = Some r \<Longrightarrow> fuzz_drive s = Some (case r of Ok n \<Rightarrow> Ok False | Err e \<Rightarrow> Ok True | Panic \<Rightarrow> Panic)"
    and run: "(case vm_step None s of
        None \<Rightarrow> None
      | Some (Ok (Halted c), t) \<Rightarrow> Some (Ok c)
      | Some (Ok (StepTrap tr), t) \<Rightarrow> (case vm_step (Some (AnsValue (v_int 0))) t of
          None \<Rightarrow> None | Some (Ok x, u) \<Rightarrow> f u | Some (Err e, u) \<Rightarrow> Some (Err e) | Some (Panic, u) \<Rightarrow> Some Panic)
      | Some (Err e, t) \<Rightarrow> Some (Err e) | Some (Panic, t) \<Rightarrow> Some Panic) = Some r"
  show "fuzz_drive s = Some (case r of Ok n \<Rightarrow> Ok False | Err e \<Rightarrow> Ok True | Panic \<Rightarrow> Panic)"
    using run by (subst fuzz_drive.simps) (auto split: option.splits res.splits step.splits dest!: IH)
qed

theorem fuzz_one_returns: "\<exists>r. fuzz_one seal_check build_image mark_verified z = Some r"
proof -
  have drive: "\<exists>r. fuzz_drive s = Some r" if "vm_new im fuzz_limits = Ok s" for im s
    using run_vm_returns [OF that] fuzz_drive_runs by (auto simp: fuzz_limits_def)
  have rest: "\<exists>r. (case q of
         None \<Rightarrow> None
       | Some Panic \<Rightarrow> Some Panic
       | Some (Err e) \<Rightarrow> Some (Ok k)
       | Some (Ok im) \<Rightarrow> obind (Some (vm_new im fuzz_limits)) (\<lambda>s. obind (fuzz_drive s) (\<lambda>bad. Some (Ok (g bad))))) = Some r"
    if "\<exists>r. q = Some r" for q k and g :: "bool \<Rightarrow> fuzz_state"
  proof -
    have "\<exists>r. obind (Some (vm_new im fuzz_limits)) (\<lambda>s. obind (fuzz_drive s) (\<lambda>bad. Some (Ok (g bad)))) = Some r" for im
    proof (cases "vm_new im fuzz_limits")
      case (Ok s)
      with drive [OF Ok] obtain r where "fuzz_drive s = Some r" by blast
      with Ok show ?thesis by (cases r) simp_all
    qed simp_all
    with that show ?thesis by (auto split: res.split)
  qed
  obtain s2 code where c: "random_code (unat (next_u64 (fz_rng z) mod 24 + 1)) (next_u64 (fz_rng z)) [] = (s2, code)"
    by fastforce
  show ?thesis
    by (cases "fuzz_object (fuzz_source code)") (simp_all add: fuzz_one_def Let_def c rest [OF admit_returns])
qed

theorem fuzz_run_returns: "\<exists>r. fuzz_run seal_check build_image mark_verified n z = Some r"
proof (induction n arbitrary: z)
  case (Suc n)
  obtain r where r: "fuzz_one seal_check build_image mark_verified z = Some r" using fuzz_one_returns by blast
  with Suc show ?case by (cases r) simp_all
qed simp

end
