(* ===== verification/CV_Markdown.thy ===== *)
theory CV_Markdown
  imports CV_Isa CV_Text
begin

text \<open>
  The instruction reference, \<open>emit_markdown\<close> of \<open>src/src/isa.rs\<close>: the documentation column of
  the \<open>ops!\<close> table and the text that \<open>cinderc --emit-isa-md\<close> prints, in UTF-8.
\<close>

section \<open>Names\<close>

definition em_dash :: bytes where
  "em_dash = [0xE2, 0x80, 0x94]"

primrec ty_name :: "ty \<Rightarrow> bytes" where
  "ty_name TyBottom = [0xE2, 0x8A, 0xA5]"
| "ty_name TyInt = ascii ''i64''"
| "ty_name TyStr = ascii ''str''"
| "ty_name TyBytes = ascii ''bytes''"
| "ty_name TyList = ascii ''list''"
| "ty_name TyHandle = ascii ''handle''"
| "ty_name TyPending = ascii ''pending''"
| "ty_name TyTop = [0xE2, 0x8A, 0xA4]"

primrec operand_name :: "operand \<Rightarrow> bytes" where
  "operand_name OprNone = ascii ''None''"
| "operand_name OprConst = ascii ''Const''"
| "operand_name OprImm = ascii ''Imm''"
| "operand_name OprTarget = ascii ''Target''"
| "operand_name OprFunc = ascii ''Func''"
| "operand_name OprTool = ascii ''Tool''"
| "operand_name OprJumpTable = ascii ''JumpTable''"
| "operand_name OprSlot = ascii ''Slot''"
| "operand_name OprDimension = ascii ''Dimension''"

primrec effect_name :: "effect \<Rightarrow> bytes" where
  "effect_name EfPure = ascii ''Pure''"
| "effect_name EfAlloc = ascii ''Alloc''"
| "effect_name EfSuspend = ascii ''Suspend''"
| "effect_name EfOracle = ascii ''Oracle''"
| "effect_name EfControl = ascii ''Control''"
| "effect_name EfDurable = ascii ''Durable''"

section \<open>The documentation column\<close>

primrec doc_of :: "op \<Rightarrow> bytes" where
  "doc_of OpNop =
     ascii ''No operation. Emitted as branch padding by `asm::layout`.''"
| "doc_of OpLdc =
     ascii ''Push constant-pool entry `b`. Interned; identical constants share a handle.''"
| "doc_of OpLdi =
     ascii ''Push sign-extended immediate `b`.''"
| "doc_of OpDup =
     ascii ''Duplicate the top operand.''"
| "doc_of OpDupN =
     ascii ''Duplicate the operand `b` slots below the top.''"
| "doc_of OpDrop =
     ascii ''Discard the top operand.''"
| "doc_of OpSwap =
     ascii ''Exchange the top two operands.''"
| "doc_of OpRot =
     ascii ''Rotate the top three operands left.''"
| "doc_of OpLdl =
     ascii ''Load frame-local slot `b`.''"
| "doc_of OpStl =
     ascii ''Store to frame-local slot `b`.''"
| "doc_of OpArgv =
     ascii ''Push host-supplied argument `b`. Recorded in the image's arg arity.''"
| "doc_of OpPack =
     ascii ''Pop `b` operands into a list, first-pushed first.''"
| "doc_of OpUnpack =
     ascii ''Push a list's `b` elements. Length mismatch traps `E_ARITY`.''"
| "doc_of OpIdx =
     ascii ''Index a list. Out-of-range traps `E_RANGE`.''"
| "doc_of OpLen =
     ascii ''Length in elements for lists, bytes for str/bytes.''"
| "doc_of OpCat =
     ascii ''Concatenate two same-tag arena values.''"
| "doc_of OpFmt =
     ascii ''Format a list into template `b`. Positional `{}` only '' @ em_dash @ ascii '' no locale, no float.''"
| "doc_of OpSlice =
     ascii ''Half-open slice. Clamps rather than traps; matches `str` conventions.''"
| "doc_of OpFind =
     ascii ''Index of needle in haystack, or -1.''"
| "doc_of OpAdd =
     ascii ''Wrapping i64 addition. Wrapping, not saturating, so replay is exact.''"
| "doc_of OpSub =
     ascii ''Wrapping i64 subtraction.''"
| "doc_of OpMul =
     ascii ''Wrapping i64 multiplication.''"
| "doc_of OpDiv =
     ascii ''Truncating division. Divide-by-zero traps `E_DIV0`.''"
| "doc_of OpMod =
     ascii ''Remainder with the sign of the dividend.''"
| "doc_of OpEq =
     ascii ''Structural equality; 1 or 0. Cross-tag comparison is 0, not an error.''"
| "doc_of OpLt =
     ascii ''Signed less-than.''"
| "doc_of OpNot =
     ascii ''Logical negation: 0 becomes 1, everything else 0.''"
| "doc_of OpAnd =
     ascii ''Bitwise and.''"
| "doc_of OpOr =
     ascii ''Bitwise or.''"
| "doc_of OpShl =
     ascii ''Left shift, masked to 0..64.''"
| "doc_of OpShr =
     ascii ''Arithmetic right shift, masked to 0..64.''"
| "doc_of OpBr =
     ascii ''Unconditional branch. A back-edge requires a dominating metering insn.''"
| "doc_of OpBrz =
     ascii ''Branch if top is zero.''"
| "doc_of OpBrnz =
     ascii ''Branch if top is nonzero.''"
| "doc_of OpCall =
     ascii ''Call function `b`; arity and returns come from the function table.''"
| "doc_of OpRet =
     ascii ''Return. Verified against the function's declared return arity.''"
| "doc_of OpTail =
     ascii ''Tail call: replaces the frame. Keeps recursive agents O(1) in frames.''"
| "doc_of OpSwitch =
     ascii ''Dense jump table `b`, with a mandatory default arm.''"
| "doc_of OpTrap =
     ascii ''Abort the VM with diagnostic `b`. The assembler's `assert` lowers to this.''"
| "doc_of OpHalt =
     ascii ''Stop with the top of stack as exit status.''"
| "doc_of OpCallTool =
     ascii ''Issue tool `b` with a packed argument list. Journalled before dispatch.''"
| "doc_of OpAwait =
     ascii ''Block this VM until the effect resolves. Descheduled, not spinning.''"
| "doc_of OpPoll =
     ascii ''Non-blocking check; pushes readiness without consuming the pending.''"
| "doc_of OpCancel =
     ascii ''Abandon an effect. Best-effort upstream; always resolves the pending.''"
| "doc_of OpSelect =
     ascii ''Await the first of `b` pendings. Winner index is journalled '' @ em_dash @ ascii '' ties are not racy on replay.''"
| "doc_of OpSpawn =
     ascii ''Start a child VM at function `b`. The child is a VM, not a thread.''"
| "doc_of OpJoin =
     ascii ''Await a child's result.''"
| "doc_of OpFork =
     ascii ''Copy-on-write branch of this machine. Pushes 0 in the parent, 1 in the child.''"
| "doc_of OpCommit =
     ascii ''Accept the current fork's arena writes into the parent.''"
| "doc_of OpAbort =
     ascii ''Discard the current fork. Balanced with `fork` on every path.''"
| "doc_of OpCheckpoint =
     ascii ''Snapshot to the object store under label `b`. Requires no live pendings.''"
| "doc_of OpYieldCtx =
     ascii ''Voluntarily deschedule. The scheduler's cooperative preemption point.''"
| "doc_of OpResume =
     ascii ''Marker recorded on restore. Never executed; present for journal alignment.''"
| "doc_of OpReserve =
     ascii ''Lease budget on dimension `b`. Refused at reserve time, never after the spend.''"
| "doc_of OpRelease =
     ascii ''Return an unused reservation.''"
| "doc_of OpSpend =
     ascii ''Settle a reservation with actual usage.''"
| "doc_of OpQueryQ =
     ascii ''Remaining allowance on dimension `b`. Journalled '' @ em_dash @ ascii '' it is host state.''"
| "doc_of OpCtxPush =
     ascii ''Append a segment with role `b` to the context ring.''"
| "doc_of OpCtxPop =
     ascii ''Drop the `b` oldest segments. Eviction is explicit, never implicit.''"
| "doc_of OpCtxWin =
     ascii ''Materialize the current window as a list of segments.''"
| "doc_of OpCtxCost =
     ascii ''Token cost of the current window, from the image's tokenizer profile.''"
| "doc_of OpNow =
     ascii ''Milliseconds since the epoch, from the host. Journalled.''"
| "doc_of OpRand =
     ascii ''64 host-supplied random bits. Journalled.''"
| "doc_of OpEnv =
     ascii ''Host configuration value `b`. Journalled, and redacted in `cinder dis`.''"
| "doc_of OpLog =
     ascii ''Structured log at level `b`. Journalled so replay reproduces output.''"

section \<open>The text\<close>

text \<open>\<open>{:02X}\<close>\<close>

definition upper_digit :: "nat \<Rightarrow> u8" where
  "upper_digit d = of_nat (if d < 10 then 0x30 + d else 0x37 + d)"

definition hex2 :: "nat \<Rightarrow> bytes" where
  "hex2 n = (let ds = map upper_digit (digits 16 n) in replicate (2 - length ds) 0x30 @ ds)"

fun join_names :: "bytes list \<Rightarrow> bytes" where
  "join_names [] = []"
| "join_names [n] = n"
| "join_names (n # ns) = n @ ascii '', '' @ join_names ns"

definition stack_text :: "insn_row \<Rightarrow> bytes" where
  "stack_text r = ascii ''`['' @ join_names (map ty_name (pops r)) @ ascii ''] '' @ [0xE2, 0x86, 0x92] @ ascii '' ['' @
     join_names (map ty_name (pushes r)) @ ascii '']'' @ (if variadic r then ascii '' *'' else []) @ ascii ''`''"

definition markdown_row :: "insn_row \<Rightarrow> bytes" where
  "markdown_row r = ascii ''| `0x'' @ hex2 (unat (op_byte (i_op r))) @ ascii ''` | `'' @ ascii (mnemonic r) @ ascii ''` | '' @
     operand_name (operand r) @ ascii '' | '' @ stack_text r @ ascii '' | '' @ effect_name (effect r) @ ascii '' | '' @
     doc_of (i_op r) @ ascii '' |'' @ [0x0A]"

definition emit_markdown :: bytes where
  "emit_markdown = ascii ''<!-- generated by `cinderc --emit-isa-md`; do not edit -->'' @ [0x0A, 0x0A] @
     ascii ''# `cdx/'' @ show_nat (unat ISA_VERSION) @ ascii ''` instruction reference'' @ [0x0A, 0x0A] @
     ascii ''| Op | Mnemonic | Operand | Stack | Effect | Notes |'' @ [0x0A] @
     ascii ''|---:|---|---|---|---|---|'' @ [0x0A] @
     concat (map markdown_row TABLE) @
     [0x0A] @ ascii ''`*` marks a variadic stack effect resolved from the operand; '' @
     ascii ''see `verify::transfer`.'' @ [0x0A]"

section \<open>Every instruction has its row\<close>

lemma concat_row: "x \<in> set xs \<Longrightarrow> \<exists>a b. concat (map f xs) = a @ f x @ b"
proof (induction xs)
  case (Cons y ys)
  show ?case
  proof (cases "x = y")
    case True
    then show ?thesis by (intro exI [of _ "[]"] exI [of _ "concat (map f ys)"]) simp
  next
    case False
    with Cons obtain a b where "concat (map f ys) = a @ f x @ b" by auto
    then show ?thesis by (intro exI [of _ "f y @ a"] exI [of _ b]) simp
  qed
qed simp

theorem markdown_lists: "\<exists>a b. emit_markdown = a @ markdown_row (insn x) @ b"
proof -
  have "insn x \<in> set TABLE" using all_ops_complete [of x] by (simp add: TABLE_def insn_eq)
  from concat_row [OF this, of markdown_row] obtain a b where "concat (map markdown_row TABLE) = a @ markdown_row (insn x) @ b"
    by blast
  then show ?thesis unfolding emit_markdown_def by (metis append.assoc)
qed

lemma markdown_row_names: "\<exists>a b. markdown_row r = a @ ascii ''`'' @ ascii (mnemonic r) @ ascii ''`'' @ b"
proof -
  have "ascii ''` | `'' = ascii ''` | '' @ ascii ''`''" "ascii ''` | '' = ascii ''`'' @ ascii '' | ''"
    by (simp_all add: ascii_def)
  then show ?thesis unfolding markdown_row_def by (metis append.assoc)
qed

end
