(* ===== verification/CV_Render.thy ===== *)
theory CV_Render
  imports CV_Diag CV_Text
begin

text \<open>
  The text of a diagnostic, \<open>Diag::render\<close> and the \<open>Display\<close> of \<open>src/src/diag.rs\<close>. The rest of the
  development keeps of a \<open>Diag\<close> what functions branch on; \<open>report\<close> adds its message, labels and
  notes. Text is UTF-8.
\<close>

section \<open>Reports\<close>

record note_at =
  na_span :: span
  na_note :: bytes

record report = diag +
  rp_message :: bytes
  rp_labels :: "note_at list"
  rp_notes :: "bytes list"

definition report_new :: "code \<Rightarrow> bytes \<Rightarrow> report" where
  "report_new c msg = \<lparr>dcode = c, dspan = synthetic, dpc = None, rp_message = msg, rp_labels = [], rp_notes = []\<rparr>"

definition with_label :: "span \<Rightarrow> bytes \<Rightarrow> report \<Rightarrow> report" where
  "with_label s note r = r\<lparr>rp_labels := rp_labels r @ [\<lparr>na_span = s, na_note = note\<rparr>]\<rparr>"

definition with_note :: "bytes \<Rightarrow> report \<Rightarrow> report" where
  "with_note note r = r\<lparr>rp_notes := rp_notes r @ [note]\<rparr>"

section \<open>What is used of Rust's formatting\<close>

definition pad_to :: "nat \<Rightarrow> bytes \<Rightarrow> bytes" where
  "pad_to w s = replicate (w - length s) 0x20 @ s"

text \<open>\<open>{:#06x}\<close>\<close>

definition hex4 :: "nat \<Rightarrow> bytes" where
  "hex4 n = (let ds = map digit_byte (digits 16 n) in [0x30, 0x78] @ replicate (4 - length ds) 0x30 @ ds)"

text \<open>\<open>str::lines\<close>: a final newline ends the last line, and a carriage return before a newline is
  not part of the line.\<close>

definition strip_cr :: "bytes \<Rightarrow> bytes" where
  "strip_cr l = (if l \<noteq> [] \<and> last l = 0x0D then butlast l else l)"

function src_lines :: "bytes \<Rightarrow> bytes list" where
  "src_lines s =
     (if s = [] then []
      else let l = takeWhile (\<lambda>b. b \<noteq> 0x0A) s; r = dropWhile (\<lambda>b. b \<noteq> 0x0A) s
           in if r = [] then [l] else strip_cr l # src_lines (tl r))"
  by pat_completeness auto
termination
proof (relation "measure length")
  fix s l r :: bytes
  assume "s \<noteq> []" "r = dropWhile (\<lambda>b. b \<noteq> 0x0A) s" "r \<noteq> []"
  then have "length (tl r) < length r" "length r \<le> length s" by (auto simp: length_dropWhile_le)
  then show "(tl r, s) \<in> measure length" by simp
qed simp

declare src_lines.simps [simp del]

section \<open>Rendering\<close>

definition bar :: bytes where
  "bar = [0xE2, 0x94, 0x82]"

definition dash :: bytes where
  "dash = [0xE2, 0x94, 0x80]"

definition corner :: bytes where
  "corner = [0xE2, 0x94, 0x8C] @ dash"

definition end_line :: bytes where
  "end_line = [0x0A]"

definition debug_span :: "span \<Rightarrow> bytes" where
  "debug_span s =
     (if is_synthetic s then ascii ''<synthetic>''
      else show_nat (unat (span_line s)) @ ascii '':'' @ show_nat (unat (span_col s)))"

definition widest_line :: "report \<Rightarrow> u32" where
  "widest_line r = fold max (map (\<lambda>l. span_line (na_span l)) (rp_labels r) @ [span_line (dspan r)]) 0"

definition snippet :: "bytes \<Rightarrow> span \<Rightarrow> nat \<Rightarrow> bytes \<Rightarrow> bytes" where
  "snippet src s gutter caret =
     (let k = unat (span_line s) - 1 in
      if length (src_lines src) \<le> k then []
      else let width = max 1 (unat (span_hi s) - unat (span_lo s)); pad = unat (span_col s) - 1
           in pad_to gutter (show_nat (unat (span_line s))) @ bar @ ascii '' '' @ src_lines src ! k @ end_line @
              pad_to gutter [] @ bar @ ascii '' '' @ replicate pad 0x20 @ concat (replicate width caret) @ end_line)"

definition render_head :: "report \<Rightarrow> bytes" where
  "render_head r = ascii ''error['' @ ascii (as_str (dcode r)) @ ascii '']: '' @ rp_message r @ end_line"

definition render_short :: "bytes \<Rightarrow> report \<Rightarrow> bytes" where
  "render_short name r =
     (case dpc r of None \<Rightarrow> [] | Some p \<Rightarrow> ascii ''  --> '' @ name @ ascii '':pc '' @ hex4 (unat p) @ end_line) @
     concat (map (\<lambda>l. ascii ''  = at '' @ debug_span (na_span l) @ ascii '': '' @ na_note l @ end_line) (rp_labels r)) @
     concat (map (\<lambda>n. ascii ''  = '' @ n @ end_line) (rp_notes r))"

definition render_label :: "bytes \<Rightarrow> nat \<Rightarrow> note_at \<Rightarrow> bytes" where
  "render_label src gutter l =
     (if is_synthetic (na_span l) then []
      else pad_to (gutter + 1) [] @ [0xC2, 0xB7] @ end_line @ snippet src (na_span l) gutter dash @
        pad_to (gutter + 1) [] @ bar @ ascii '' '' @ na_note l @ end_line)"

definition render_report :: "report \<Rightarrow> bytes \<Rightarrow> bytes option \<Rightarrow> bytes" where
  "render_report r name source = render_head r @
     (case source of
        Some src \<Rightarrow>
          if is_synthetic (dspan r) then render_short name r
          else let gutter = max 2 (length (show_nat (unat (widest_line r)))); w = gutter + 1 in
            pad_to w [] @ corner @ ascii '' '' @ name @ ascii '':'' @ show_nat (unat (span_line (dspan r))) @ ascii '':'' @
              show_nat (unat (span_col (dspan r))) @ end_line @
            pad_to w [] @ bar @ end_line @ snippet src (dspan r) gutter [0x5E] @
            concat (map (render_label src gutter) (rp_labels r)) @
            pad_to w [] @ bar @ end_line @
            concat (map (\<lambda>n. pad_to w [] @ ascii ''= '' @ n @ end_line) (rp_notes r))
      | None \<Rightarrow> render_short name r)"

text \<open>\<open>Display\<close>\<close>

definition display_report :: "report \<Rightarrow> bytes" where
  "display_report r = ascii (as_str (dcode r)) @ ascii '': '' @ rp_message r @
     (if \<not> is_synthetic (dspan r) then ascii '' (at '' @ debug_span (dspan r) @ ascii '')''
      else case dpc r of Some p \<Rightarrow> ascii '' (at pc '' @ hex4 (unat p) @ ascii '')'' | None \<Rightarrow> [])"

section \<open>The lines of a text\<close>

lemma src_lines_Nil [simp]: "src_lines [] = []"
  by (simp add: src_lines.simps)

lemma src_lines_next:
  assumes "0x0A \<notin> set l"
  shows "src_lines (l @ 0x0A # s) = strip_cr l # src_lines s"
proof -
  have "takeWhile (\<lambda>b. b \<noteq> 0x0A) (l @ 0x0A # s) = l" "dropWhile (\<lambda>b. b \<noteq> 0x0A) (l @ 0x0A # s) = 0x0A # s"
    using assms by (induction l) auto
  then show ?thesis by (simp add: src_lines.simps [of "l @ 0x0A # s"])
qed

text \<open>Lines written one after the other come back.\<close>

theorem src_lines_written:
  assumes "\<forall>l\<in>set ls. 0x0A \<notin> set l \<and> (l \<noteq> [] \<longrightarrow> last l \<noteq> 0x0D)"
  shows "src_lines (concat (map (\<lambda>l. l @ end_line) ls)) = ls"
  using assms
proof (induction ls)
  case (Cons l ls)
  then have "strip_cr l = l" by (auto simp: strip_cr_def)
  with Cons src_lines_next [of l] show ?case by (simp add: end_line_def)
qed simp

section \<open>What a report shows\<close>

text \<open>Without a place in the source the text does not depend on the source.\<close>

lemma render_synthetic:
  "is_synthetic (dspan r) \<Longrightarrow> render_report r name source = render_report r name None"
  by (simp add: render_report_def split: option.split)

text \<open>With one, the line is quoted and underlined from its column on, by at least one caret.\<close>

lemma snippet_line:
  assumes "\<not> is_synthetic s" and "unat (span_line s) \<le> length ls"
    and "\<forall>l\<in>set ls. 0x0A \<notin> set l \<and> (l \<noteq> [] \<longrightarrow> last l \<noteq> 0x0D)"
  shows "snippet (concat (map (\<lambda>l. l @ end_line) ls)) s gutter [c] =
     pad_to gutter (show_nat (unat (span_line s))) @ bar @ ascii '' '' @ ls ! (unat (span_line s) - 1) @ end_line @
     pad_to gutter [] @ bar @ ascii '' '' @ replicate (unat (span_col s) - 1) 0x20 @
     replicate (max 1 (unat (span_hi s) - unat (span_lo s))) c @ end_line"
proof -
  have "unat (span_line s) \<noteq> 0" using assms(1) by (simp add: is_synthetic_def unat_eq_0)
  then have k: "\<not> length ls \<le> unat (span_line s) - 1" using assms(2) by simp
  have "concat (replicate n [c]) = replicate n c" for n by (induction n) simp_all
  with k show ?thesis by (simp add: snippet_def src_lines_written [OF assms(3)] Let_def)
qed

theorem render_quotes_line:
  assumes "\<not> is_synthetic (dspan r)" and "unat (span_line (dspan r)) \<le> length ls"
    and "\<forall>l\<in>set ls. 0x0A \<notin> set l \<and> (l \<noteq> [] \<longrightarrow> last l \<noteq> 0x0D)"
  shows "\<exists>a b w g. 0 < g \<and> render_report r name (Some (concat (map (\<lambda>l. l @ end_line) ls))) =
     render_head r @ a @ bar @ ascii '' '' @ ls ! (unat (span_line (dspan r)) - 1) @ end_line @
     replicate w 0x20 @ bar @ ascii '' '' @ replicate (unat (span_col (dspan r)) - 1) 0x20 @
     replicate g 0x5E @ end_line @ b"
proof -
  let ?src = "concat (map (\<lambda>l. l @ end_line) ls)" and ?w = "max 2 (length (show_nat (unat (widest_line r))))"
  obtain a b where "render_report r name (Some ?src) = render_head r @ a @ snippet ?src (dspan r) ?w [0x5E] @ b"
  proof
    show "render_report r name (Some ?src) = render_head r @
        (pad_to (?w + 1) [] @ corner @ ascii '' '' @ name @ ascii '':'' @ show_nat (unat (span_line (dspan r))) @ ascii '':'' @
           show_nat (unat (span_col (dspan r))) @ end_line @ pad_to (?w + 1) [] @ bar @ end_line) @
        snippet ?src (dspan r) ?w [0x5E] @
        (concat (map (render_label ?src ?w) (rp_labels r)) @ pad_to (?w + 1) [] @ bar @ end_line @
           concat (map (\<lambda>n. pad_to (?w + 1) [] @ ascii ''= '' @ n @ end_line) (rp_notes r)))"
      using assms(1) by (simp add: render_report_def Let_def)
  qed
  moreover have "0 < max 1 (unat (span_hi (dspan r)) - unat (span_lo (dspan r)))" by simp
  moreover have "pad_to ?w [] = replicate ?w 0x20" by (simp add: pad_to_def)
  ultimately show ?thesis
    unfolding snippet_line [OF assms] by (metis append.assoc)
qed

end
