(* ===== verification/CV_TextGraph.thy ===== *)
theory CV_TextGraph
  imports CV_Admitted CV_AsmFacts
begin

text \<open>
  What control flow the text of a program can have. \<open>assemble\<close> of \<open>src/src/asm.rs\<close> resolves a
  label only where it has been read already and leaves 0 elsewhere, so every branch leads back or to
  itself; \<open>admit\<close> of \<open>src/src/verify.rs\<close> takes an edge back only when it stays in its block.
\<close>

section \<open>Blocks are numbered in order\<close>

lemma partition_bounds:
  assumes "partition_blocks insns tables = Ok (blocks, owner)" and "insns \<noteq> []"
  shows "\<exists>leader. length leader = length insns \<and> length blocks = length (starts_of leader) \<and>
     (\<forall>b<length blocks. b_start (blocks ! b) = starts_of leader ! b \<and>
        b_end (blocks ! b) = block_end (starts_of leader) (length insns) b)"
proof -
  from assms(1) obtain leader bs where l: "leaders insns tables = Ok leader" and
    bs: "collect_res (block_succs insns tables (owners (starts_of leader) (length insns)))
      (bare_blocks (starts_of leader) (length insns)) = Ok bs" and blocks: "blocks = link_preds bs"
    by (auto simp: partition_blocks_def rbind_eq_Ok Let_def)
  from bare_succs [OF l assms(2)] bs have b: "length bs = length (starts_of leader)" "\<forall>b\<in>set bs. b_preds b = []"
    "succs_ok bs" "\<forall>b<length (starts_of leader). b_start (bs ! b) = starts_of leader ! b \<and>
      b_end (bs ! b) = block_end (starts_of leader) (length insns) b" by auto
  from link_preds_result(1) [OF b(3,2)] b(1,4) leaders_result(1) [OF l] blocks show ?thesis
    by (auto simp: same_shape_def)
qed

lemma blocks_in_order:
  assumes "build code f tables = Some (Ok g)" and "b < length (c_blocks g)"
  shows "b_end (c_blocks g ! b) = (if Suc b < length (c_blocks g) then b_start (c_blocks g ! Suc b) else length (c_insns g))"
    and "a < b \<Longrightarrow> b_start (c_blocks g ! a) < b_start (c_blocks g ! b)"
proof -
  from assms(1) obtain owner where p: "partition_blocks (c_insns g) tables = Ok (c_blocks g, owner)"
    unfolding build_def by (auto simp: obind_Some_Ok Let_def bind_eq_Some_conv)
  have "c_insns g \<noteq> []"
    using build_Ok(1) [OF assms(1)] assms(2) by (auto simp: cfg_ok_def blocks_ok_def)
  from partition_bounds [OF p this] obtain leader where l: "length (c_blocks g) = length (starts_of leader)"
    "\<And>b. b < length (c_blocks g) \<Longrightarrow> b_start (c_blocks g ! b) = starts_of leader ! b \<and>
        b_end (c_blocks g ! b) = block_end (starts_of leader) (length (c_insns g)) b" by auto
  show "b_end (c_blocks g ! b) = (if Suc b < length (c_blocks g) then b_start (c_blocks g ! Suc b) else length (c_insns g))"
    using l assms(2) by (simp add: block_end_def nth_get_def)
  show "a < b \<Longrightarrow> b_start (c_blocks g ! a) < b_start (c_blocks g ! b)"
    using l assms(2) starts_less [of a b leader] by simp
qed

section \<open>Control that never leaps forward\<close>

definition no_leap :: "(nat \<Rightarrow> nat \<Rightarrow> bool) \<Rightarrow> bool" where
  "no_leap E \<longleftrightarrow> (\<forall>i j. E i j \<longrightarrow> j \<le> i + 1)"

lemma walk_passes:
  "walk E ps \<Longrightarrow> no_leap E \<Longrightarrow> hd ps \<le> m \<Longrightarrow> m \<le> last ps \<Longrightarrow> m \<in> set ps"
proof (induction E ps rule: walk.induct)
  case (3 E x y xs)
  show ?case
  proof (cases "m = x")
    case False
    have "y \<le> x + 1" using 3(2,3) by (simp add: no_leap_def)
    with False 3 show ?thesis by simp
  qed simp
qed simp_all

lemma edges_no_leap:
  assumes "build code f tables = Some (Ok g)" and "no_leap (flow (c_insns g) tables)"
  shows "no_leap (edge (c_blocks g))"
  unfolding no_leap_def
proof (intro allI impI)
  fix t h assume e: "edge (c_blocks g) t h"
  have ok: "blocks_ok (c_insns g) tables (c_blocks g) (c_owner g)" using build_Ok(1) [OF assms(1)] by (simp add: cfg_ok_def)
  have t: "t < length (c_blocks g)" using e by (simp add: edge_def)
  note bf = block_facts [OF ok t]
  from bf(5) e obtain ss where ss: "raw_succs (c_insns g) tables (b_end (c_blocks g ! t) - 1) = Ok ss"
    "set (b_succs (c_blocks g ! t)) = (!) (c_owner g) ` set ss" "\<forall>s\<in>set ss. b_start (c_blocks g ! (c_owner g ! s)) = s" by blast
  with e obtain s where s: "s \<in> set ss" "h = c_owner g ! s" "b_start (c_blocks g ! h) = s" by (auto simp: edge_def)
  have "flow (c_insns g) tables (b_end (c_blocks g ! t) - 1) s" using ss(1) s(1) by (auto simp: flow_def)
  with assms(2) have "s \<le> b_end (c_blocks g ! t) - 1 + 1" unfolding no_leap_def by blast
  with bf(1) have le: "s \<le> b_end (c_blocks g ! t)" by simp
  have h: "h < length (c_blocks g)"
    using ok e by (auto simp: blocks_ok_def succs_ok_def)
  show "h \<le> t + 1"
  proof (rule ccontr)
    assume "\<not> h \<le> t + 1"
    then have "Suc t < h" by simp
    with blocks_in_order(2) [OF assms(1) h, of "Suc t"] blocks_in_order(1) [OF assms(1) t] h s(3) le show False by simp
  qed
qed

text \<open>An edge back then leads to a dominator.\<close>

lemma back_edge_dominates:
  assumes "build code f tables = Some (Ok g)" and "no_leap (edge (c_blocks g))"
    and "reachable_block g t" and "h \<le> t"
  shows "dominator g h t"
  using assms(3,4) walk_passes [OF _ assms(2)] by (auto simp: reachable_block_def dominator_def on_every_walk_def)

section \<open>Text\<close>

lemma narrow_offset:
  assumes "\<forall>p\<in>set xs. encoded_len (snd p) = 4"
  shows "length (emitted xs) = 4 * length xs"
  using assms unfolding length_emitted by (induction xs) auto

lemma text_no_leap:
  assumes "one_main x xs" and "\<forall>p\<in>set xs. encoded_len (snd p) = 4"
  shows "no_leap (flow (map decoded_of xs) (o_jump_tables x))"
  unfolding no_leap_def
proof (intro allI impI)
  fix i j assume "flow (map decoded_of xs) (o_jump_tables x) i j"
  then obtain ss where ss: "raw_succs (map decoded_of xs) (o_jump_tables x) i = Ok ss" "j \<in> set ss" by (auto simp: flow_def)
  then have i: "i < length xs" by (auto simp: raw_succs_def nth_get_def split: if_splits)
  have "length (emitted (take i xs)) = 4 * i"
    using narrow_offset [of "take i xs"] assms(2) i by (auto dest: in_set_takeD)
  with assms(1) i have target: "operand (insn (fst (xs ! i))) = OprTarget \<Longrightarrow> unat (snd (xs ! i)) \<le> i"
    by (auto simp: one_main_def operands_ok_def operand_ok_def)
  have table: "u = 0" if "n < length (o_jump_tables x)" "u \<in> set (o_jump_tables x ! n)" for n u
    using that assms(1) by (auto simp: one_main_def one_table_each_def)
  show "j \<le> i + 1"
  proof (cases "fst (xs ! i) = OpSwitch")
    case True
    with ss i show ?thesis
      by (auto simp: raw_succs_def nth_get_def collect_res_set rbind_eq_Ok Let_def dest: table split: option.splits if_splits)
  next
    case False
    with ss i target show ?thesis
      by (auto simp: raw_succs_def nth_get_def rbind_eq_Ok Let_def target_ops split: if_splits)
  qed
qed

text \<open>The graph of accepted text, whose instructions are all narrow, is a chain with loops at single
  blocks, and of those the instruction whose position is the number of the block is a metering one.\<close>

theorem accepted_text_graph:
  assumes "assemble name src = Ok x" and "admit seal_check build_image mark_verified x = Some (Ok im)"
    and "length (o_code x) < 2 ^ 32" and "f \<in> set (o_funcs x)" and "build (o_code x) f (o_jump_tables x) = Some (Ok g)"
    and "\<forall>d\<in>set (c_insns g). d_len d = 4" and "reachable_block g t" and "edge (c_blocks g) t h"
  shows "h = t + 1 \<or> h = t \<and> d_op (c_insns g ! t) \<in> set metering"
proof -
  from assemble_one_main [OF assms(1)] obtain xs where xs: "one_main x xs" by blast
  from assembled_decodes [OF xs assms(4,3)] build_Ok(2) [OF assms(5)] have insns: "c_insns g = map decoded_of xs" by simp
  have "\<forall>p\<in>set xs. encoded_len (snd p) = 4" using assms(6) by (auto simp: insns decoded_of_def)
  from text_no_leap [OF xs this] have "no_leap (flow (c_insns g) (o_jump_tables x))" by (simp add: insns)
  note nl = edges_no_leap [OF assms(5) this]
  show ?thesis
  proof (cases "h \<le> t")
    case True
    from admitted_loops_metered [OF assms(2,4,5,7,8) back_edge_dominates [OF assms(5) nl assms(7) True]] True
    show ?thesis by auto
  next
    case False
    moreover have "h \<le> t + 1" using nl assms(8) unfolding no_leap_def by blast
    ultimately show ?thesis by simp
  qed
qed

text \<open>Without a metering instruction, accepted text never branches.\<close>

theorem accepted_text_straight:
  assumes "assemble name src = Ok x" and "admit seal_check build_image mark_verified x = Some (Ok im)"
    and "length (o_code x) < 2 ^ 32" and "f \<in> set (o_funcs x)" and "build (o_code x) f (o_jump_tables x) = Some (Ok g)"
    and "\<forall>d\<in>set (c_insns g). d_len d = 4 \<and> d_op d \<notin> set metering"
    and "reaches (flow (c_insns g) (o_jump_tables x)) 0 i" and "flow (c_insns g) (o_jump_tables x) i j"
  shows "j = i + 1"
proof -
  have ok: "blocks_ok (c_insns g) (o_jump_tables x) (c_blocks g) (c_owner g)"
    using build_Ok(1) [OF assms(5)] by (simp add: cfg_ok_def)
  have i: "i < length (c_insns g)" using assms(8) by (auto simp: flow_def raw_succs_def nth_get_def split: if_splits)
  have j: "j < length (c_insns g)" by (rule flow_in_range [OF assms(8)])
  let ?t = "c_owner g ! i" and ?h = "c_owner g ! j"
  have r: "reaches (edge (c_blocks g)) 0 ?t" using reach_blocks [OF ok i] assms(7) by blast
  note o = owner_facts [OF ok i]
  note fl = flow_blocks [OF ok i j]
  show ?thesis
  proof (cases "i + 1 < b_end (c_blocks g ! ?t)")
    case True
    with fl assms(8) show ?thesis by simp
  next
    case False
    with fl assms(8) have e: "edge (c_blocks g) ?t ?h" "j = b_start (c_blocks g ! ?h)" by simp_all
    have "c_blocks g \<noteq> []" using o(1) by force
    with r have rb: "reachable_block g ?t" by (simp add: reachable_block_def)
    have narrow: "\<forall>d\<in>set (c_insns g). d_len d = 4" using assms(6) by blast
    have "length (c_blocks g) \<le> length (c_insns g)" using ok by (simp add: blocks_ok_def)
    with o(1) have "c_insns g ! ?t \<in> set (c_insns g)" by simp
    with assms(6) have "d_op (c_insns g ! ?t) \<notin> set metering" by blast
    with accepted_text_graph [OF assms(1,2,3,4,5) narrow rb e(1)] have h: "?h = Suc ?t" by simp
    then have "b_end (c_blocks g ! ?t) = j"
      using blocks_in_order(1) [OF assms(5) o(1)] owner_facts(1) [OF ok j] e(2) by simp
    with False o(3) show ?thesis by linarith
  qed
qed

end
