(* ===== verification/CV_Samples.thy ===== *)
theory CV_Samples
  imports CV_Session CV_Hosted CV_Cli CV_Further CV_Fuzz CV_Markdown CV_Render CV_TextGraph
begin

text \<open>
  Concrete programs, objects, graphs and images on which the theorems about the tool chain are
  applied. \<open>plain_image\<close> stands for what the missing \<open>image.rs\<close> builds.
\<close>

section \<open>Images\<close>

definition plain_image :: "obj \<Rightarrow> image" where
  "plain_image x = \<lparr>img_constants = o_constants x, img_funcs = o_funcs x, img_tools = o_tools x,
     img_code = o_code x, img_jump_tables = o_jump_tables x\<rparr>"

lemma plain_image_keeps: "keeps_parts plain_image (\<lambda>im. im)"
  by (simp add: keeps_parts_def plain_image_def)

section \<open>A program without branches, as text\<close>

definition product_lines :: "line list" where
  "product_lines = [Ins OpLdi (Some 6), Ins OpLdi (Some 7), Ins OpMul None, Ins OpHalt None]"

definition product_code :: "(op \<times> u32) list" where
  "product_code = [(OpLdi, 6), (OpLdi, 7), (OpMul, 0), (OpHalt, 0)]"

lemma product_lines_ok: "list_all line_ok product_lines"
  by code_simp

lemma product_written: "written 2 product_lines (listing 2 product_lines)"
  by (rule listing_written [OF product_lines_ok])

lemma product_means: "\<exists>ls. lines_mean product_lines ([], []) = Some (ls, product_code)"
  by (simp add: product_lines_def product_code_def int_operand_def abs_min_def insn_eq mk_row_def)

lemma product_straight: "plain_straight (map decoded_of product_code)"
  by code_simp

lemma product_scan: "scan [(ascii ''main'', 0)] 0 0 2 0 (map decoded_of product_code) (0, []) = Ok ()"
  by code_simp

lemma product_calc: "calc_all (butlast (map decoded_of product_code)) [] = Some [42]"
  by code_simp

text \<open>A program that reads an argument and then divides by zero.\<close>

definition quotient_lines :: "line list" where
  "quotient_lines = [Ins OpArgv (Some 0), Ins OpDrop None, Ins OpLdi (Some 7), Ins OpLdi (Some 0), Ins OpDiv None, Ins OpHalt None]"

definition quotient_code :: "(op \<times> u32) list" where
  "quotient_code = [(OpArgv, 0), (OpDrop, 0), (OpLdi, 7), (OpLdi, 0), (OpDiv, 0), (OpHalt, 0)]"

lemma quotient_facts:
  "list_all line_ok quotient_lines" "sound_straight (map decoded_of quotient_code)"
  "fork_balance (map decoded_of quotient_code) = 0"
  "scan [(ascii ''main'', 0)] 0 0 2 0 (map decoded_of quotient_code) (0, []) = Ok ()"
  by code_simp+

lemma quotient_means: "\<exists>ls. lines_mean quotient_lines ([], []) = Some (ls, quotient_code)"
  by (simp add: quotient_lines_def quotient_code_def int_operand_def abs_min_def insn_eq mk_row_def)

lemma quotient_admitted:
  "\<exists>x im s. assemble [] (listing 2 quotient_lines) = Ok x \<and> admit (\<lambda>_. Ok ()) plain_image (\<lambda>im. im) x = Some (Ok im) \<and>
     vm_new im limits_default = Ok s \<and> length (o_funcs x) < 2 ^ 32 \<and>
     (\<forall>f\<in>set (o_funcs x). decode_range (o_code x) f = Ok (map decoded_of quotient_code, starts_at 0 quotient_code))"
proof -
  obtain ls where ls: "lines_mean quotient_lines ([], []) = Some (ls, quotient_code)" using quotient_means by blast
  have "length quotient_code < 2 ^ 30" "2 \<noteq> (0 :: u16)" by (simp_all add: quotient_code_def)
  from listing_admitted [where seal_check = "\<lambda>_. Ok ()" and build_image = plain_image and mark_verified = "\<lambda>im. im",
      OF listing_written [OF quotient_facts(1)] ls quotient_facts(2,3) this(2) quotient_facts(4) this(1) _ plain_image_keeps] show ?thesis by simp
qed

section \<open>Accepted objects\<close>

definition skip_object :: obj where
  "skip_object = built [] [main_of 1 skip_push]"

definition skip_vm :: vm where
  "skip_vm = (case vm_new (plain_image skip_object) limits_default of Ok s \<Rightarrow> s | _ \<Rightarrow> sum_vm)"

lemma skip_object_sel:
  "o_funcs skip_object = [hd (metas 0 [main_of 1 skip_push])]" "o_code skip_object = emitted skip_push"
  "o_jump_tables skip_object = []" "fm_maxstack (hd (metas 0 [main_of 1 skip_push])) = 1"
proof -
  have "s_maxstack (main_of 1 skip_push) = 1" by (simp add: main_of_def)
  then show "o_funcs skip_object = [hd (metas 0 [main_of 1 skip_push])]" "o_code skip_object = emitted skip_push"
    "o_jump_tables skip_object = []" "fm_maxstack (hd (metas 0 [main_of 1 skip_push])) = 1"
    by (simp_all add: skip_object_def built_def fn_code_main)
qed

lemma skip_vm_new: "vm_new (plain_image skip_object) limits_default = Ok skip_vm"
proof -
  have "\<exists>s. vm_new (plain_image skip_object) limits_default = Ok s"
    by (simp add: vm_new_def plain_image_def skip_object_sel nth_get_def main_of_def)
  then show ?thesis by (auto simp: skip_vm_def)
qed

lemma skip_admitted: "admit (\<lambda>_. Ok ()) plain_image (\<lambda>im. im) skip_object = Some (Ok (plain_image skip_object))"
  using admit_main [of skip_push 1 "Ok ()" "\<lambda>_. Ok ()" plain_image "\<lambda>im. im" "[]", OF skip_accepted] by (simp add: skip_object_def)

lemma skip_object_range:
  "\<exists>f ats. f \<in> set (o_funcs skip_object) \<and> decode_range (o_code skip_object) f = Ok (map decoded_of skip_push, ats)"
  using built_main [of skip_push "[]" 1] skip_eval(1) by (auto simp: skip_object_def built_def fn_code_main)

lemma skip_object_decodes:
  assumes "f \<in> set (o_funcs skip_object)"
  shows "\<forall>ds ats. decode_range (o_code skip_object) f = Ok (ds, ats) \<longrightarrow>
     ds = map decoded_of skip_push \<and> fm_maxstack f = 1"
proof -
  have "f = hd (metas 0 [main_of 1 skip_push])" using assms by (simp only: skip_object_sel(1)) simp
  moreover obtain ats where "decode_range (o_code skip_object) f = Ok (map decoded_of skip_push, ats)"
    using skip_object_range assms by (fastforce simp only: skip_object_sel(1) list.set)
  ultimately show ?thesis using skip_object_sel(4) by simp
qed

lemma skip_ops: "\<forall>d\<in>set (map decoded_of skip_push). d_len d = 4 \<and> d_op d \<in> set jump_ops"
  by code_simp

definition spin_object :: obj where
  "spin_object = built [] [main_of 1 spin]"

lemma spin_object_sel:
  "o_funcs spin_object = [hd (metas 0 [main_of 1 spin])]" "o_code spin_object = emitted spin"
  "o_jump_tables spin_object = []"
  by (simp_all add: spin_object_def built_def fn_code_main)

lemma spin_admitted: "admit (\<lambda>_. Ok ()) plain_image (\<lambda>im. im) spin_object = Some (Ok (plain_image spin_object))"
  using admit_main [of spin 1 "Ok ()" "\<lambda>_. Ok ()" plain_image "\<lambda>im. im" "[]", OF spin_accepted] by (simp add: spin_object_def)

definition spin_cfg :: cfg where
  "spin_cfg = (case build (emitted spin) (hd (metas 0 [main_of 1 spin])) [] of Some (Ok g) \<Rightarrow> g | _ \<Rightarrow> outer_cfg)"

lemma spin_cfg_build: "build (o_code spin_object) (hd (o_funcs spin_object)) (o_jump_tables spin_object) = Some (Ok spin_cfg)"
  and spin_cfg_sel: "c_insns spin_cfg = map decoded_of spin" "c_blocks spin_cfg = spin_blocks"
  using spin_build by (auto simp: spin_cfg_def spin_object_sel)

text \<open>Block 2 is a loop.\<close>

lemma spin_loop:
  "reachable_block spin_cfg 2" "edge (c_blocks spin_cfg) 2 2" "dominator spin_cfg 2 2"
proof -
  have e: "edge spin_blocks 0 2" "edge spin_blocks 2 2" by (simp_all add: edge_def spin_blocks_def)
  then have r: "reaches (edge spin_blocks) 0 2" by blast
  from e(2) r show "reachable_block spin_cfg 2" "edge (c_blocks spin_cfg) 2 2" "dominator spin_cfg 2 2"
    by (auto simp: reachable_block_def dominator_def spin_cfg_sel intro: dom_refl) (simp_all add: spin_blocks_def)
qed

section \<open>Assembled text\<close>

lemma product_assembles: "assemble (ascii ''t'') (listing 2 product_lines) = Ok (main_obj (ascii ''t'') 2 product_code)"
proof -
  obtain ls where "lines_mean product_lines ([], []) = Some (ls, product_code)" using product_means by blast
  from assemble_listing [OF product_written this] show ?thesis .
qed

lemma product_length: "length (emitted product_code) = 16"
  by code_simp

section \<open>A program that stops for the host\<close>

lemma now_vm_traps:
  "\<exists>s t. vm_new now_image limits_default = Ok s \<and> vm_step None s = Some (Ok (StepTrap (TrapOracle OpNow)), t)"
proof -
  obtain s where s: "vm_new now_image limits_default = Ok s"
    by (simp add: vm_new_def now_image_def sum_image_def nth_get_def)
  have "length (img_funcs now_image) < 2 ^ 32" by (simp add: now_image_def sum_image_def)
  from vm_new_first_frame [OF s this] obtain g where g: "frames s = [g]" "frame_wf g" "pc g = 0"
    "unat (func g) < length (img_funcs now_image)" "vm_image s = now_image" "limits s = limits_default" "steps s = 0"
    "pending s = None" "halt s = None" by auto
  have "func g = 0" using g(4) by (simp add: now_image_def sum_image_def unat_eq_0)
  with g have "fetch s = Ok (ins OpNow 0)"
    using decode_assembled [of "[(OpNow, 0, 0), (OpHalt, 0, 0)]" 0 OpNow 0 0]
    by (simp add: fetch_def nth_get_def now_image_def sum_image_def ins_def)
  with g have "asking s [] g (TrapOracle OpNow) (Suc 0)" by (simp add: asking_def limits_default_def)
  from asking_runs [OF this] s show ?thesis by (auto simp: vm_step_def)
qed

text \<open>A host with a clock: every question moves it on.\<close>

definition clock_host :: "trap \<Rightarrow> (i64, diag, answer) sm" where
  "clock_host tr now = (Ok (AnsValue (case tr of TrapYield \<Rightarrow> VOID | _ \<Rightarrow> v_int now)), now + 1)"

lemma clock_host_recordable: "recordable clock_host"
proof -
  have "replayed (tr, AnsValue (case tr of TrapYield \<Rightarrow> VOID | _ \<Rightarrow> v_int now)) =
      AnsValue (case tr of TrapYield \<Rightarrow> VOID | _ \<Rightarrow> v_int now)" for tr now
    by (cases tr) simp_all
  then show ?thesis by (simp add: recordable_def clock_host_def)
qed

section \<open>From the shell\<close>

text \<open>A container format for one file.\<close>

definition holding :: "obj \<Rightarrow> container" where
  "holding x = \<lparr>k_seal = \<lambda>_. Ok (), k_build = plain_image, k_mark = \<lambda>im. im, k_to_bytes = \<lambda>_. [],
     k_from_bytes = \<lambda>_. Ok (plain_image x), k_verified = \<lambda>_. True, k_name = \<lambda>_. []\<rparr>"

lemma holding_sel:
  "k_seal (holding x) = (\<lambda>_. Ok ())" "k_build (holding x) = plain_image" "k_mark (holding x) = (\<lambda>im. im)"
  "k_from_bytes (holding x) bs = Ok (plain_image x)" "k_verified (holding x) im"
  by (simp_all add: holding_def)

lemma product_sel:
  "o_funcs (main_obj nm 2 product_code) = [main_meta 2 product_code]" "fm_maxstack (main_meta 2 product_code) = 2"
  by (simp_all add: main_obj_def main_meta_def)

lemma product_admitted:
  "admit (\<lambda>_. Ok ()) plain_image (\<lambda>im. im) (main_obj nm 2 product_code) = Some (Ok (plain_image (main_obj nm 2 product_code)))"
proof -
  obtain ls where ls: "lines_mean product_lines ([], []) = Some (ls, product_code)" using product_means by blast
  from assemble_listing [OF product_written ls, of nm]
    straight_listing_halts [where seal_check = "\<lambda>_. Ok ()" and nm = nm and lim = limits_default,
      OF product_written ls product_straight _ product_scan _ _ _ plain_image_keeps]
  obtain im where "admit (\<lambda>_. Ok ()) plain_image (\<lambda>im. im) (main_obj nm 2 product_code) = Some (Ok im)"
    by (auto simp: product_code_def limits_default_def)
  with admit_Ok(1) [OF this] show ?thesis by simp
qed

lemma product_decodes:
  "decode_range (o_code (main_obj nm 2 product_code)) (main_meta 2 product_code) =
     Ok (map decoded_of product_code, starts_at 0 product_code)"
  using main_decodes [of product_code 2] product_length by (simp add: main_obj_def)

lemma product_plays: "play 1000000 2 (map decoded_of product_code) 0 [] = Halts 42"
proof -
  let ?d = "\<lambda>k. map decoded_of product_code ! k"
  have "jump_move 2 (?d 0) 0 [] = Goes 1 [6]" "jump_move 2 (?d 1) 1 [6] = Goes 2 [7, 6]"
    "jump_move 2 (?d 2) 2 [7, 6] = Goes 3 [42]" "jump_move 2 (?d 3) 3 [42] = Halts 42"
    by code_simp+
  then have "play (Suc (Suc (Suc (Suc n)))) 2 (map decoded_of product_code) 0 [] = Halts 42" for n
    by (simp only: play.simps move.case)
  from this [of 999996] show ?thesis by simp
qed

lemma product_plain: "\<forall>d\<in>set (map decoded_of product_code). d_len d = 4 \<and> d_op d \<in> set jump_ops"
  by code_simp

lemma product_text: "valid_utf8 (listing 2 product_lines)" "ascii ''a'' \<noteq> ascii ''-o''"
  by code_simp+

section \<open>The fuzzer's first input\<close>

definition fuzz_first :: fuzz_state where
  "fuzz_first = \<lparr>fz_rng = 0x9E3779B97F4A7C15, fz_accepted = 0, fz_rejected = 0, fz_crashed = 0\<rparr>"

lemma fuzz_first_draws:
  assumes "random_code (unat (next_u64 (fz_rng fuzz_first) mod 24 + 1)) (next_u64 (fz_rng fuzz_first)) [] = (s, code)"
  shows "Some OpLdi \<in> drawn_op ` set (chunks_exact 4 code)" and "operand (insn OpLdi) \<noteq> OprNone"
proof -
  have "next_u64 0x9E3779B97F4A7C15 = 15860402102123842989" "first_drawn 15860402102123842989 = OpLdi" by code_simp+
  with first_drawn_in [OF assms] show "Some OpLdi \<in> drawn_op ` set (chunks_exact 4 code)"
    by (simp add: fuzz_first_def)
  show "operand (insn OpLdi) \<noteq> OprNone" by code_simp
qed

lemma sum_vm_snapshottable: "snapshottable sum_vm"
proof -
  have "frames sum_vm = [\<lparr>func = 0, pc = 0, slots = replicate 2 VOID, sp = 0, maxstack = 2, returns = 1\<rparr>]
    \<and> arena sum_vm = arena_new"
    by (simp add: sum_vm_def vm_new_def sum_image_def nth_get_def Let_def frame_new_def)
  then show ?thesis
    by (simp add: snapshottable_def snap_frame_ok_def slot_ok_def arena_len_def arena_new_def u32_max_def
        list_all_iff)
qed

section \<open>A loop in accepted text\<close>

definition turn_lines :: "line list" where
  "turn_lines = [Ins OpLdi (Some 5), Lab (ascii ''loop''), Ins OpReserve (Some 0), Ins OpLdi (Some 1),
     Jmp OpBrnz (ascii ''loop''), Ins OpLdi (Some 0), Ins OpHalt None]"

definition turn :: "(op \<times> u32) list" where
  "turn = [(OpLdi, 5), (OpReserve, 0), (OpLdi, 1), (OpBrnz, 1), (OpLdi, 0), (OpHalt, 0)]"

definition turn_blocks :: "block list" where
  "turn_blocks = [\<lparr>b_start = 0, b_end = 1, b_succs = [1], b_preds = []\<rparr>,
     \<lparr>b_start = 1, b_end = 4, b_succs = [1, 2], b_preds = [0, 1]\<rparr>,
     \<lparr>b_start = 4, b_end = 6, b_succs = [], b_preds = [1]\<rparr>]"

definition turn_cfg :: cfg where
  "turn_cfg = \<lparr>c_insns = map decoded_of turn, c_offsets = starts_at 0 turn, c_blocks = turn_blocks,
     c_owner = [0, 1, 1, 1, 2, 2], c_rpo = [0, 1, 2], c_rpo_num = rpo_numbers (length turn_blocks) [0, 1, 2],
     c_idoms = [0, 0, 1], c_back_edges = [(1, 1)]\<rparr>"

lemma turn_eval:
  "length (emitted turn) = 24"
  "partition_blocks (map decoded_of turn) [] = Ok (turn_blocks, [0, 1, 1, 1, 2, 2])"
  "reverse_postorder turn_blocks = Ok [0, 1, 2]"
  "scan [(ascii ''main'', 0)] 0 0 1 0 (map decoded_of turn) (0, []) = Ok ()"
  "fork_balance (map decoded_of turn) = 0"
  "check_loops (map decoded_of turn) [(1, 1)] = Ok ()"
  "one_table_each turn = []" "list_all line_ok turn_lines"
  "list_all (\<lambda>d. d_len d = 4) (map decoded_of turn)"
  by code_simp+

lemma turn_means: "\<exists>ls. lines_mean turn_lines ([], []) = Some (ls, turn)"
  by (simp add: turn_lines_def turn_def int_operand_def abs_min_def insn_eq mk_row_def length_emitted encoded_len_def)

lemma turn_assembles: "assemble nm (listing 1 turn_lines) = Ok (main_obj nm 1 turn)"
proof -
  obtain ls where "lines_mean turn_lines ([], []) = Some (ls, turn)" using turn_means by blast
  from assemble_listing [OF listing_written [OF turn_eval(8)] this] show ?thesis .
qed

lemma turn_build: "build (emitted turn) (main_meta 1 turn) [] = Some (Ok turn_cfg)"
proof -
  have dec: "decode_range (emitted turn) (main_meta 1 turn) = Ok (map decoded_of turn, starts_at 0 turn)"
    by (rule main_decodes) (simp add: turn_eval(1))
  have dom: "dominators turn_blocks [0, 1, 2] (rpo_numbers (length turn_blocks) [0, 1, 2]) = Some (Ok [0, 0, 1])"
    by (simp add: turn_blocks_def dominators_def rpo_numbers_def UNDEF_def dom_loop.simps intersect.simps climb.simps
        nth_get_def)
  have "find_back_edges \<lparr>c_insns = map decoded_of turn, c_offsets = starts_at 0 turn, c_blocks = turn_blocks,
      c_owner = [0, 1, 1, 1, 2, 2], c_rpo = [0, 1, 2], c_rpo_num = rpo_numbers (length turn_blocks) [0, 1, 2],
      c_idoms = [0, 0, 1], c_back_edges = []\<rparr> = Some [(1, 1)]"
    by (simp add: find_back_edges_def turn_blocks_def rpo_numbers_def dominates_def UNDEF_def on_chain.simps
        nth_get_def idom_def upt_conv_Cons)
  from build_eval [OF dec turn_eval(2,3) dom this] show ?thesis by (simp add: turn_cfg_def)
qed

lemma turn_admitted:
  "admit (\<lambda>_. Ok ()) plain_image (\<lambda>im. im) (main_obj nm 1 turn) = Some (Ok (plain_image (main_obj nm 1 turn)))"
proof -
  have "check_function (emitted turn) (main_meta 1 turn) [(ascii ''main'', 0)] [] 0 = Some (Ok ())"
    using check_function_eval [OF turn_build, of "[(ascii ''main'', 0)]" 0] turn_eval(4-6)
    by (simp add: turn_cfg_def main_meta_def turn_def)
  moreover have "func_index [main_meta 1 turn] = [(ascii ''main'', 0)]" by (simp add: func_index_def main_meta_def)
  ultimately show ?thesis by (simp add: admit_def main_obj_def turn_eval(7))
qed

lemma turn_loop: "reachable_block turn_cfg 1" "edge (c_blocks turn_cfg) 1 1"
proof -
  have "edge turn_blocks 0 1" "edge turn_blocks 1 1" by (simp_all add: edge_def turn_blocks_def)
  then show "reachable_block turn_cfg 1" "edge (c_blocks turn_cfg) 1 1"
    by (auto simp: reachable_block_def turn_cfg_def) (simp_all add: turn_blocks_def)
qed

end
