(* ===== verification/CV_Observe.thy ===== *)
theory CV_Observe
  imports CV_Cont CV_Driver
begin

text \<open>
  The methods of \<open>Vm\<close> in \<open>src/src/interp.rs\<close> that a host looks at a machine with, and the ones
  that exist for budgets and context rings in snapshots but are not called.
\<close>

section \<open>The methods\<close>

definition pending_trap :: "vm \<Rightarrow> trap option" where
  "pending_trap s = pending s"

definition halted :: "vm \<Rightarrow> i64 option" where
  "halted s = halt s"

definition vm_budget :: "vm \<Rightarrow> budget" where
  "vm_budget s = budget s"

definition vm_arena_len :: "vm \<Rightarrow> nat" where
  "vm_arena_len s = arena_len (arena s)"

definition frame_depth :: "vm \<Rightarrow> nat" where
  "frame_depth s = length (frames s)"

definition budget_snapshot :: "vm \<Rightarrow> budget" where
  "budget_snapshot s = budget s"

definition restore_budget :: "budget \<Rightarrow> vm \<Rightarrow> vm" where
  "restore_budget b s = s\<lparr>budget := b\<rparr>"

definition ctx_snapshot :: "vm \<Rightarrow> ctx_ring" where
  "ctx_snapshot s = ctx s"

definition restore_ctx :: "ctx_ring \<Rightarrow> vm \<Rightarrow> vm" where
  "restore_ctx c s = s\<lparr>ctx := c\<rparr>"

section \<open>What a host sees\<close>

text \<open>\<open>Vm::step\<close> takes the exit code and the trap out of the machine when it returns them, so
  \<open>halted\<close> and \<open>pending_trap\<close> answer \<open>None\<close> from then on, and another step halts with 0, whatever
  the exit code was.\<close>

theorem exit_code_given_once:
  assumes "vm_step None s = Some (Ok (Halted c), t)" and "halt_wf s" and "steps s \<le> max_steps (limits s)"
    and "max_steps (limits s) < 0xFFFFFFFFFFFFFFFF"
  shows "halted t = None \<and> frame_depth t = 0 \<and> vm_step None t = Some (Ok (Halted 0), t)"
proof -
  have "run_loop s = Some (Ok (Halted c), t)" using assms(1) by (simp add: vm_step_def)
  from run_loop_halts [OF this assms(2)] assms(3,4) have "pending t = None" "halt t = None" "frames t = []"
    by (simp_all add: word_le_nat_alt)
  then show ?thesis by (simp add: halted_def frame_depth_def vm_step_def run_loop.simps tick_def)
qed

theorem trap_given_once:
  assumes "vm_step None s = Some (Ok (StepTrap tr), t)" and "halt_wf s" and "steps s \<le> max_steps (limits s)"
    and "max_steps (limits s) < 0xFFFFFFFFFFFFFFFF"
  shows "pending_trap t = None"
proof -
  have "run_loop s = Some (Ok (StepTrap tr), t)" using assms(1) by (simp add: vm_step_def)
  from run_loop_halts [OF this assms(2)] assms(3,4) show ?thesis
    by (simp add: pending_trap_def word_le_nat_alt)
qed

text \<open>So a snapshot of a machine that has halted restores to one that halts with 0.\<close>

theorem halted_snapshot_forgets:
  assumes "vm_step None s = Some (Ok (Halted c), t)" and "halt_wf s" and "steps s \<le> max_steps (limits s)"
    and "max_steps (limits s) < 0xFFFFFFFFFFFFFFFF" and "arena_wf (arena t)"
    and "pending u = None" and "halt u = None"
  shows "\<exists>bs u'. snapshot t = Ok bs \<and> restore bs u = (Ok (), u') \<and> vm_step None u' = Some (Ok (Halted 0), u')"
proof -
  from exit_code_given_once [OF assms(1-4)] have "frames t = []" by (simp add: frame_depth_def)
  with assms(5) have "snapshottable t" by (simp add: snapshottable_def arena_wf_def arena_len_def)
  from restore_snapshot [OF this, of "[]" u] obtain bs where "snapshot t = Ok bs"
    "restore bs u = (Ok (), u\<lparr>arena := arena t, frames := frames t\<rparr>)" by auto
  with \<open>frames t = []\<close> assms(6,7) show ?thesis by (simp add: vm_step_def run_loop.simps tick_def)
qed

end
