(* ===== verification/CV_Flags.thy ===== *)
theory CV_Flags
  imports CV_Isa
begin

text \<open>
  The flag column of the table in \<open>src/src/isa.rs\<close>: \<open>str_eq\<close> and \<open>has_flag\<close>, the loops that the
  table's rows are computed with when the crate is compiled, and the flags of each row.
\<close>

section \<open>The loops\<close>

text \<open>Names of flags are ASCII: a character is a byte.\<close>

function str_eq_from :: "string \<Rightarrow> string \<Rightarrow> nat \<Rightarrow> bool" where
  "str_eq_from a b i =
     (if i < length a then (if a ! i \<noteq> b ! i then False else str_eq_from a b (i + 1)) else True)"
  by pat_completeness auto
termination
  by (relation "measure (\<lambda>(a, b, i). length a - i)") auto

declare str_eq_from.simps [simp del]

definition str_eq :: "string \<Rightarrow> string \<Rightarrow> bool" where
  "str_eq a b = (if length a \<noteq> length b then False else str_eq_from a b 0)"

function has_flag_from :: "string list \<Rightarrow> string \<Rightarrow> nat \<Rightarrow> bool" where
  "has_flag_from flags want i =
     (if i < length flags then (if str_eq (flags ! i) want then True else has_flag_from flags want (i + 1))
      else False)"
  by pat_completeness auto
termination
  by (relation "measure (\<lambda>(flags, want, i). length flags - i)") auto

declare has_flag_from.simps [simp del]

definition has_flag :: "string list \<Rightarrow> string \<Rightarrow> bool" where
  "has_flag flags want = has_flag_from flags want 0"

section \<open>What they decide\<close>

lemma str_eq_from_iff: "str_eq_from a b i \<longleftrightarrow> (\<forall>j. i \<le> j \<and> j < length a \<longrightarrow> a ! j = b ! j)"
proof (induction a b i rule: str_eq_from.induct)
  case (1 a b i)
  show ?case
  proof (cases "i < length a \<and> a ! i = b ! i")
    case True
    have "(\<forall>j. i \<le> j \<and> j < length a \<longrightarrow> a ! j = b ! j) \<longleftrightarrow> (\<forall>j. i + 1 \<le> j \<and> j < length a \<longrightarrow> a ! j = b ! j)"
      using True by (metis Suc_eq_plus1 Suc_leI Suc_leD le_neq_implies_less)
    with True 1 show ?thesis by (subst str_eq_from.simps) simp
  next
    case False
    then show ?thesis by (subst str_eq_from.simps) auto
  qed
qed

theorem str_eq_iff: "str_eq a b \<longleftrightarrow> a = b"
  by (auto simp: str_eq_def str_eq_from_iff intro: nth_equalityI)

lemma has_flag_from_iff: "has_flag_from flags want i \<longleftrightarrow> want \<in> set (drop i flags)"
proof (induction flags want i rule: has_flag_from.induct)
  case (1 flags want i)
  then show ?case
    by (subst has_flag_from.simps) (auto simp: str_eq_iff Cons_nth_drop_Suc [symmetric])
qed

theorem has_flag_iff: "has_flag flags want \<longleftrightarrow> want \<in> set flags"
  by (simp add: has_flag_def has_flag_from_iff)

section \<open>The column\<close>

definition op_flags :: "op \<Rightarrow> string list" where
  "op_flags x =
     (if x \<in> {OpRet, OpTail} then [''variadic'', ''terminal'']
      else if x \<in> {OpDupN, OpLdl, OpStl, OpPack, OpUnpack, OpCall, OpSelect} then [''variadic'']
      else if x \<in> {OpBr, OpSwitch, OpTrap, OpHalt, OpAbort} then [''terminal'']
      else [])"

theorem flags_of_row:
  "variadic (insn x) \<longleftrightarrow> has_flag (op_flags x) ''variadic''"
  "falls_through (insn x) \<longleftrightarrow> \<not> has_flag (op_flags x) ''terminal''"
  unfolding has_flag_iff by (cases x; simp add: insn_eq mk_row_def op_flags_def)+

end
