(* ===== verification/CV_Suite.thy ===== *)
theory CV_Suite
  imports CV_Samples CV_Observe CV_Flags
begin

text \<open>
  Programs from the tests of the repository (\<open>src/src/interp.rs\<close>, \<open>src/src/verify.rs\<close>,
  \<open>src/src/asm.rs\<close>, \<open>src/src/cont.rs\<close>), tokenized, assembled, verified and run in the model. The
  arithmetic test and the test of \<open>.maxstack\<close> come out as they expect. The others here do not: the
  minimal program, the metered loop, the call and the snapshot.
\<close>

section \<open>Sources\<close>

definition source :: "string list \<Rightarrow> bytes" where
  "source ls = concat (map (\<lambda>l. ascii l @ [0x0A]) ls)"

lemma source_written: "main_source mx lns = src \<Longrightarrow> list_all line_ok lns \<Longrightarrow> written mx lns src"
  using main_source_written by blast

text \<open>What the walk over the instructions refuses is not admitted.\<close>

lemma scan_refuses:
  assumes "written mx lns src" and "lines_mean lns ([], []) = Some (ls, xs)"
    and "length (emitted xs) < 2 ^ 32"
    and "scan [(ascii ''main'', 0)] (length (one_table_each xs)) 0 mx 0 (map decoded_of xs) (0, []) \<noteq> Ok ()"
  shows "\<exists>x. assemble nm src = Ok x \<and> (\<forall>im. admit seal_check build_image mark_verified x \<noteq> Some (Ok im))"
proof -
  let ?x = "main_obj nm mx xs"
  have "False" if "admit seal_check build_image mark_verified ?x = Some (Ok im)" for im
  proof -
    have "func_index [main_meta mx xs] = [(ascii ''main'', 0)]" by (simp add: func_index_def main_meta_def)
    with admit_Ok(3) [OF that, of "main_meta mx xs"]
    have "check_function (emitted xs) (main_meta mx xs) [(ascii ''main'', 0)] (one_table_each xs) 0 = Some (Ok ())"
      by (simp add: main_obj_def)
    from accepted_scan [OF this main_decodes [OF assms(3)]] assms(4) show False by (simp add: main_meta_def)
  qed
  with assemble_listing [OF assms(1,2), of nm] show ?thesis by blast
qed

section \<open>Arithmetic and the snapshot of a halted machine\<close>

text \<open>The program of \<open>arithmetic_program_halts_with_sum\<close>, and, with other numbers, of
  \<open>snapshot_restore_roundtrips_a_running_machine\<close>.\<close>

definition sum_lines :: "i64 \<Rightarrow> i64 \<Rightarrow> line list" where
  "sum_lines m n = [Lab (ascii ''main''), Ins OpLdi (Some m), Ins OpLdi (Some n), Ins OpAdd None, Ins OpHalt None]"

definition sum_ops :: "u32 \<Rightarrow> u32 \<Rightarrow> (op \<times> u32) list" where
  "sum_ops m n = [(OpLdi, m), (OpLdi, n), (OpAdd, 0), (OpHalt, 0)]"

lemma sum_sources:
  "written 4 (sum_lines 2 3) (source [''.fn main() -> i32'', ''.maxstack 4'', ''main:'',
     ''    ldi 2'', ''    ldi 3'', ''    add'', ''    halt''])"
  "written 3 (sum_lines 4 5) (source [''.fn main() -> i32'', ''.maxstack 3'', ''main:'',
     ''    ldi 4'', ''    ldi 5'', ''    add'', ''    halt''])"
  by (rule source_written; code_simp)+

lemma sum_means:
  "lines_mean (sum_lines 2 3) ([], []) = Some ([(ascii ''main'', 0)], sum_ops 2 3)"
  "lines_mean (sum_lines 4 5) ([], []) = Some ([(ascii ''main'', 0)], sum_ops 4 5)"
  by (simp_all add: sum_lines_def sum_ops_def int_operand_def abs_min_def insn_eq mk_row_def)

lemma sum_facts:
  "plain_straight (map decoded_of (sum_ops 2 3))" "plain_straight (map decoded_of (sum_ops 4 5))"
  "scan [(ascii ''main'', 0)] 0 0 4 0 (map decoded_of (sum_ops 2 3)) (0, []) = Ok ()"
  "scan [(ascii ''main'', 0)] 0 0 3 0 (map decoded_of (sum_ops 4 5)) (0, []) = Ok ()"
  "calc_all (butlast (map decoded_of (sum_ops 2 3))) [] = Some [5]"
  "calc_all (butlast (map decoded_of (sum_ops 4 5))) [] = Some [9]"
  "no_find (emitted (sum_ops 4 5))"
  by code_simp+

lemma sum_small: "length (sum_ops m n) < 2 ^ 30" "length (sum_ops m n) \<le> unat (max_steps limits_default)"
  by (simp_all add: sum_ops_def limits_default_def)

theorem arithmetic_test:
  "\<exists>x im s t. assemble (ascii ''t.cdx'') (source [''.fn main() -> i32'', ''.maxstack 4'', ''main:'',
       ''    ldi 2'', ''    ldi 3'', ''    add'', ''    halt'']) = Ok x \<and>
     admit (\<lambda>_. Ok ()) plain_image (\<lambda>im. im) x = Some (Ok im) \<and>
     vm_new im limits_default = Ok s \<and> vm_step None s = Some (Ok (Halted 5), t)"
proof -
  have "4 \<noteq> (0 :: u16)" by simp
  from straight_listing_halts [OF sum_sources(1) sum_means(1) sum_facts(1) this sum_facts(3) sum_small,
      of "\<lambda>_. Ok ()" plain_image "\<lambda>im. im" "ascii ''t.cdx''"]
  show ?thesis by (auto simp: sum_facts plain_image_keeps)
qed

text \<open>The test steps twice, takes a snapshot and expects a fresh machine restored from it to halt
  with 9. The first step already halts with 9, the second with 0, and so does the restored machine.\<close>

theorem snapshot_test_fails:
  "\<exists>x im s t bs u. assemble (ascii ''t.cdx'') (source [''.fn main() -> i32'', ''.maxstack 3'', ''main:'',
       ''    ldi 4'', ''    ldi 5'', ''    add'', ''    halt'']) = Ok x \<and>
     admit (\<lambda>_. Ok ()) plain_image (\<lambda>im. im) x = Some (Ok im) \<and> vm_new im limits_default = Ok s \<and>
     vm_step None s = Some (Ok (Halted 9), t) \<and> vm_step None t = Some (Ok (Halted 0), t) \<and>
     snapshot t = Ok bs \<and> restore bs s = (Ok (), u) \<and> vm_step None u = Some (Ok (Halted 0), u)"
proof -
  have "3 \<noteq> (0 :: u16)" by simp
  from straight_listing_halts [OF sum_sources(2) sum_means(2) sum_facts(2) this sum_facts(4) sum_small,
      of "\<lambda>_. Ok ()" plain_image "\<lambda>im. im" "ascii ''t.cdx''"]
  obtain x im s t where r: "assemble (ascii ''t.cdx'') (source [''.fn main() -> i32'', ''.maxstack 3'', ''main:'',
       ''    ldi 4'', ''    ldi 5'', ''    add'', ''    halt'']) = Ok x"
    "admit (\<lambda>_. Ok ()) plain_image (\<lambda>im. im) x = Some (Ok im)" "vm_new im limits_default = Ok s"
    "vm_step None s = Some (Ok (Halted 9), t)" by (auto simp: sum_facts plain_image_keeps)
  note s = vm_new_halt_wf [OF r(3)]
  have lim: "steps s \<le> max_steps (limits s)" "max_steps (limits s) < 0xFFFFFFFFFFFFFFFF"
    using s by (simp_all add: limits_default_def)
  have "x = main_obj (ascii ''t.cdx'') 3 (sum_ops 4 5)" using r(1) assemble_listing [OF sum_sources(2) sum_means(2)] by simp
  then have "img_code im = emitted (sum_ops 4 5)" using admit_Ok(1) [OF r(2)] by (simp add: plain_image_def main_obj_def)
  then have "no_find (img_code (vm_image s))" using vm_new_sel [OF r(3)] sum_facts(7) by simp
  from vm_step_safe [OF vm_live_wf [OF vm_new_live [OF r(3)]] lim(2) this, of None] r(4)
  have "arena_wf (arena t)" by (simp add: vm_wf_def)
  moreover have "pending s = None" "halt s = None"
    using r(3) by (auto simp: vm_new_def Let_def split: option.splits)
  ultimately show ?thesis
    using r exit_code_given_once [OF r(4) conjunct1 [OF s] lim] halted_snapshot_forgets [OF r(4) conjunct1 [OF s] lim, of s]
    by blast
qed

section \<open>What the verifier says\<close>

theorem maxstack_test:
  "\<exists>x. assemble (ascii ''t.cdx'') (source [''.fn main() -> i32'', ''.maxstack 1'', ''main:'',
       ''    ldi 1'', ''    ldi 2'', ''    ret'']) = Ok x \<and>
     (\<forall>im. admit seal_check build_image mark_verified x \<noteq> Some (Ok im))"
proof (rule scan_refuses)
  let ?lns = "[Lab (ascii ''main''), Ins OpLdi (Some 1), Ins OpLdi (Some 2), Ins OpRet None]"
  show "written 1 ?lns (source [''.fn main() -> i32'', ''.maxstack 1'', ''main:'', ''    ldi 1'', ''    ldi 2'', ''    ret''])"
    by (rule source_written; code_simp)
  show "lines_mean ?lns ([], []) = Some ([(ascii ''main'', 0)], [(OpLdi, 1), (OpLdi, 2), (OpRet, 0)])"
    by (simp add: int_operand_def abs_min_def insn_eq mk_row_def)
  have "scan [(ascii ''main'', 0)] (length (one_table_each [(OpLdi, 1), (OpLdi, 2), (OpRet, 0)])) 0 1 0
      (map decoded_of [(OpLdi, 1), (OpLdi, 2), (OpRet, 0)]) (0, []) = bad MaxstackExceeded 1" by code_simp
  then show "scan [(ascii ''main'', 0)] (length (one_table_each [(OpLdi, 1), (OpLdi, 2), (OpRet, 0)])) 0 1 0
      (map decoded_of [(OpLdi, 1), (OpLdi, 2), (OpRet, 0)]) (0, []) \<noteq> Ok ()" by simp
qed (simp add: length_emitted encoded_len_def)

text \<open>\<open>reserve\<close> pops an amount, so \<open>sub\<close> finds one operand; the test expects the program to be
  admitted and to halt with 0.\<close>

definition metered_lines :: "line list" where
  "metered_lines = [Lab (ascii ''main''), Ins OpLdi (Some 10), Lab (ascii ''loop''), Ins OpReserve (Some 0), Ins OpLdi (Some 1),
     Ins OpSub None, Ins OpDup None, Jmp OpBrnz (ascii ''loop''), Ins OpHalt None]"

definition metered_ops :: "(op \<times> u32) list" where
  "metered_ops = [(OpLdi, 10), (OpReserve, 0), (OpLdi, 1), (OpSub, 0), (OpDup, 0), (OpBrnz, 1), (OpHalt, 0)]"

theorem metered_loop_test_fails:
  "\<exists>x. assemble (ascii ''t.cdx'') (source [''.fn main() -> i32'', ''.maxstack 3'', ''main:'', ''    ldi 10'', ''loop:'',
       ''    reserve 0'', ''    ldi 1'', ''    sub'', ''    dup'', ''    brnz loop'', ''    halt'']) = Ok x \<and>
     (\<forall>im. admit seal_check build_image mark_verified x \<noteq> Some (Ok im))"
proof (rule scan_refuses)
  show "written 3 metered_lines (source [''.fn main() -> i32'', ''.maxstack 3'', ''main:'', ''    ldi 10'', ''loop:'',
       ''    reserve 0'', ''    ldi 1'', ''    sub'', ''    dup'', ''    brnz loop'', ''    halt''])"
    by (rule source_written; code_simp)
  have "ascii ''main'' \<noteq> ascii ''loop''" by code_simp
  then show "lines_mean metered_lines ([], []) = Some ([(ascii ''main'', 0), (ascii ''loop'', 1)], metered_ops)"
    by (simp add: metered_lines_def metered_ops_def int_operand_def abs_min_def insn_eq mk_row_def length_emitted encoded_len_def)
  have "scan [(ascii ''main'', 0)] (length (one_table_each metered_ops)) 0 3 0 (map decoded_of metered_ops) (0, []) =
      bad StackUnderflow 3" by code_simp
  then show "scan [(ascii ''main'', 0)] (length (one_table_each metered_ops)) 0 3 0 (map decoded_of metered_ops) (0, []) \<noteq>
      Ok ()" by simp
qed (simp add: metered_ops_def length_emitted encoded_len_def)

section \<open>What the assembler says\<close>

text \<open>\<open>call\<close> wants a name; the test calls function 1 and expects 8.\<close>

theorem call_test_fails:
  "\<exists>at. assemble (ascii ''t.cdx'') (source [''.fn main() -> i32'', ''.maxstack 2'', ''main:'', ''    call 1'', ''    halt'',
       ''.fn twice() -> i32'', ''.maxstack 2'', ''    ldi 4'', ''    ldi 2'', ''    mul'', ''    ret'']) =
     err_at MissingOperand at"
proof -
  let ?lns = "[Lab (ascii ''main''), Ins OpCall (Some 1), Ins OpHalt None]"
  let ?rest = "[(([], None), TDirective (ascii ''fn'')), (([0x20], None), TIdent (ascii ''twice'')), (([], None), TIdent (ascii ''('')),
      (([], None), TIdent (ascii '')'')), (([0x20], None), TIdent (ascii ''->'')), (([0x20], None), TIdent (ascii ''i32'')),
      (([], None), TNewline), (([], None), TDirective (ascii ''maxstack'')), (([0x20], None), TInt 2), (([], None), TNewline)] @
      concat (map line_layout [Ins OpLdi (Some 4), Ins OpLdi (Some 2), Ins OpMul None, Ins OpRet None])"
  have "source [''.fn main() -> i32'', ''.maxstack 2'', ''main:'', ''    call 1'', ''    halt'',
       ''.fn twice() -> i32'', ''.maxstack 2'', ''    ldi 4'', ''    ldi 2'', ''    mul'', ''    ret''] =
      typeset (main_layout 2 ?lns @ ?rest) ([], None)" by code_simp
  moreover have "layout_ok (main_layout 2 ?lns @ ?rest) ([], None)" by code_simp
  moreover have "map snd (main_layout 2 ?lns @ ?rest) = head_toks 2 @ concat (map line_toks ([Lab (ascii ''main'')] @ [Ins OpCall (Some 1)])) @
      line_toks (Ins OpHalt None) @ map snd ?rest" by (simp add: main_layout_def head_toks_def)
  ultimately have "starts_as 2 ([Lab (ascii ''main'')] @ [Ins OpCall (Some 1)]) (source [''.fn main() -> i32'', ''.maxstack 2'',
       ''main:'', ''    call 1'', ''    halt'', ''.fn twice() -> i32'', ''.maxstack 2'', ''    ldi 4'', ''    ldi 2'', ''    mul'', ''    ret''])"
    unfolding starts_as_def by blast
  from assemble_refused [OF this, of "[(ascii ''main'', 0)]" "[]"] show ?thesis
    by (simp add: int_operand_def refusal_def insn_eq mk_row_def)
qed

text \<open>\<open>.isa cdx/4\<close> is the first line of the minimal program of three tests.\<close>

theorem minimal_test_fails:
  "\<exists>at. assemble (ascii ''t.cdx'') (source [''.isa cdx/4'', ''.image \"t\"'', ''.fn main() -> i32'', ''.maxstack 1'',
       ''main:'', ''    ldi 0'', ''    ret'']) = err_at BadOperand at"
proof -
  let ?ts = "[(([], None), TDirective (ascii ''isa'')), (([0x20], None), TIdent (ascii ''cdx/4'')), (([], None), TNewline),
      (([], None), TDirective (ascii ''image'')), (([0x20], None), TStr (ascii ''t'')), (([], None), TNewline)] @
      main_layout 1 [Lab (ascii ''main''), Ins OpLdi (Some 0), Ins OpRet None]"
  have src: "source [''.isa cdx/4'', ''.image \"t\"'', ''.fn main() -> i32'', ''.maxstack 1'', ''main:'', ''    ldi 0'', ''    ret''] =
      typeset ?ts ([], None)" and ok: "layout_ok ?ts ([], None)" by code_simp+
  have "map snd ?ts = TDirective (ascii ''isa'') # TIdent (ascii ''cdx/4'') # tl (tl (map snd ?ts))" by simp
  from isa_argument_refused [OF ok this] show ?thesis unfolding src .
qed

end
