(* ===== verification/Spec2Isabelle.thy ===== *)
theory Spec2Isabelle
  imports CV_Suite
begin

text \<open>
  A verification development for CinderVM, a stack machine written in Rust whose programs suspend
  at every contact with the outside world and can be snapshotted, journalled and replayed.
  File and function names below are those under \<open>src/src/\<close>.

  The program's parts. \<open>asm.rs\<close> turns text into an object (\<open>lex.rs\<close> reads the text; \<open>Builder\<close>
  makes one without text), \<open>verify.rs\<close> checks an object over the control-flow graph of \<open>cfg.rs\<close> and
  makes an image of it, \<open>disas.rs\<close> prints an image, and \<open>interp.rs\<close> runs it: a \<open>Vm\<close> is a
  stack of frames (\<open>frame.rs\<close>) over one append-only arena (\<open>heap.rs\<close>), with a context ring
  (\<open>ctx.rs\<close>) and a budget (\<open>budget.rs\<close>). Instructions (\<open>isa.rs\<close>) move sixteen-byte values
  (\<open>value.rs\<close>). \<open>Vm::step\<close> runs until the program halts or raises a trap (\<open>trap.rs\<close>); the host
  answers and calls \<open>step\<close> again. \<open>cont.rs\<close> writes a suspended machine to bytes and reads it back.
  \<open>journal.rs\<close> keeps what was answered under a hash chain (\<open>hash.rs\<close>), \<open>replay.rs\<close> answers a second
  run from it, and \<open>wire.rs\<close> frames the messages to a supervising process. Every failure is a
  diagnostic code of \<open>diag.rs\<close>.

  How it is modelled. A Rust function of type \<open>Result\<close> is a function into \<open>res\<close> (\<open>Ok\<close>, \<open>Err\<close>,
  \<open>Panic\<close>; a panic of indexing, slicing or \<open>expect\<close> is a value, so that its absence is a theorem).
  A method on \<open>&mut self\<close> is a state transformer \<open>('s, 'e, 'a) sm\<close>, a function from the state to a
  result and the state left behind, whether it succeeds or not; \<open>sbind\<close> and \<open>sthen\<close> are the \<open>?\<close>
  operator. Integers are words of the code's width, and \<open>usize\<close> is \<open>nat\<close>. The triples
  \<open>triple P m Q R S\<close> of \<open>CV_Prelude\<close> (on success, on error, on panic) and their rules \<open>wp_*\<close> carry
  the proofs about state transformers.

  The theories, in order.

    \<^item> \<open>CV_Prelude\<close>: words, results, slices, little-endian integers, state transformers, triples.
    \<^item> \<open>CV_Diag\<close> (\<open>diag.rs\<close>): spans, phases, the code table, \<open>Diag\<close> and its constructors.
    \<^item> \<open>CV_Isa\<close> (\<open>isa.rs\<close>): the types and their join, the opcode table, \<open>encode\<close>, \<open>decode\<close>, \<open>imm\<close>.
      \<open>CV_Flags\<close>: the loops over bytes with which the table is read at compile time, and the flag
      words of its rows.
    \<^item> \<open>CV_Value\<close> (\<open>value.rs\<close>): tags, handles, values, their slots.
    \<^item> \<open>CV_Text\<close>: what the code uses of Rust's strings: UTF-8 validity, lossy decoding, \<open>split("{}")\<close>,
      decimal and hexadecimal output.
    \<^item> \<open>CV_Hash\<close>, \<open>CV_Heap\<close>, \<open>CV_Frame\<close>, \<open>CV_Budget\<close>, \<open>CV_Ctx\<close>, \<open>CV_Trap\<close>: the files of those names.
      The locales \<open>byte_store\<close>, \<open>bounded_stack\<close> and \<open>ledger\<close> state what the machine needs of an
      arena, an operand stack and a budget, and are interpreted on the code's own operations.
    \<^item> \<open>CV_Reader\<close>: the locale \<open>reader\<close>, what a cursor over bytes must promise for the records of
      a format to be read back and for a cut format to be refused; interpreted on the cursors of
      \<open>journal.rs\<close> and \<open>cont.rs\<close>.
    \<^item> \<open>CV_Journal\<close> (locale \<open>hash_chain\<close>, interpreted on \<open>hash::chain\<close>), \<open>CV_Replay\<close>, \<open>CV_Wire\<close>.
    \<^item> \<open>CV_Machine\<close> (\<open>interp.rs\<close>): \<open>Limits\<close>, \<open>Vm\<close>, \<open>Vm::new\<close>, access to the current frame, and the
      invariant \<open>vm_wf\<close> (every frame's operands fit its slots and its function is one of the image,
      a staged arena exists exactly inside a fork).
    \<^item> \<open>CV_Exec\<close>: the match of \<open>Vm::exec\<close>, one definition \<open>ex_*\<close> per arm, composed by \<open>exec_op\<close>
      and \<open>exec\<close>.
    \<^item> \<open>CV_Safety\<close>: every arm keeps \<open>vm_wf\<close> and does not panic; the exception is \<open>find\<close>.
    \<^item> \<open>CV_Run\<close>: \<open>Vm::step\<close>. Its loop is a \<open>partial_function (option)\<close>, \<open>None\<close> when it does not
      return; it returns, since a step limit below the largest \<open>u64\<close> bounds its iterations. The
      locale \<open>step_relation\<close> lifts a relation that every state change satisfies from instructions
      to runs (same program, growing arena, same fork state).
    \<^item> \<open>CV_Behaviour\<close> (what the instructions compute, as operand stack before and after),
      \<open>CV_Control\<close> (forks, calls, traps), \<open>CV_Programs\<close> (whole runs of assembled programs).
    \<^item> \<open>CV_Cont\<close> (\<open>cont.rs\<close>): \<open>snapshot\<close>, \<open>restore\<close>. \<open>CV_Hosted\<close>: everything a host can do with a
      machine as the inductive relation \<open>hosted\<close> (new machines over the same code, steps with any
      answer, snapshots of any machine, restores of whole and of cut snapshots; a panic ends it), and
      its invariant. An answer to a machine without frames is the only panic (\<open>answers_frameless\<close>).
      \<open>CV_Observe\<close>: the methods by which a host looks at a machine.
    \<^item> \<open>CV_Cfg\<close> (\<open>cfg.rs\<close>): decoding of a range, blocks, reverse postorder, dominators, back edges,
      queries. The loops that climb immediate dominators and repeat the sweep are
      \<open>partial_function (option)\<close>. \<open>CV_Graph\<close> holds walks and dominance as the textbook has them;
      \<open>CV_Rpo\<close> (the depth-first search), \<open>CV_Chains\<close> (\<open>intersect\<close>), \<open>CV_Dom\<close> and \<open>CV_Doms\<close> (one
      sweep keeps an invariant, the sweeps end because a potential falls, and what is left when they
      settle are the dominators), \<open>CV_Blocks\<close> and \<open>CV_Build\<close> (the blocks partition the
      instructions) and \<open>CV_Flow\<close> (the whole of \<open>Cfg::build\<close>; instructions and blocks reach the
      same).
    \<^item> \<open>CV_Object\<close>, \<open>CV_Verify\<close> (\<open>verify.rs\<close>): \<open>admit\<close> and its walk over the instructions.
    \<^item> \<open>CV_Types\<close>, \<open>CV_Accept\<close>: type soundness of single instructions, and the abstract stack of the
      verifier as a refinement of the operand stack. \<open>sound_ops\<close> are the opcodes for which this
      is shown; the others have rows that disagree with the interpreter, or leave the straight line.
    \<^item> \<open>CV_Calc\<close>, \<open>CV_Straight\<close>, \<open>CV_Sound\<close>: accepted programs without branches whose instructions
      are all narrow and end with \<open>halt\<close>, of plain integer opcodes (they halt with the result of the
      reference machine \<open>calc_all\<close>) and of \<open>sound_ops\<close> (they go right). Here and below, programs are
      narrow where their run is followed through: the interpreter moves on by one word behind a wide
      instruction and runs its second word as well (\<open>wide_instruction_runs_twice\<close>).
    \<^item> \<open>CV_Lex\<close> (\<open>lex.rs\<close>), \<open>CV_LexRound\<close> (against a typesetter: tokens behind any gaps of white
      space and comments that keep them apart, \<open>layout_with\<close>; \<open>read_back\<close> is what comes back, the
      tokens themselves but for bytes above 127 in strings and the least \<open>i64\<close>), \<open>CV_Asm\<close> (\<open>assemble\<close> of \<open>asm.rs\<close>),
      \<open>CV_AsmFacts\<close> (it never panics; what it emits decodes), \<open>CV_Listing\<close> (listings in any layout
      and their meaning), \<open>CV_Refused\<close> (texts that are refused at an instruction), \<open>CV_Builder\<close>
      (\<open>Builder\<close> of \<open>asm.rs\<close>).
    \<^item> \<open>CV_Pipeline\<close>: \<open>assemble\<close>, \<open>admit\<close>, \<open>Vm::new\<close> and \<open>Vm::step\<close> one after the other.
    \<^item> \<open>CV_Jumps\<close>: the reference machine \<open>play\<close>, with branches, division and every failure, and its
      simulation by the interpreter, for narrow instructions out of \<open>jump_ops\<close>. \<open>CV_Admitted\<close>: what acceptance promises. \<open>CV_TextGraph\<close>: the control
      flow that accepted text can have. \<open>CV_Verdicts\<close>: four programs that
      show what it does not promise, evaluated through the verifier.
    \<^item> \<open>CV_Session\<close>: whole runs between the machine and its host, recorded and replayed, for hosts
      whose answers the journal can give back (\<open>recordable\<close>).
    \<^item> \<open>CV_Disas\<close> (\<open>disas.rs\<close>), \<open>CV_Driver\<close> (\<open>run_image\<close> of \<open>bin/cinderc.rs\<close>), \<open>CV_Tools\<close> (\<open>build\<close>
      of \<open>lib.rs\<close>, the other commands of \<open>cinderc\<close> and \<open>cinder\<close>), \<open>CV_Cli\<close> (\<open>main\<close> of both, from
      arguments and files to the exit code and the files left; a panic aborts the process, as the
      release profile of \<open>Cargo.toml\<close> has it, and \<open>cinder\<close> makes 1 of that), \<open>CV_Fuzz\<close> (\<open>bin/cinder_fuzz.rs\<close>).
    \<^item> \<open>CV_Render\<close> (\<open>Diag::render\<close>), \<open>CV_Markdown\<close> (\<open>emit_markdown\<close> of \<open>isa.rs\<close>).
    \<^item> \<open>CV_Instances\<close>, \<open>CV_Samples\<close>: concrete machines, programs, objects and graphs. \<open>CV_Further\<close>:
      further theorems of the machine's components, with their instances. \<open>CV_Suite\<close>: programs of
      the repository's tests, run in the model; several do not do there what the tests expect.

  Bounds and fuel. \<open>Vm::step\<close> and the runner need none: they are \<open>partial_function (option)\<close> and
  proved to return when the step limit is below the largest \<open>u64\<close> (the default is a million). The
  reference machine \<open>play\<close> takes the step limit as its fuel, and running out is the outcome
  \<open>BudgetExceeded\<close>, as in the code. \<open>Cfg::build\<close> is proved to return without any hypothesis. Code is
  assumed shorter than \<open>2 ^ 32\<close> bytes where its length is kept in a \<open>u32\<close>.

  What is a parameter. The repository has no \<open>image.rs\<close>, though \<open>lib.rs\<close> declares it: the record
  \<open>image\<close> of \<open>CV_Machine\<close> is what its accessors return to the machine, and every theorem holds for
  all of them. \<open>seal_decode_check\<close>, \<open>build\<close>, \<open>mark_verified\<close>, \<open>to_bytes\<close> and \<open>from_bytes\<close> are
  arguments, together the record \<open>container\<close> of \<open>CV_Cli\<close>; \<open>keeps_parts\<close> says that \<open>build\<close> keeps
  the parts it is given. \<open>FuncMeta\<close> has the fields with which \<open>asm.rs\<close> builds it.

  Not modelled. \<open>image.rs\<close>, which is missing. The texts of error messages (\<open>CV_Render\<close> takes them as
  they come; the functions that fail return code, span and instruction index). What the commands
  print, except the texts of \<open>disas.rs\<close>, \<open>diag.rs\<close> and \<open>emit_markdown\<close>. Files are a map from names
  to contents (\<open>files\<close>) and a predicate of what may be written; permissions, directories and
  failures of the system beyond these, of printing too, are not modelled. Plain accessors are record selectors. Of the
  tests only the programs of \<open>CV_Suite\<close> are.

  The theorems below, with an instance of each that has a hypothesis: safety of the machine
  under a host and termination of the tools; the way from text to the result; what acceptance promises and what it does not; the
  control-flow graph; text and objects; snapshots; what instructions compute; the journal and
  replay; the runner and the fuzzer; forks, calls and traps; metering and the arena; the encodings. Several of
  them state behaviour that the comments of the source do not intend; they say so.
\<close>
section \<open>The machine is safe and returns\<close>

text \<open>C1: After any sequence of steps (with any answer, or none), snapshots (of any of the machines),
  restores (of a kept snapshot or of what is left of it when it is cut) and new machines over the same
  code, on code without \<open>find\<close>, with a finite step limit and a frame limit within 32 bits: the next
  \<open>Vm::step\<close> returns, with a well-formed machine, and panics only when a value or a failure is given
  to a machine without frames, as one that has halted is. Restoring a kept snapshot goes on with the
  session, its arena is restored always, and its frames too, unless the machine it was taken of had a
  pending value, or a handle beyond its arena, in some slot, in use or not: then it is refused with
  \<open>refusals\<close>.\<close>

theorem host_session_safe:
  assumes "hosted im lim s saves" and "no_find (img_code im)" and "max_steps lim < 0xFFFFFFFFFFFFFFFF"
    and "max_frames lim \<le> u32_max"
  shows "\<exists>r t. vm_step ans s = Some (r, t) \<and> (r = Panic \<longleftrightarrow> answers_frameless ans s) \<and> vm_wf t \<and>
     (r \<noteq> Panic \<longrightarrow> hosted im lim t saves) \<and>
     (\<forall>bs\<in>set saves. \<exists>u q v. vm_wf u \<and> snapshot u = Ok bs \<and> restore bs s = (q, v) \<and> hosted im lim v saves \<and>
        arena v = arena u \<and> (if snapshottable u then q = Ok () \<and> frames v = frames u
          else frames v = frames s \<and> (\<exists>e. q = Err e \<and> dcode e \<in> refusals)))"
  using hosted_step_safe [OF assms, of ans] hosted_restores [OF assms] by metis

lemma host_session_safe_witness:
  "\<exists>bs r t v. hosted (sum_image 2 3) limits_default sum_vm [bs] \<and> vm_step None sum_vm = Some (r, t) \<and> r \<noteq> Panic \<and>
     restore bs t = (Ok (), v) \<and> hosted (sum_image 2 3) limits_default v [bs]"
proof -
  obtain bs where bs: "snapshot sum_vm = Ok bs" by (simp add: snapshot_def)
  have h: "hosted (sum_image 2 3) limits_default sum_vm [bs]"
    using hosted_new [OF sum_vm_new] hosted_save [OF _ bs] by blast
  have "no_find (img_code (sum_image 2 3))" by code_simp
  note safe = host_session_safe [OF _ this limits_default_small, of _ "[bs]" None]
  have "max_frames limits_default \<le> u32_max" by (simp add: limits_default_def u32_max_def)
  from safe [OF h this] obtain r t where t: "vm_step None sum_vm = Some (r, t)" "r \<noteq> Panic"
    "hosted (sum_image 2 3) limits_default t [bs]" by (auto simp: answers_frameless_def)
  moreover from safe [OF t(3)] obtain q v where "restore bs t = (q, v)" "hosted (sum_image 2 3) limits_default v [bs]"
    by (auto simp: limits_default_def u32_max_def)
  moreover have "restore bs t = (Ok (), t\<lparr>arena := arena sum_vm, frames := frames sum_vm\<rparr>)"
    using restore_kept [of sum_vm bs "[]" t] sum_vm_snapshottable [unfolded snapshottable_fits] sum_vm_snapshottable bs by auto
  ultimately show ?thesis using h by auto
qed



section \<open>From text to the result\<close>

text \<open>C3: From text to the result. A listing whose lines mean plain integer instructions (\<open>plain_ops\<close>:
  without division, branches, calls or anything that asks the host), all of them narrow, and a
  final \<open>halt\<close>, that the verifier's walk accepts, is assembled, admitted, loaded and run by one
  \<open>Vm::step\<close> to its end, and the exit code is the top of the reference machine \<open>calc_all\<close>. Of
  \<open>image.rs\<close> it is assumed that what it builds has the parts it was given (\<open>keeps_parts\<close>), and that
  the seal of the code holds; the step limit covers the instructions.\<close>

theorem text_to_result:
  assumes "written mx lns src" and "lines_mean lns ([], []) = Some (ls, xs)"
    and "plain_straight (map decoded_of xs)" and "mx \<noteq> 0"
    and "scan [(ascii ''main'', 0)] 0 0 mx 0 (map decoded_of xs) (0, []) = Ok ()"
    and "length xs < 2 ^ 30" and "length xs \<le> unat (max_steps lim)"
    and "seal_check (emitted xs) = Ok ()" and "keeps_parts build_image mark_verified"
  shows "\<exists>x im s n st t. assemble nm src = Ok x \<and> admit seal_check build_image mark_verified x = Some (Ok im) \<and>
     vm_new im lim = Ok s \<and> calc_all (butlast (map decoded_of xs)) [] = Some (n # st) \<and>
     vm_step None s = Some (Ok (Halted n), t)"
  by (rule straight_listing_halts) (rule assms)+

lemma text_to_result_witness:
  "\<exists>x im s t. assemble (ascii ''t'') (listing 2 product_lines) = Ok x \<and>
     admit (\<lambda>_. Ok ()) plain_image (\<lambda>im. im) x = Some (Ok im) \<and>
     vm_new im limits_default = Ok s \<and> vm_step None s = Some (Ok (Halted 42), t)"
proof -
  obtain ls where ls: "lines_mean product_lines ([], []) = Some (ls, product_code)" using product_means by blast
  have "2 \<noteq> (0 :: u16)" "length product_code < 2 ^ 30" "length product_code \<le> unat (max_steps limits_default)"
    by (simp_all add: product_code_def limits_default_def)
  from text_to_result [OF product_written ls product_straight this(1) product_scan this(2,3), of "\<lambda>_. Ok ()" plain_image "\<lambda>im. im" "ascii ''t''"]
  show ?thesis by (auto simp: product_calc plain_image_keeps)
qed

text \<open>C4: From the shell: when the text in \<open>src\<close> (readable UTF-8) assembles to a program that is admitted,
  all of whose instructions are narrow and in \<open>jump_ops\<close> (see C5), \<open>cinderc build src -o out\<close> exits
  with 0 and writes \<open>out\<close>, and then \<open>cinderc run out\<close> and \<open>cinder run out\<close> exit with what the
  reference machine \<open>play\<close> halts with, as a byte, or with 1 where it fails or runs out of the million
  steps, and write nothing. Of the missing \<open>image.rs\<close> it is assumed that it keeps the parts of an
  object (\<open>keeps_parts\<close>), reads this container back as it was written, and counts it as verified.\<close>

theorem command_line_runs:
  assumes "fs src = Some content" and "valid_utf8 content" and "writable out" and "src \<noteq> ascii ''-o''"
    and "assemble src content = Ok x" and "admit (k_seal k) (k_build k) (k_mark k) x = Some (Ok im)"
    and "keeps_parts (k_build k) (k_mark k)" and "k_from_bytes k (k_to_bytes k im) = Ok im" and "k_verified k im"
    and "o_funcs x = [f]" and "decode_range (o_code x) f = Ok (ds, ats)"
    and "\<forall>d\<in>set ds. d_len d = 4 \<and> d_op d \<in> set jump_ops"
  shows "\<exists>fs' e. cinderc_main k writable [ascii ''build'', src, ascii ''-o'', out] fs = Some (Exited 0, fs') \<and>
     e = (case play 1000000 (unat (fm_maxstack f)) ds 0 [] of Halts n \<Rightarrow> exit_status (Ok n) | _ \<Rightarrow> Exited 1) \<and>
     cinderc_main k writable [ascii ''run'', out] fs' = Some (e, fs') \<and>
     cinder_main k True writable [ascii ''run'', out] fs' = Some (e, fs')"
  unfolding play_status_def [symmetric] by (rule integer_file_runs) (rule assms)+

lemma command_line_runs_witness:
  "\<exists>fs'. cinderc_main (holding (main_obj (ascii ''a'') 2 product_code)) (\<lambda>_. True)
       [ascii ''build'', ascii ''a'', ascii ''-o'', ascii ''b''] [ascii ''a'' \<mapsto> listing 2 product_lines] = Some (Exited 0, fs') \<and>
     cinderc_main (holding (main_obj (ascii ''a'') 2 product_code)) (\<lambda>_. True) [ascii ''run'', ascii ''b''] fs' = Some (Exited 42, fs')"
proof -
  obtain ls where ls: "lines_mean product_lines ([], []) = Some (ls, product_code)" using product_means by blast
  let ?x = "main_obj (ascii ''a'') 2 product_code"
  from command_line_runs [where k = "holding ?x" and src = "ascii ''a''" and out = "ascii ''b''" and x = ?x
      and im = "plain_image ?x" and writable = "\<lambda>_. True" and fs = "[ascii ''a'' \<mapsto> listing 2 product_lines]",
      OF _ product_text(1) _ product_text(2) assemble_listing [OF product_written ls] _ _ _ _ _ product_decodes product_plain]
  show ?thesis
    by (auto simp: holding_sel product_admitted plain_image_keeps product_sel product_plays exit_status_def)
qed

text \<open>C5: An accepted program of narrow instructions out of \<open>jump_ops\<close> (the plain integer ones, \<open>div\<close>,
  \<open>mod\<close>, \<open>br\<close>, \<open>brz\<close>, \<open>brnz\<close>, \<open>halt\<close>) runs as the reference machine \<open>play\<close> does, whatever its
  outcome: \<open>Vm::step\<close> returns the same exit code, or fails with the same code, running out of steps
  included. The step limit is not the largest \<open>u64\<close>, which the counter never exceeds; a wide
  instruction is excluded because the interpreter runs the second word of it again.\<close>

theorem integer_program_runs:
  assumes "admit seal_check build_image mark_verified x = Some (Ok im)" and "keeps_parts build_image mark_verified"
    and "vm_new im lim = Ok s" and "length (o_funcs x) < 2 ^ 32" and "max_steps lim \<noteq> -1"
    and "\<forall>f\<in>set (o_funcs x). \<forall>ds ats. decode_range (o_code x) f = Ok (ds, ats) \<longrightarrow>
      (\<forall>d\<in>set ds. d_len d = 4 \<and> d_op d \<in> set jump_ops)"
  shows "\<exists>f\<in>set (o_funcs x). \<exists>ds ats r t. decode_range (o_code x) f = Ok (ds, ats) \<and>
     vm_step None s = Some (r, t) \<and> ends (play (unat (max_steps lim)) (unat (fm_maxstack f)) ds 0 []) r"
  by (rule admitted_integer_program_runs [where seal_check = seal_check and build_image = build_image and mark_verified = mark_verified, OF assms])

lemma integer_program_runs_witness:
  "\<exists>r t. vm_step None skip_vm = Some (r, t) \<and> ends (play 1000000 1 (map decoded_of skip_push) 0 []) r"
proof -
  have one: "\<forall>ds ats. decode_range (o_code skip_object) f = Ok (ds, ats) \<longrightarrow> ds = map decoded_of skip_push \<and> fm_maxstack f = 1"
    if "f \<in> set (o_funcs skip_object)" for f using that by (rule skip_object_decodes)
  have "max_steps limits_default = 1000000" by (simp add: limits_default_def)
  then show ?thesis
    using integer_program_runs [OF skip_admitted plain_image_keeps skip_vm_new] one skip_ops
    by (fastforce simp: skip_object_def built_def)
qed

text \<open>C6: The verifier's abstract stack is a refinement of the operand stack, for the opcodes in \<open>sound_ops\<close>
  (the plain integer ones, \<open>div\<close>, \<open>mod\<close>, \<open>ldc\<close>, \<open>argv\<close>, \<open>len\<close>, \<open>fork\<close>, \<open>commit\<close>, \<open>resume\<close>,
  \<open>release\<close>, \<open>spend\<close>, \<open>ctxpop\<close>, \<open>ctxcost\<close>), and not for others: when the operands have the types on
  the abstract stack and the walk accepts the instruction, running it does not panic, fails with
  none of the stack codes, and leaves operands with the types the walk computed.\<close>

theorem verifier_follows_machine:
  assumes "d_op d \<in> set sound_ops" and "runs s fs f vs" and "list_all2 typed (rev vs) st"
    and "scan_insn index nt nc (maxstack f) i d (int (length st), st) = Ok (dp, st')"
  shows "case exec d s of
     (Ok u, t) \<Rightarrow> dp = int (length st') \<and>
       (\<exists>g us. runs t fs g us \<and> list_all2 typed (rev us) st' \<and> moved_on f g \<and> same_run s t)
   | (Err e, t) \<Rightarrow> d_op d \<notin> set plain_ops \<and> dcode e \<notin> set stack_codes
   | (Panic, t) \<Rightarrow> False"
  by (rule abstract_stack_follows [OF assms])

lemma verifier_follows_machine_witness:
  "case exec (ins OpDiv 0) (demo_vm (sum_image 2 3) [] [v_int 7, v_int 0] 0) of
     (Ok u, t) \<Rightarrow> 1 = int (length [TyInt]) \<and>
       (\<exists>g us. runs t [] g us \<and> list_all2 typed (rev us) [TyInt] \<and> moved_on (demo_frame [v_int 7, v_int 0] 0) g \<and>
          same_run (demo_vm (sum_image 2 3) [] [v_int 7, v_int 0] 0) t)
   | (Err e, t) \<Rightarrow> d_op (ins OpDiv 0) \<notin> set plain_ops \<and> dcode e \<notin> set stack_codes
   | (Panic, t) \<Rightarrow> False"
proof (rule verifier_follows_machine)
  show "runs (demo_vm (sum_image 2 3) [] [v_int 7, v_int 0] 0) [] (demo_frame [v_int 7, v_int 0] 0) [v_int 7, v_int 0]"
    using demo_runs [of "[v_int 7, v_int 0]" 0] by simp
  show "scan_insn [] 0 0 (maxstack (demo_frame [v_int 7, v_int 0] 0)) 0 (ins OpDiv 0) (int (length [TyInt, TyInt]), [TyInt, TyInt]) =
      Ok (1, [TyInt])"
    by (simp add: scan_insn_def check_operand_def stack_effect_def insn_eq mk_row_def demo_frame_def)
qed (simp_all add: sound_ops_def)

text \<open>C7: Well-typed programs do not go wrong: an accepted program of narrow instructions out of
  \<open>sound_ops\<close> (see C6: integers, constants, forks, budgets and context; no branch, call or list) and
  a final \<open>halt\<close>, with a step limit that covers them, returns from \<open>Vm::step\<close>, without panic and
  without stopping for the host; it halts, or it fails with a code other than underflow, overflow of
  the stack and wrong operand type (\<open>goes_right\<close>). A wide instruction is excluded: it runs twice.\<close>

theorem well_typed_program_goes_right:
  assumes "admit seal_check build_image mark_verified x = Some (Ok im)" and "keeps_parts build_image mark_verified"
    and "vm_new im lim = Ok s" and "length (o_funcs x) < 2 ^ 32"
    and "\<forall>f\<in>set (o_funcs x). \<exists>ds ats. decode_range (o_code x) f = Ok (ds, ats) \<and>
      sound_straight ds \<and> length ds \<le> unat (max_steps lim)"
  shows "\<exists>r t. vm_step None s = Some (r, t) \<and> goes_right r"
  by (rule accepted_straight_sound [where seal_check = seal_check and build_image = build_image
        and mark_verified = mark_verified, OF assms])

lemma well_typed_program_goes_right_witness:
  "\<exists>x im s r t. assemble [] (listing 2 quotient_lines) = Ok x \<and>
     admit (\<lambda>_. Ok ()) plain_image (\<lambda>im. im) x = Some (Ok im) \<and> vm_new im limits_default = Ok s \<and>
     vm_step None s = Some (r, t) \<and> goes_right r"
proof -
  from quotient_admitted obtain x im s where x: "assemble [] (listing 2 quotient_lines) = Ok x"
    "admit (\<lambda>_. Ok ()) plain_image (\<lambda>im. im) x = Some (Ok im)" "vm_new im limits_default = Ok s"
    "length (o_funcs x) < 2 ^ 32"
    "\<forall>f\<in>set (o_funcs x). decode_range (o_code x) f = Ok (map decoded_of quotient_code, starts_at 0 quotient_code)" by blast
  have "length (map decoded_of quotient_code) \<le> unat (max_steps limits_default)"
    by (simp add: quotient_code_def limits_default_def)
  with well_typed_program_goes_right [where seal_check = "\<lambda>_. Ok ()" and build_image = plain_image
      and mark_verified = "\<lambda>im. im", OF x(2) plain_image_keeps x(3,4)] x quotient_facts(2)
  show ?thesis by blast
qed

section \<open>Invariants\<close>

text \<open>C8: Every instruction, on success, error and trap alike, takes a machine with a frame to
  a well-formed machine; only \<open>find\<close> can panic, and only when the operand it searches for is
  the handle of an empty byte string.\<close>

theorem exec_keeps_invariant:
  assumes "vm_live s"
  shows "vm_wf (snd (exec d s)) \<and>
     (fst (exec d s) = Panic \<longrightarrow> d_op d = OpFind \<and> empty_needle s)"
  using exec_wf [OF assms] exec_panic [OF assms] by auto

lemma exec_keeps_invariant_witness:
  "vm_wf (snd (exec (ins OpCall 5) sum_vm)) \<and> fst (exec (ins OpCall 5) sum_vm) \<noteq> Panic"
  using exec_keeps_invariant [OF sum_vm_live, of "ins OpCall 5"] by auto

section \<open>What acceptance promises and what it does not\<close>

text \<open>C9: In an accepted program, every edge from a reachable block to a block that dominates it
  (a loop) goes from a block to one of the same or a higher number, and between the two numbers,
  taken as positions of instructions, lies a metering instruction: all that the check for unmetered
  loops guarantees.\<close>

theorem accepted_loops_metered:
  assumes "admit seal_check build_image mark_verified x = Some (Ok im)" and "f \<in> set (o_funcs x)"
    and "build (o_code x) f (o_jump_tables x) = Some (Ok g)"
    and "reachable_block g t" and "edge (c_blocks g) t h" and "dominator g h t"
  shows "t \<le> h \<and> (\<exists>i. t \<le> i \<and> i \<le> h \<and> i < length (c_insns g) \<and> d_op (c_insns g ! i) \<in> set metering)"
  by (rule admitted_loops_metered [where seal_check = seal_check and build_image = build_image and mark_verified = mark_verified, OF assms])

lemma accepted_loops_metered_witness:
  "d_op (c_insns spin_cfg ! 2) \<in> set metering \<and> edge (c_blocks spin_cfg) 2 2"
proof -
  have "2 \<le> (2 :: nat) \<and> (\<exists>i. 2 \<le> i \<and> i \<le> 2 \<and> i < length (c_insns spin_cfg) \<and> d_op (c_insns spin_cfg ! i) \<in> set metering)"
    by (rule accepted_loops_metered [where seal_check = "\<lambda>_. Ok ()" and build_image = plain_image and mark_verified = "\<lambda>im. im", OF spin_admitted _ spin_cfg_build spin_loop(1) spin_loop(2) spin_loop(3)])
      (simp add: spin_object_sel)
  then obtain i where "2 \<le> i" "i \<le> 2" "d_op (c_insns spin_cfg ! i) \<in> set metering" by blast
  then show ?thesis using spin_loop(2) by (metis le_antisym)
qed

text \<open>C10: In an accepted program every operand that names a constant, a function, a jump table or a
  branch target is in range; tool indices and slots are not checked.\<close>

theorem accepted_operands_in_range:
  assumes "admit seal_check build_image mark_verified x = Some (Ok im)" and "f \<in> set (o_funcs x)"
    and "decode_range (o_code x) f = Ok (ds, ats)" and "d \<in> set ds"
  shows "in_range x (length ds) d"
  by (rule admitted_operands_in_range [where seal_check = seal_check and build_image = build_image and mark_verified = mark_verified, OF assms])

lemma accepted_operands_in_range_witness: "in_range skip_object 5 (decoded_of (OpBr, 2))"
proof -
  obtain f ats where f: "f \<in> set (o_funcs skip_object)"
    "decode_range (o_code skip_object) f = Ok (map decoded_of skip_push, ats)" using skip_object_range by blast
  have "decoded_of (OpBr, 2) \<in> set (map decoded_of skip_push)" by (simp add: skip_push_def)
  from accepted_operands_in_range [where seal_check = "\<lambda>_. Ok ()" and build_image = plain_image and mark_verified = "\<lambda>im. im", OF skip_admitted f this]
  show ?thesis by (simp add: skip_push_def eval_nat_numeral)
qed

text \<open>C11: Acceptance does not exclude a stack underflow: the program \<open>br 2; ldi 1; drop; ldi 0; halt\<close>,
  written through \<open>Builder\<close>, is accepted, since the walk goes straight on through the branch, and
  fails at run time with \<open>E_UNDERFLOW\<close>.\<close>

theorem accepted_program_fails:
  assumes "seal_check (emitted skip_push) = Ok ()" and "keeps_parts build_image mark_verified"
    and "2 \<le> unat (max_steps lim)" and "max_steps lim \<noteq> -1"
  shows "\<exists>x im s e t. finish (write_fn (main_of 1 skip_push) (builder_new nm)) = Ok x \<and>
     admit seal_check build_image mark_verified x = Some (Ok im) \<and> vm_new im lim = Ok s \<and>
     vm_step None s = Some (Err e, t) \<and> dcode e = StackUnderflow"
  by (rule accepted_program_underflows) (rule assms)+

lemma accepted_program_fails_witness:
  "\<exists>x im s e t. finish (write_fn (main_of 1 skip_push) (builder_new [])) = Ok x \<and>
     admit (\<lambda>_. Ok ()) plain_image (\<lambda>im. im) x = Some (Ok im) \<and> vm_new im limits_default = Ok s \<and>
     vm_step None s = Some (Err e, t) \<and> dcode e = StackUnderflow"
  by (rule accepted_program_fails) (simp_all add: plain_image_keeps limits_default_def)

text \<open>C12: Acceptance does not exclude a loop without metering: the program \<open>spin\<close> is accepted, none
  of the positions it can reach holds a metering instruction, and it runs until the step limit.\<close>

theorem accepted_loop_never_metered:
  assumes "seal_check (emitted spin) = Ok ()" and "keeps_parts build_image mark_verified" and "max_steps lim \<noteq> -1"
  shows "\<exists>x im s e t. finish (write_fn (main_of 1 spin) (builder_new nm)) = Ok x \<and>
     admit seal_check build_image mark_verified x = Some (Ok im) \<and> vm_new im lim = Ok s \<and>
     vm_step None s = Some (Err e, t) \<and> dcode e = BudgetExceeded \<and> closed_on {0, 3, 4, 5, 6} (map decoded_of spin) \<and>
     d_op ` (!) (map decoded_of spin) ` {0, 3, 4, 5, 6} \<inter> set metering = {}"
  by (rule accepted_loop_unmetered) (rule assms)+

lemma accepted_loop_never_metered_witness:
  "\<exists>x im s e t. finish (write_fn (main_of 1 spin) (builder_new [])) = Ok x \<and>
     admit (\<lambda>_. Ok ()) plain_image (\<lambda>im. im) x = Some (Ok im) \<and> vm_new im limits_default = Ok s \<and>
     vm_step None s = Some (Err e, t) \<and> dcode e = BudgetExceeded"
  using accepted_loop_never_metered [of "\<lambda>_. Ok ()" plain_image "\<lambda>im. im" limits_default "[]"]
  by (fastforce simp: plain_image_keeps limits_default_def)

text \<open>C13: \<open>admit\<close> panics on a program with a loop from block 2 back to block 0, where it slices the
  instructions from 2 to 0; the program is assembled from text.\<close>

theorem verifier_panics:
  assumes "seal_check (emitted outer_code) = Ok ()"
  shows "\<exists>x. assemble nm (listing 2 outer_loop) = Ok x \<and> admit seal_check build_image mark_verified x = Some Panic"
  by (rule verifier_panics_on_loop) (rule assms)+

lemma verifier_panics_witness:
  "\<exists>x. assemble [] (listing 2 outer_loop) = Ok x \<and> admit (\<lambda>_. Ok ()) plain_image (\<lambda>im. im) x = Some Panic"
  by (rule verifier_panics) simp

text \<open>C14: The control flow that text can have: in the graph of an accepted program that was assembled
  from text, all of whose instructions are narrow, a reachable block leads to the next block or to
  itself, and to itself only when the instruction whose position is the number of the block is a
  metering one. \<open>assemble\<close> resolves no label forward, and \<open>admit\<close> takes block numbers for positions
  of instructions; so neither a branch forward nor a loop over two blocks can be written.\<close>

theorem accepted_text_is_a_chain:
  assumes "assemble name src = Ok x" and "admit seal_check build_image mark_verified x = Some (Ok im)"
    and "length (o_code x) < 2 ^ 32" and "f \<in> set (o_funcs x)" and "build (o_code x) f (o_jump_tables x) = Some (Ok g)"
    and "\<forall>d\<in>set (c_insns g). d_len d = 4" and "reachable_block g t" and "edge (c_blocks g) t h"
  shows "h = t + 1 \<or> h = t \<and> d_op (c_insns g ! t) \<in> set metering"
  by (rule accepted_text_graph [where seal_check = seal_check and build_image = build_image and mark_verified = mark_verified, OF assms])

lemma accepted_text_is_a_chain_witness:
  "assemble (ascii ''t'') (listing 1 turn_lines) = Ok (main_obj (ascii ''t'') 1 turn) \<and>
     edge (c_blocks turn_cfg) 1 1 \<and> d_op (c_insns turn_cfg ! 1) \<in> set metering"
proof -
  have m: "o_code (main_obj nm 1 turn) = emitted turn" "o_funcs (main_obj nm 1 turn) = [main_meta 1 turn]"
    "o_jump_tables (main_obj nm 1 turn) = []" for nm by (simp_all add: main_obj_def turn_eval(7))
  have "\<forall>d\<in>set (c_insns turn_cfg). d_len d = 4" using turn_eval(9) by (simp add: turn_cfg_def list_all_iff)
  with accepted_text_is_a_chain [where seal_check = "\<lambda>_. Ok ()" and build_image = plain_image and mark_verified = "\<lambda>im. im"
      and f = "main_meta 1 turn" and g = turn_cfg, OF turn_assembles turn_admitted _ _ _ _ turn_loop]
  show ?thesis using turn_loop(2) turn_assembles turn_build turn_eval(1) by (simp add: m)
qed

section \<open>The control-flow graph\<close>

text \<open>C15: The graph that \<open>Cfg::build\<close> returns carries the textbook's notions: \<open>dominates\<close> decides
  dominance (on every walk from the entry), \<open>back_edges\<close> are the edges from reachable blocks to
  blocks that dominate them, \<open>unreachable\<close> lists the blocks no walk reaches, and \<open>idom\<close> is the
  strict dominator that all others dominate.\<close>

theorem graph_dominators:
  assumes "build code f tables = Some (Ok c)"
  shows "dominates c a b = Some (dominator c a b) \<and>
     set (c_back_edges c) = {(t, h). edge (c_blocks c) t h \<and> reachable_block c t \<and> dominator c h t} \<and>
     set (unreachable c) = {u. u < length (c_blocks c) \<and> \<not> reachable_block c u} \<and>
     (reachable_block c b \<longrightarrow> (idom c b = Some d \<longleftrightarrow>
        d \<noteq> b \<and> dominator c d b \<and> (\<forall>e. e \<noteq> b \<and> dominator c e b \<longrightarrow> dominator c e d)))"
  using dominates_dominator [OF build_Ok(1) [OF assms], of a b] find_back_edges_result [OF build_Ok(1) [OF assms]]
    build_Ok(3) [OF assms] unreachable_result [OF build_Ok(1) [OF assms]] idom_immediate [OF build_Ok(1) [OF assms]]
  by (intro conjI) auto

lemma graph_dominators_witness: "dominator outer_cfg 0 2 \<and> \<not> reachable_block outer_cfg 4"
proof -
  note g = graph_dominators [OF outer_build]
  have "(2, 0) \<in> set (c_back_edges outer_cfg)" by (simp add: outer_cfg_def)
  moreover have "4 \<in> set (unreachable outer_cfg)"
    by (simp add: unreachable_def outer_cfg_def outer_blocks_def rpo_numbers_def UNDEF_def upt_conv_Cons)
  ultimately show ?thesis using g by fastforce
qed

text \<open>C16: \<open>Cfg::build\<close> returns and does not panic, whatever the code, the function and the jump
  tables, and the graph it returns is well formed: its blocks partition the instructions, edges and
  order are those of the instructions' successors, and the sweeps over the dominators have settled.\<close>

theorem graph_building_returns:
  "case build code f tables of None \<Rightarrow> False | Some (Ok c) \<Rightarrow> cfg_ok tables c | Some (Err e) \<Rightarrow> True | Some Panic \<Rightarrow> False"
  using build_returns [of code f tables] by (auto split: option.splits res.splits)

text \<open>C17: The blocks refine the instructions: an instruction can be reached from the first one,
  following the successors of single instructions, exactly when the block that owns it can be
  reached from the entry block in the graph.\<close>

theorem reachability_by_blocks:
  assumes "build code f tables = Some (Ok c)" and "j < length (c_insns c)"
  shows "reaches (flow (c_insns c) tables) 0 j \<longleftrightarrow> reaches (edge (c_blocks c)) 0 (c_owner c ! j)"
  using build_Ok(1) [OF assms(1)] by (intro reach_blocks [OF _ assms(2)]) (simp add: cfg_ok_def)

lemma reachability_by_blocks_witness: "reaches (flow (map decoded_of outer_code) []) 0 4"
proof -
  have "edge outer_blocks 0 1" "edge outer_blocks 1 2" by (simp_all add: edge_def outer_blocks_def)
  then have "reaches (edge outer_blocks) 0 2" by blast
  with reachability_by_blocks [OF outer_build, of 4] show ?thesis by (simp add: outer_cfg_def outer_code_def)
qed

section \<open>Text and objects\<close>

text \<open>C18: Assembling a listing: text whose lines mean the instructions \<open>xs\<close> (labels are defined
  before they are used) is assembled to the object with one function \<open>main\<close> and the code \<open>xs\<close>.\<close>

theorem listing_assembles:
  assumes "written mx lns src" and "lines_mean lns ([], []) = Some (ls, xs)"
  shows "assemble nm src = Ok (main_obj nm mx xs)"
  by (rule assemble_listing [OF assms])

lemma listing_assembles_witness: "assemble (ascii ''t'') (listing 2 product_lines) = Ok (main_obj (ascii ''t'') 2 product_code)"
proof -
  obtain ls where "lines_mean product_lines ([], []) = Some (ls, product_code)" using product_means by blast
  from listing_assembles [OF product_written this] show ?thesis .
qed

text \<open>C19: \<open>assemble\<close> never panics, and every object it returns has one function \<open>main\<close> over the
  whole code, whose bytes decode to the instructions they were emitted for, with operands in range
  where the assembler resolves them.\<close>

theorem assembled_object_decodes:
  "case assemble name src of
     Panic \<Rightarrow> False
   | Err e \<Rightarrow> True
   | Ok x \<Rightarrow> \<exists>xs f. one_main x xs \<and> o_funcs x = [f] \<and>
       (length (o_code x) < 2 ^ 32 \<longrightarrow> decode_range (o_code x) f = Ok (map decoded_of xs, starts_at 0 xs))"
proof (cases "assemble name src")
  case (Ok x)
  from assemble_one_main [OF this] obtain xs where xs: "one_main x xs" by blast
  then obtain f where "o_funcs x = [f]" by (auto simp: one_main_def)
  with xs assembled_decodes [OF xs, of f] Ok show ?thesis by auto
qed (use assemble_returns [of name src] in auto)

lemma assembled_object_decodes_witness:
  "\<exists>f xs. o_funcs (main_obj (ascii ''t'') 2 product_code) = [f] \<and>
     decode_range (emitted product_code) f = Ok (map decoded_of xs, starts_at 0 xs)"
  using assembled_object_decodes [of "ascii ''t''" "listing 2 product_lines"] product_length
  unfolding product_assembles by (auto simp: main_obj_def)

text \<open>C20: Text is tokenized into what it was written from: tokens printed with any blanks, tabs and
  comments between them that keep them apart come back, up to their positions, as \<open>read_back\<close> says:
  all of them as they are, but every byte above 127 of a string as the two bytes of its UTF-8
  encoding, and the least \<open>i64\<close> as the number above it, where the digits saturate.\<close>

theorem lexer_roundtrip:
  assumes "layout_with tok_shown ts g"
  shows "\<exists>xs. lex (typeset ts g) = Ok xs \<and> map t_tok xs = map read_back (map snd ts) @ [TEnd]"
  by (rule lex_shown [OF assms])

lemma lexer_roundtrip_witness:
  "\<exists>xs. lex (ascii ''main:ldi  -5(#x'' @ [0x0A, 0x22, 0xE9, 0x22]) = Ok xs \<and>
     map t_tok xs = [TLabel (ascii ''main''), TIdent (ascii ''ldi''), TInt (- 5), TIdent (ascii ''(''), TNewline,
       TStr [0xC3, 0xA9], TEnd]"
proof -
  let ?ts = "[(([], None), TLabel (ascii ''main'')), (([], None), TIdent (ascii ''ldi'')), (([0x20, 0x20], None), TInt (- 5)),
    (([], None), TIdent (ascii ''('')), (([], Some (ascii ''x'')), TNewline), (([], None), TStr [0xE9])]"
  have "layout_with tok_shown ?ts ([], None)"
    "typeset ?ts ([], None) = ascii ''main:ldi  -5(#x'' @ [0x0A, 0x22, 0xE9, 0x22]" by code_simp+
  moreover have "map read_back (map snd ?ts) = [TLabel (ascii ''main''), TIdent (ascii ''ldi''), TInt (- 5), TIdent (ascii ''(''),
    TNewline, TStr [0xC3, 0xA9]]" by code_simp
  ultimately show ?thesis using lexer_roundtrip [of ?ts "([], None)"] by simp
qed

section \<open>Snapshots\<close>

text \<open>C21: A machine without pending values whose handles lie in its arena is restored exactly:
  arena and frames come back bit for bit, over trailing bytes too, and everything else
  (budget, context ring, counters, fork state) is that of the machine restored into.\<close>

theorem snapshot_restore_roundtrip:
  assumes "snapshottable s"
  shows "\<exists>bs. snapshot s = Ok bs \<and>
     restore (bs @ trailing) t = (Ok (), t\<lparr>arena := arena s, frames := frames s\<rparr>)"
  using assms by (rule restore_snapshot)

lemma snapshot_restore_roundtrip_witness:
  "\<exists>bs. snapshot snap_vm = Ok bs \<and>
     restore (bs @ []) sum_vm = (Ok (), sum_vm\<lparr>arena := arena snap_vm, frames := frames snap_vm\<rparr>)"
  by (rule snapshot_restore_roundtrip) (rule snap_vm_ok)

section \<open>What instructions compute\<close>

text \<open>C22: The ten binary instructions are integer operations on the two top operands, reduced
  modulo \<open>2 ^ 64\<close> to a signed word: \<open>div\<close> and \<open>mod\<close> round towards zero, shifts take the
  amount modulo 64, \<open>shr\<close> is the floor of a division by a power of two; nothing else of the
  machine changes but the \<open>pc\<close>, which advances by one.\<close>

theorem exec_arithmetic:
  assumes "int_arith (d_op d) = Some g" and "runs s fs f (vs @ [v_int a, v_int b])"
    and "d_op d \<in> {OpDiv, OpMod} \<longrightarrow> b \<noteq> 0"
  shows "\<exists>s'. exec d s = (Ok (), s') \<and>
     became s fs f (vs @ [v_int (word_of_int (g (sint a) (sint b)))]) 1 s'"
  using assms by (rule exec_int_arith)

lemma exec_arithmetic_witness:
  "\<exists>s'. exec (ins OpDiv 0) (demo_vm (sum_image 2 3) [] [v_int (-7), v_int 2] 0) = (Ok (), s') \<and>
     became (demo_vm (sum_image 2 3) [] [v_int (-7), v_int 2] 0) [] (demo_frame [v_int (-7), v_int 2] 0)
       [v_int (-3)] 1 s'"
  using exec_arithmetic [of "ins OpDiv 0" trunc_div "demo_vm (sum_image 2 3) [] [v_int (-7), v_int 2] 0"
      "[]" "demo_frame [v_int (-7), v_int 2] 0" "[]" "-7" 2]
    demo_runs [of "[v_int (-7), v_int 2]" 0 "sum_image 2 3" "[]"]
  by (simp add: trunc_div_def)

section \<open>Journal and replay\<close>

text \<open>C23: Replay is exact for whole runs: a run against a host that answers every trap, effects and
  oracles with values and every yield (\<open>await\<close>, \<open>poll\<close>, \<open>cancel\<close>, \<open>select\<close>, \<open>join\<close>, \<open>checkpoint\<close>,
  \<open>yieldctx\<close>) with the void value (\<open>recordable\<close>), is recorded to its end, and a second run from the
  same start against the journal comes to the same result and the same machine, and uses up the
  journal. Other answers (another value to a yield, a failure, a shutdown) leave no trace in the
  journal and are replayed as the void value. \<open>session\<close> is the loop between \<open>Vm::step\<close> and the
  host, which may keep a state of its own; the step limit is finite.\<close>

theorem recorded_run_replays:
  assumes "vm_new im lim = Ok s" and "max_steps lim < 0xFFFFFFFFFFFFFFFF" and "recordable live"
  shows "\<exists>x l' r t h. session (recording live) (l, recorder_new) None s = Some (x, (l', r), t) \<and>
     session host_answer (from_journal (rec_journal r)) None s = Some (x, h, t) \<and> host_remaining h = 0"
  by (rule recorded_session_replays [OF assms])

lemma recorded_run_replays_witness:
  "\<exists>s x l' r t h. vm_new now_image limits_default = Ok s \<and>
     session (recording clock_host) (100, recorder_new) None s = Some (x, (l', r), t) \<and>
     session host_answer (from_journal (rec_journal r)) None s = Some (x, h, t) \<and> host_remaining h = 0"
  using now_vm_traps recorded_run_replays [OF _ limits_default_small clock_host_recordable] by blast

text \<open>C24: Changing one byte of one payload is always detected: as a broken chain, except in the
  last record, where it is the journal's head that disagrees.\<close>

theorem journal_tampering_detected:
  assumes "verify_chain j = Ok ()" and "i < length (records j)"
    and "one_byte_apart (r_payload (records j ! i)) q"
  shows "verify_chain (tamper i q j) =
     fail (if Suc i = length (records j) then Diverged else ChainBroken)"
  using assms by (rule tamper_detected)

lemma journal_tampering_detected_witness:
  "verify_chain (tamper 0 [1] (append_all [(KIND_LOG, [0])] journal_new)) = fail Diverged"
proof -
  let ?j = "append_all [(KIND_LOG, [0])] journal_new"
  have r: "length (records ?j) = 1" "r_payload (records ?j ! 0) = [0]"
    by (simp_all add: append_all_def journal_append_def journal_new_def Let_def)
  have "one_byte_apart [0] [1]"
    unfolding one_byte_apart_def by (intro exI [of _ "[]"] exI [of _ 0] exI [of _ 1]) simp
  with journal_tampering_detected [OF verify_append_all, of 0 "[(KIND_LOG, [0])]" "[1]"] r
  show ?thesis by simp
qed

text \<open>C25: A replay host over what the recorder captured answers the same traps, in order, to the
  end: values given to effects and oracles come back as they were, every other answer
  (a failure, a shutdown, any answer to a yield) as the void value.\<close>

theorem replay_returns_recorded:
  assumes "length xs < 2 ^ 64"
  shows "answer_all (map fst xs) (from_journal (rec_journal (record_all xs recorder_new))) =
     (Ok (map replayed xs),
      \<lparr>h_journal = rec_journal (record_all xs recorder_new), h_cursor = of_nat (length xs)\<rparr>)"
  using assms by (rule replay_run)

lemma replay_returns_recorded_witness:
  "fst (answer_all [TrapOracle OpNow, TrapYield]
     (from_journal (rec_journal (record_all [(TrapOracle OpNow, AnsValue (v_int 7)), (TrapYield, AnsFail (v_int 1))]
        recorder_new)))) = Ok [AnsValue (v_int 7), AnsValue VOID]"
  using replay_returns_recorded [of "[(TrapOracle OpNow, AnsValue (v_int 7)), (TrapYield, AnsFail (v_int 1))]"]
  by simp

section \<open>The runner and the fuzzer\<close>

text \<open>C26: A program that stops for the host is never run to success by \<open>cinderc run\<close>: the answer is
  pushed, the program counter has not moved, so the same instruction asks again, until the steps or
  the stack run out.\<close>

theorem runner_never_succeeds_after_trap:
  assumes "vm_new im lim = Ok s" and "max_steps lim < 0xFFFFFFFFFFFFFFFF"
    and "vm_step None s = Some (Ok (StepTrap tr), t)"
  shows "\<exists>r. run_vm s = Some r \<and> (\<forall>n. r \<noteq> Ok n)"
  by (rule run_vm_trap_fails [OF assms])

lemma runner_never_succeeds_after_trap_witness:
  "\<exists>s r. vm_new now_image limits_default = Ok s \<and> run_vm s = Some r \<and> (\<forall>n. r \<noteq> Ok n)"
  using now_vm_traps runner_never_succeeds_after_trap [OF _ limits_default_small] by blast

text \<open>C27: The fuzzer tests no instruction with an operand: whenever one of the instructions it has
  drawn takes one, its text has the mnemonic alone, the assembler refuses it, and the input counts
  as rejected.\<close>

theorem fuzzer_rejects:
  assumes "random_code (unat (next_u64 (fz_rng z) mod 24 + 1)) (next_u64 (fz_rng z)) [] = (s, code)"
    and "Some x \<in> drawn_op ` set (chunks_exact 4 code)" and "operand (insn x) \<noteq> OprNone" and "seal_check [] \<noteq> Panic"
  shows "fuzz_one seal_check build_image mark_verified z =
     Some (Ok (z\<lparr>fz_rng := s, fz_rejected := fz_rejected z + 1\<rparr>))"
  by (rule fuzz_one_rejects [where seal_check = seal_check, OF assms])

lemma fuzzer_rejects_witness:
  "\<exists>s. fuzz_one (\<lambda>_. Ok ()) plain_image (\<lambda>im. im) fuzz_first = Some (Ok (fuzz_first\<lparr>fz_rng := s, fz_rejected := 1\<rparr>))"
proof -
  obtain s code where r: "random_code (unat (next_u64 (fz_rng fuzz_first) mod 24 + 1)) (next_u64 (fz_rng fuzz_first)) [] =
      (s, code)" by fastforce
  from fuzzer_rejects [where seal_check = "\<lambda>_. Ok ()" and build_image = plain_image and mark_verified = "\<lambda>im. im",
      OF r fuzz_first_draws [OF r]] show ?thesis
    by (auto simp: fuzz_first_def)
qed

section \<open>Calls, traps and forks\<close>

text \<open>C28: An instruction that does nothing but ask the host (\<open>now\<close>, \<open>rand\<close>, \<open>env\<close>, \<open>log\<close>, \<open>await\<close>,
  \<open>poll\<close>, \<open>join\<close>, \<open>select\<close>, \<open>cancel\<close>, \<open>checkpoint\<close>, \<open>yieldctx\<close>) is not passed by an answer with a
  value, on a machine that may take two more steps: the answer is pushed and the machine traps at the
  same instruction with the same trap, one operand higher; on a full stack the answer is refused with
  the code for the stack limit. (\<open>calltool\<close>, \<open>spawn\<close> and \<open>queryq\<close> work on the stack as well and are
  not among them.)\<close>

theorem answered_instruction_asks_again:
  assumes "asking s fs f t (Suc (Suc n))"
  shows "\<exists>s1. vm_step None s = Some (Ok (StepTrap t), s1) \<and>
     (if length (operands f) < unat (maxstack f)
      then \<exists>s2 f2. vm_step (Some (AnsValue v)) s1 = Some (Ok (StepTrap t), s2) \<and>
        frames s2 = fs @ [f2] \<and> operands f2 = operands f @ [v] \<and> pc f2 = pc f
      else vm_step (Some (AnsValue v)) s1 = Some (fail MaxstackExceeded, s1))"
  using assms by (rule asking_answered)

lemma answered_instruction_asks_again_witness:
  "\<exists>s1 s2 f2. vm_step None (demo_vm now_image [] [] 2) = Some (Ok (StepTrap (TrapOracle OpNow)), s1) \<and>
     vm_step (Some (AnsValue (v_int 9))) s1 = Some (Ok (StepTrap (TrapOracle OpNow)), s2) \<and>
     frames s2 = [] @ [f2] \<and> operands f2 = operands (demo_frame [] 2) @ [v_int 9] \<and> pc f2 = pc (demo_frame [] 2)"
proof -
  have "fetch (demo_vm now_image [] [] 2) = Ok (ins OpNow 0)"
    using decode_assembled [of "[(OpNow, 0, 0), (OpHalt, 0, 0)]" 0 OpNow 0 0]
    by (simp add: fetch_def nth_get_def now_image_def sum_image_def demo_frame_def ins_def)
  then have "asking (demo_vm now_image [] [] 2) [] (demo_frame [] 2) (TrapOracle OpNow) (Suc (Suc 0))"
    by (simp add: asking_def demo_frame_def frame_wf_def limits_default_def)
  moreover have "length (operands (demo_frame [] 2)) < unat (maxstack (demo_frame [] 2))"
    by (simp add: demo_frame_def operands_def)
  ultimately show ?thesis
    using answered_instruction_asks_again [of "demo_vm now_image [] [] 2" "[]" "demo_frame [] 2" "TrapOracle OpNow" 0 "v_int 9"]
    by auto
qed

text \<open>C29: A \<open>call\<close> does not move its caller on, and \<open>ret\<close> does not either: when the callee, whatever
  it did in between, returns, the loop fetches the same \<open>call\<close> again, so a call never gets past
  itself.\<close>

theorem return_refetches_call:
  assumes "frames s = fs @ [f]" and "frame_wf f" and "fetch s = Ok d" and "d_op d = OpCall"
    and "exec d s = (Ok (), s1)"
    and "frames s2 = butlast (frames s1) @ [g]" and "vm_image s2 = vm_image s1" and "frame_wf g"
    and "d_op d' = OpRet" and "exec d' s2 = (Ok (), s3)"
  shows "fetch s3 = Ok d \<and> length (frames s3) = length (frames s)"
  using assms by (rule call_ret_fetch)

lemma return_refetches_call_witness:
  "\<exists>s1 s3. exec (ins OpCall 1) (demo_vm call_image [] [] 1) = (Ok (), s1) \<and> exec (ins OpRet 0) s1 = (Ok (), s3) \<and>
     fetch s3 = Ok (ins OpCall 1)"
proof -
  let ?s = "demo_vm call_image [] [] 1"
  have run: "fst (exec_seq [ins OpCall 1, ins OpRet 0] ?s) = Ok ()"
    by (simp add: run_defs exec_def ex_call_def target_of_def ex_ret_def frame_returns_def demo_vm_def
        demo_frame_def call_image_def sum_image_def limits_default_def)
  then obtain s1 s3 where r: "exec (ins OpCall 1) ?s = (Ok (), s1)" "exec (ins OpRet 0) s1 = (Ok (), s3)"
    by (auto simp: sthen_def sbind_def sret_def split: prod.splits res.splits)
  have f: "fetch ?s = Ok (ins OpCall 1)"
    using decode_assembled [of "[(OpCall, 0, 1), (OpHalt, 0, 0), (OpNop, 0, 0), (OpRet, 0, 0)]" 0 OpCall 0 1]
    by (simp add: fetch_def nth_get_def call_image_def sum_image_def demo_frame_def ins_def)
  have "vm_live ?s" by (rule demo_wf) (simp_all add: call_image_def u32_max_def)
  from exec_wf [OF this, of "ins OpCall 1"] have "vm_wf s1" by (simp only: r(1) snd_conv)
  moreover have ne: "frames s1 \<noteq> []"
    using call_frames [OF r(1), of "[]" "demo_frame [] 1"] by (auto simp: demo_frame_def frame_wf_def)
  ultimately have "frame_wf (last (frames s1))" by (auto simp: vm_wf_def frame_ok_def)
  with return_refetches_call [of ?s "[]" "demo_frame [] 1" "ins OpCall 1" s1 s1 "last (frames s1)" "ins OpRet 0" s3]
    f r ne show ?thesis by (auto simp: demo_frame_def frame_wf_def)
qed

text \<open>C30: \<open>commit\<close> throws away every arena write made since its \<open>fork\<close>: after any instructions
  in between the arena is the one the fork began with.\<close>

theorem fork_commit_discards:
  assumes "d_op df = OpFork" and "d_op dc = OpCommit"
    and "list_all (\<lambda>d. d_op d \<notin> {OpFork, OpCommit, OpAbort}) ds"
    and "exec_seq (df # ds @ [dc]) s = (Ok (), t)"
  shows "arena t = arena s \<and> staged t = None \<and> fork_depth t = 0"
  using assms by (rule fork_then_commit)

lemma fork_commit_discards_witness:
  "\<exists>t. exec_seq (ins OpFork 0 # [ins OpArgv 0] @ [ins OpCommit 0]) (demo_vm (sum_image 2 3) [] [] 4) = (Ok (), t) \<and>
     arena t = arena_from_bytes []"
proof -
  obtain t where t: "exec_seq (ins OpFork 0 # [ins OpArgv 0] @ [ins OpCommit 0]) (demo_vm (sum_image 2 3) [] [] 4) =
      (Ok (), t)" using seq_vm_runs(1) by (metis append_Cons append_Nil prod.collapse)
  from fork_commit_discards [OF _ _ _ t] t show ?thesis by simp
qed

section \<open>Metering and the arena\<close>

text \<open>C31: However reservations, releases and settlements are interleaved, granted or refused,
  on every dimension the allowance, the outstanding leases and what was spent add up to what
  the budget began with; so no more is ever spent than that.\<close>

theorem budget_conserved:
  assumes "budget_wf b" and "ledger_run reserve release spend sint dm ops b = (b', spent)"
  shows "budget_wf b' \<and> 0 \<le> spent \<and>
     avail b' (unat dm) + held b' (unat dm) + spent = avail b (unat dm) + held b (unat dm)"
  using budget_ledger.run_accounts [OF assms] .

lemma budget_conserved_witness:
  "\<exists>b' spent. ledger_run reserve release spend sint 0 [Lease 0 5, Settle 0 3, Settle 0 9] budget_default =
     (b', spent) \<and> 0 \<le> spent \<and> avail b' 0 + held b' 0 + spent = 2 ^ 63 - 1"
proof -
  obtain b' spent where r: "ledger_run reserve release spend sint 0 [Lease 0 5, Settle 0 3, Settle 0 9] budget_default =
     (b', spent)" by fastforce
  from budget_conserved [OF budget_default_wf r] r show ?thesis
    by (simp add: avail_def held_def budget_default_def i64_max_def)
qed

text \<open>C32: What a handle denotes survives every instruction but \<open>commit\<close>, failing ones too.\<close>

theorem instructions_keep_handles:
  assumes "d_op d \<noteq> OpCommit" and "arena_get (arena s) h = Ok bs"
  shows "arena_get (arena (snd (exec d s))) h = Ok bs"
  using exec_arena_grows [OF assms(1), of s] assms(2)
  by (auto simp: arena_grows_def intro: arena_get_extends)

lemma instructions_keep_handles_witness:
  "arena_get (arena (snd (exec (ins OpArgv 0) (text_vm [1, 2] [])))) (handle_new 0 2) = Ok [1, 2]"
  by (rule instructions_keep_handles)
    (simp_all add: text_vm_def arena_from_bytes_def arena_get_def slice_get_def handle_new_def
      handle_end_def u32_max_def)

text \<open>C33: \<open>find\<close> with a non-empty needle returns the position of its first occurrence in the
  haystack, and -1 where there is none.\<close>

theorem find_first_occurrence:
  assumes "d_op d = OpFind" and "runs s fs f (vs @ [v_str hay, v_str needle])"
    and "arena_get (arena s) hay = Ok hs" and "arena_get (arena s) needle = Ok ns" and "ns \<noteq> []"
  shows "\<exists>s' n. exec d s = (Ok (), s') \<and> became s fs f (vs @ [v_int n]) 1 s' \<and>
     ((\<exists>i. n = of_nat i \<and> occurs_at ns hs i \<and> (\<forall>j<i. \<not> occurs_at ns hs j)) \<or>
      (n = -1 \<and> (\<forall>i. \<not> occurs_at ns hs i)))"
proof -
  from find_view(2) [OF assms(2-5)] obtain t where t: "ex_find s = (Ok (), t)"
    "became s fs f (vs @ [v_int (case window_pos ns hs of None \<Rightarrow> -1 | Some p \<Rightarrow> of_nat p)]) 0 t" by blast
  have "exec_op (d_op d) d = adv ex_find" "frames s = fs @ [f]"
    using assms(1,2) by (simp_all add: runs_def)
  from exec_became [OF this(1) t(1) this(2) t(2)] window_pos_first [of ns hs] show ?thesis
    by (cases "window_pos ns hs") auto
qed

lemma find_first_occurrence_witness:
  "\<exists>s' n. exec (ins OpFind 0) (text_vm [1, 2, 3] [2, 3]) = (Ok (), s') \<and>
     became (text_vm [1, 2, 3] [2, 3]) [] (last (frames (text_vm [1, 2, 3] [2, 3]))) [v_int n] 1 s' \<and>
     ((\<exists>i. n = of_nat i \<and> occurs_at [2, 3] [1, 2, 3] i \<and> (\<forall>j<i. \<not> occurs_at [2, 3] [1, 2, 3] j)) \<or>
      (n = -1 \<and> (\<forall>i. \<not> occurs_at [2, 3] [1, 2, 3] i)))"
proof -
  have "arena_get (arena (text_vm [1, 2, 3] [2, 3])) (handle_new 0 3) = Ok [1, 2, 3]"
    and "arena_get (arena (text_vm [1, 2, 3] [2, 3])) (handle_new 3 2) = Ok [2, 3]"
    by (simp_all add: text_vm_def arena_from_bytes_def arena_get_def slice_get_def handle_new_def
        handle_end_def u32_max_def)
  with find_first_occurrence [of "ins OpFind 0" "text_vm [1, 2, 3] [2, 3]" "[]" _ "[]" "handle_new 0 3"
      "handle_new 3 2" "[1, 2, 3]" "[2, 3]"] text_vm_runs [of "[1, 2, 3]" "[2, 3]"]
  show ?thesis by simp
qed

section \<open>Encodings\<close>

text \<open>C34: A verifying journal whose lengths fit their fields reads back from its bytes, over
  trailing bytes too.\<close>

theorem journal_roundtrip:
  assumes "journal_fits j" and "verify_chain j = Ok ()"
  shows "journal_from_bytes (journal_to_bytes j @ trailing) = Ok j"
  using assms by (rule journal_from_to_bytes)

lemma journal_roundtrip_witness:
  "journal_from_bytes (journal_to_bytes log_journal @ [255]) = Ok log_journal"
  by (rule journal_roundtrip) (rule log_journal_ok)+

text \<open>C35: What \<open>encode\<close> appends for an instruction is what \<open>decode\<close> reads at that offset, whatever
  stands before and after it, in four bytes or, for operands above sixteen bits, in eight.\<close>

theorem instruction_roundtrip:
  "decode (fst (encode pre op a b) @ post) (length pre) =
     Some \<lparr>d_op = op, d_a = a, d_b = b, d_len = encoded_len b\<rparr> \<and>
   snd (encode pre op a b) = unat (encoded_len b) \<and>
   length (fst (encode pre op a b)) = length pre + snd (encode pre op a b)"
  using decode_encode [of pre op a b post]
  by (simp add: encode_def encoded_len_def Let_def)

text \<open>C36: A message that fits its length fields decodes from the front of a buffer to itself and its
  length, whatever follows.\<close>

theorem wire_roundtrip:
  assumes "wire_ok m"
  shows "decode_wire (encode_wire m @ rest) = Ok (Some (m, length (encode_wire m)))"
  using assms by (rule decode_encode_wire)

lemma wire_roundtrip_witness:
  "decode_wire (encode_wire (Hello [104, 105]) @ [1, 2]) = Ok (Some (Hello [104, 105], 12))"
  using wire_roundtrip [OF wire_hello_ok, of "[1, 2]"] by (simp add: encode_wire_def wire_body_def Let_def)

text \<open>C37: A snapshot that has lost bytes at its end is refused by \<open>restore\<close>, with \<open>E_SNAP_CORRUPT\<close>,
  or, when the machine it was taken of has a pending value or a handle beyond its arena in some slot,
  with that code or the one for the pending value or the handle (\<open>refusals\<close>). The frames of the
  machine it was to be restored into stay; its arena has been replaced when the cut comes behind the
  arena section. (The lengths in the snapshot fit their fields: \<open>snap_fits\<close>.)\<close>

theorem snapshot_cut_refused:
  assumes "snap_fits s" and "snapshot s = Ok (bs @ rest)" and "rest \<noteq> []"
  shows "\<exists>e. restore bs t = (Err e, if 10 + arena_len (arena s) \<le> length bs then t\<lparr>arena := arena s\<rparr> else t) \<and>
     dcode e \<in> refusals \<and> (snapshottable s \<longrightarrow> Err e = (fail SnapshotCorrupt :: unit result))"
proof -
  from restore_kept [OF assms(1,2), of t] assms(3) obtain e where
    e: "restore bs t = (Err e, if 10 + arena_len (arena s) \<le> length bs then t\<lparr>arena := arena s\<rparr> else t)"
    "dcode e \<in> refusals" by blast
  with restore_cut [OF _ assms(2,3), of t] show ?thesis by auto
qed

lemma snapshot_cut_refused_witness:
  "\<exists>bs b. snapshot snap_vm = Ok (bs @ [b]) \<and>
     restore bs sum_vm = (fail SnapshotCorrupt,
       if 10 + arena_len (arena snap_vm) \<le> length bs then sum_vm\<lparr>arena := arena snap_vm\<rparr> else sum_vm)"
proof -
  obtain cs where cs: "snapshot snap_vm = Ok cs" "cs \<noteq> []"
    by (auto simp: snapshot_def SNAP_MAGIC_def)
  then have "snapshot snap_vm = Ok (butlast cs @ [last cs])" by simp
  moreover from snap_vm_ok have "snap_fits snap_vm" by (simp add: snapshottable_fits)
  ultimately show ?thesis using snapshot_cut_refused [of snap_vm "butlast cs" "[last cs]" sum_vm] snap_vm_ok by auto
qed

text \<open>C38: What a successful \<open>restore\<close> has checked, whatever the bytes: in every frame the stack
  pointer lies within the slots, no slot holds a pending effect, and every handle lies in the
  restored arena; nothing but the arena and the frames is written.\<close>

theorem restore_validates:
  "case restore bs t of
     (Ok _, t') \<Rightarrow> list_all (snap_frame_ok (arena_len (arena t'))) (frames t') \<and>
       (\<exists>a fs. t' = t\<lparr>arena := a, frames := fs\<rparr>)
   | (_, t') \<Rightarrow> (\<exists>a. t' = t\<lparr>arena := a\<rparr>)"
proof -
  obtain r t' where r: "restore bs t = (r, t')" by fastforce
  have same: "\<exists>a. t = t\<lparr>arena := a\<rparr>" by (rule exI [of _ "arena t"]) simp
  show ?thesis
  proof (cases r)
    case (Ok u)
    with r restore_checks [of bs t t'] show ?thesis by simp
  qed (use r same in \<open>auto simp: restore_def Let_def split: prod.splits res.splits\<close>)
qed

section \<open>Further behaviour\<close>

text \<open>C39: \<open>Builder\<close> succeeds exactly when some function is called \<open>main\<close>; the code of every function
  it was given decodes to the instructions written, one after the other.\<close>

theorem builder_writes:
  assumes "i < length fs" and "length (concat (map fn_code fs)) < 2 ^ 32"
  shows "if ascii ''main'' \<in> set (map s_name fs)
     then \<exists>x ats. finish (fold write_fn fs (builder_new nm)) = Ok x \<and> o_entry x = Some (ascii ''main'') \<and>
       map fm_name (o_funcs x) = map s_name fs \<and>
       decode_range (o_code x) (o_funcs x ! i) = Ok (map decoded_ins (piece_ops (s_body (fs ! i))), ats)
     else finish (fold write_fn fs (builder_new nm)) = fail NoEntryPoint"
proof -
  have "map fm_name (o_funcs (built nm fs)) = map s_name fs"
    using metas_nth [of _ fs 0] by (intro nth_equalityI) (simp_all add: built_def)
  with built_decodes [OF assms, of nm] show ?thesis by (simp add: builder_result) (simp add: built_def)
qed

lemma builder_writes_witness:
  "\<exists>x ats. finish (write_fn (main_of 1 skip_push) (builder_new [])) = Ok x \<and>
     decode_range (o_code x) (o_funcs x ! 0) = Ok (map decoded_ins (map (\<lambda>(x, b). (x, 0, b)) skip_push), ats)"
proof -
  have "s_name (main_of 1 skip_push) = ascii ''main''" by (simp add: main_of_def)
  with builder_writes [of 0 "[main_of 1 skip_push]" "[]"] skip_eval(1) show ?thesis
    by (auto simp: fn_code_main piece_ops_main)
qed

text \<open>C40: An admitted program can be disassembled: the listing has its name, one header line for each
  function followed by one line for each of its instructions in order, and the tools; \<open>expect\<close> never
  panics on it.\<close>

theorem disassembly_lists:
  assumes "admit seal_check build_image mark_verified x = Some (Ok im)" and "keeps_parts build_image mark_verified"
  shows "\<exists>dss. list_all2 (\<lambda>f ds. \<exists>ats. decode_range (o_code x) f = Ok (ds, ats)) (o_funcs x) dss \<and>
     emit_image name im = Ok (ascii ''; '' @ name @ ascii '' (cdx/4)'' @ nl @
       concat (map2 (fn_text im) (o_funcs x) dss) @ tools_line (o_tools x))"
  by (rule admitted_disassembles [where seal_check = seal_check and build_image = build_image and mark_verified = mark_verified, OF assms])

lemma disassembly_lists_witness: "\<exists>out. emit_image (ascii ''t'') (plain_image skip_object) = Ok out"
  using disassembly_lists [OF skip_admitted plain_image_keeps, of "ascii ''t''"] by blast

end
